(* ===== verification/Prelude.thy ===== *)
theory Prelude
  imports Main "HOL-Library.Word"
begin

text \<open>
  What every component of the development shares: the machine types of the C
  code, the byte order conversions, files as byte lists, and lemmas on lists.

  C's \<^verbatim>\<open>afs_int32\<close> is an \<^typ>\<open>int\<close>; where the code relies on the width the
  wrap-around is written out with \<open>int32\<close>.  \<^verbatim>\<open>afs_uint32\<close> network addresses are
  32-bit words.  A file is the list of its bytes.
\<close>

unbundle bit_operations_syntax

named_theorems fbyte_simps \<open>reading single bytes of a file after a file operation\<close>
named_theorems frame_simps \<open>fields that an operation leaves alone\<close>

type_synonym byte = "8 word"
type_synonym u32 = "32 word"

section \<open>Integers at their width\<close>

definition int32 :: "int \<Rightarrow> int" where
  "int32 x = (x + 2147483648) mod 4294967296 - 2147483648"

definition fits32 :: "int \<Rightarrow> bool" where
  "fits32 x \<longleftrightarrow> - 2147483648 \<le> x \<and> x < 2147483648"

lemma int32_fits [simp]: "fits32 x \<Longrightarrow> int32 x = x"
  by (simp add: int32_def fits32_def)

lemma fits32_int32 [simp, intro!]: "fits32 (int32 x)"
  by (simp add: int32_def fits32_def pos_mod_bound)

lemma int32_mod: "int32 (x mod 4294967296) = int32 x"
  by (simp add: int32_def mod_simps)

text \<open>\<^verbatim>\<open>htonl\<close> followed by storing the four bytes, and the way back.\<close>

definition htonl_bytes :: "int \<Rightarrow> byte list" where
  "htonl_bytes x = [of_int (x div 16777216), of_int (x div 65536), of_int (x div 256), of_int x]"

definition bytes_value :: "byte list \<Rightarrow> int" where
  "bytes_value bs = foldl (\<lambda>acc b. acc * 256 + uint b) 0 bs"

definition ntohl_bytes :: "byte list \<Rightarrow> int" where
  "ntohl_bytes bs = int32 (bytes_value bs)"

lemma length_htonl_bytes [simp]: "length (htonl_bytes x) = 4"
  by (simp add: htonl_bytes_def)

lemma uint_byte_of_int: "uint (of_int x :: byte) = x mod 256"
  by (simp add: uint_word_of_int)

lemma div_mod_shift:
  fixes x :: int
  assumes "c > 0" and "256 * c = d"
  shows "(x div c) mod 256 * c + x mod c = x mod d"
proof -
  have "x mod (c * 256) = c * (x div c mod 256) + x mod c"
    using assms(1) by (simp add: zmod_zmult2_eq)
  with assms(2) show ?thesis by (simp only: mult.commute)
qed

lemma bytes_value_htonl: "bytes_value (htonl_bytes x) = x mod 4294967296"
proof -
  have split: "bytes_value (htonl_bytes x) =
      (((x div 16777216) mod 256 * 256 + (x div 65536) mod 256) * 256
        + (x div 256) mod 256) * 256 + x mod 256"
    unfolding bytes_value_def htonl_bytes_def uint_byte_of_int foldl_Cons foldl_Nil
    by (simp only: uint_byte_of_int mult_zero_left add_0_left)
  have regroup: "((a * 256 + b) * 256 + c) * 256 + d
      = a * 16777216 + (b * 65536 + (c * 256 + d))" for a b c d :: int
    by simp
  have "(x div 256) mod 256 * 256 + x mod 256 = x mod 65536"
    and "(x div 65536) mod 256 * 65536 + x mod 65536 = x mod 16777216"
    and "(x div 16777216) mod 256 * 16777216 + x mod 16777216 = x mod 4294967296"
    by (rule div_mod_shift; simp)+
  then show ?thesis by (simp only: split regroup)
qed

lemma ntohl_htonl_bytes [simp]: "ntohl_bytes (htonl_bytes x) = int32 x"
  by (simp add: ntohl_bytes_def bytes_value_htonl int32_mod)

text \<open>\<^verbatim>\<open>ntohl\<close> on a 32-bit address, on a little-endian host.\<close>

definition ntohl :: "u32 \<Rightarrow> u32" where
  "ntohl w = push_bit 24 (take_bit 8 w) OR push_bit 16 (take_bit 8 (drop_bit 8 w))
           OR push_bit 8 (take_bit 8 (drop_bit 16 w)) OR take_bit 8 (drop_bit 24 w)"

lemma bit_ntohl:
  "bit (ntohl w) n \<longleftrightarrow> n < 32 \<and> bit w (8 * (3 - n div 8) + n mod 8)"
proof -
  consider "n < 8" | "8 \<le> n \<and> n < 16" | "16 \<le> n \<and> n < 24" | "24 \<le> n \<and> n < 32" | "32 \<le> n"
    by linarith
  then show ?thesis
  proof cases
    case 1 then show ?thesis by (auto simp: ntohl_def bit_simps)
  next
    case 2
    then have "n div 8 = 1" and "n mod 8 = n - 8" by (auto simp: mod_if)
    with 2 show ?thesis by (auto simp: ntohl_def bit_simps)
  next
    case 3
    then have "n div 8 = 2" and "n mod 8 = n - 16" by (auto simp: mod_if)
    with 3 show ?thesis by (auto simp: ntohl_def bit_simps)
  next
    case 4
    then have "n div 8 = 3" and "n mod 8 = n - 24" by (auto simp: mod_if)
    with 4 show ?thesis by (auto simp: ntohl_def bit_simps)
  next
    case 5 then show ?thesis by (auto simp: ntohl_def bit_simps dest: bit_imp_le_length)
  qed
qed

lemma ntohl_ntohl [simp]: "ntohl (ntohl w) = w"
proof (rule bit_word_eqI)
  fix n :: nat
  assume "n < LENGTH(32)"
  then have n: "n < 32" by simp
  let ?m = "8 * (3 - n div 8) + n mod 8"
  have "?m < 32" and "?m div 8 = 3 - n div 8" and "?m mod 8 = n mod 8"
    using n by (auto simp: less_mult_imp_div_less)
  moreover have "8 * (3 - (3 - n div 8)) + n mod 8 = n"
  proof -
    have "3 - (3 - n div 8) = n div 8" using n by simp
    then show ?thesis by simp
  qed
  ultimately show "bit (ntohl (ntohl w)) n = bit w n"
    using n by (simp add: bit_ntohl)
qed

lemma ntohl_inj [simp]: "ntohl a = ntohl b \<longleftrightarrow> a = b"
  by (metis ntohl_ntohl)

lemma ntohl_0 [simp]: "ntohl 0 = 0"
  by (simp add: ntohl_def)

lemma ntohl_max [simp]: "ntohl 0xffffffff = 0xffffffff"
  by (simp add: ntohl_def)

text \<open>The bytes of a word, most significant first.\<close>

definition word_byte :: "u32 \<Rightarrow> nat \<Rightarrow> byte" where
  "word_byte w i = ucast (drop_bit (8 * (3 - i)) w)"

definition word_of_bytes :: "byte \<Rightarrow> byte \<Rightarrow> byte \<Rightarrow> byte \<Rightarrow> u32" where
  "word_of_bytes b0 b1 b2 b3 = push_bit 24 (ucast b0) OR push_bit 16 (ucast b1) OR push_bit 8 (ucast b2) OR ucast b3"

lemma word_bytes [simp]:
  "word_of_bytes (word_byte w 0) (word_byte w (Suc 0)) (word_byte w 2) (word_byte w 3) = w"
proof (rule bit_word_eqI)
  fix n :: nat
  assume n: "n < LENGTH(32)"
  consider "n < 8" | "8 \<le> n" "n < 16" | "16 \<le> n" "n < 24" | "24 \<le> n" "n < 32" using n by fastforce
  then show "bit (word_of_bytes (word_byte w 0) (word_byte w (Suc 0)) (word_byte w 2) (word_byte w 3)) n = bit w n"
    by cases (auto simp: word_of_bytes_def word_byte_def bit_simps)
qed

lemma word_byte_of [simp]:
  "word_byte (word_of_bytes a b c d) 0 = a" "word_byte (word_of_bytes a b c d) (Suc 0) = b"
  "word_byte (word_of_bytes a b c d) 2 = c" "word_byte (word_of_bytes a b c d) 3 = d"
  by (rule bit_word_eqI; auto simp: word_of_bytes_def word_byte_def bit_simps dest: bit_imp_le_length)+

section \<open>Files\<close>

text \<open>
  The contents of a file as POSIX gives it: \<^verbatim>\<open>pread\<close> returns the bytes there are,
  \<^verbatim>\<open>pwrite\<close> past the end fills the gap with zeros, \<^verbatim>\<open>ftruncate\<close> cuts or
  extends with zeros.  \<open>fbyte f i\<close> is the byte a reader of a zero-filled buffer sees
  at offset \<open>i\<close>.
\<close>

definition pread :: "byte list \<Rightarrow> nat \<Rightarrow> nat \<Rightarrow> byte list" where
  "pread f pos len = take len (drop pos f)"

definition pwrite :: "byte list \<Rightarrow> nat \<Rightarrow> byte list \<Rightarrow> byte list" where
  "pwrite f pos bs =
     (if bs = [] then f
      else take pos (f @ replicate (pos - length f) 0) @ bs @ drop (pos + length bs) f)"

definition ftruncate :: "byte list \<Rightarrow> nat \<Rightarrow> byte list" where
  "ftruncate f n = take n (f @ replicate (n - length f) 0)"

definition fbyte :: "byte list \<Rightarrow> nat \<Rightarrow> byte" where
  "fbyte f i = (if i < length f then f ! i else 0)"

lemma length_pread [simp]: "length (pread f pos len) = min len (length f - pos)"
  by (simp add: pread_def)

lemma nth_pread: "i < length (pread f pos len) \<Longrightarrow> pread f pos len ! i = fbyte f (pos + i)"
  by (auto simp: pread_def fbyte_def)

lemma length_pwrite:
  "length (pwrite f pos bs) = (if bs = [] then length f else max (length f) (pos + length bs))"
  by (auto simp: pwrite_def)

lemma length_ftruncate [simp]: "length (ftruncate f n) = n"
  by (simp add: ftruncate_def)

lemma fbyte_pwrite [fbyte_simps]:
  "fbyte (pwrite f pos bs) i =
     (if pos \<le> i \<and> i < pos + length bs then bs ! (i - pos) else fbyte f i)"
proof (cases "bs = []")
  case True
  then show ?thesis by (auto simp: pwrite_def)
next
  case False
  have len: "min (length f) pos + (pos - length f) = pos" by simp
  consider "i < pos" | "pos \<le> i \<and> i < pos + length bs" | "pos + length bs \<le> i"
    by linarith
  then show ?thesis
  proof cases
    case 1
    with False show ?thesis
      by (auto simp: fbyte_def pwrite_def nth_append)
  next
    case 2
    with False len show ?thesis
      by (auto simp: fbyte_def pwrite_def nth_append)
  next
    case 3
    with False have "pos \<le> i" and "length bs \<le> i - pos" by auto
    with 3 False show ?thesis
      by (auto simp: fbyte_def pwrite_def nth_append)
  qed
qed

lemma fbyte_ftruncate [fbyte_simps]:
  "fbyte (ftruncate f n) i = (if i < n then fbyte f i else 0)"
  by (auto simp: fbyte_def ftruncate_def nth_append)

lemma fbyte_append [fbyte_simps]:
  "fbyte (f @ g) i = (if i < length f then f ! i else fbyte g (i - length f))"
  by (auto simp: fbyte_def nth_append)

lemma ftruncate_le: "n \<le> length f \<Longrightarrow> ftruncate f n = take n f"
  by (simp add: ftruncate_def)

text \<open>The page of \<open>n\<close> bytes at offset \<open>pos\<close>, filled up with zeros.\<close>

definition fpage :: "byte list \<Rightarrow> nat \<Rightarrow> nat \<Rightarrow> byte list" where
  "fpage f pos n = map (\<lambda>i. fbyte f (pos + i)) [0..<n]"

lemma length_fpage [simp]: "length (fpage f pos n) = n"
  by (simp add: fpage_def)

lemma nth_fpage [simp]: "i < n \<Longrightarrow> fpage f pos n ! i = fbyte f (pos + i)"
  by (simp add: fpage_def)

text \<open>Reading into a cleared buffer of \<open>n\<close> bytes gives the zero-filled page.\<close>

lemma pwrite_pread_page: "pwrite (replicate n 0) 0 (pread f pos n) = fpage f pos n"
proof (rule nth_equalityI)
  show "length (pwrite (replicate n 0) 0 (pread f pos n)) = length (fpage f pos n)"
    by (simp add: length_pwrite)
next
  fix i
  assume "i < length (pwrite (replicate n 0) 0 (pread f pos n))"
  then have i: "i < n" and len: "i < length (pwrite (replicate n 0) 0 (pread f pos n))"
    by (auto simp: length_pwrite split: if_splits)
  from len have "pwrite (replicate n 0) 0 (pread f pos n) ! i
      = fbyte (pwrite (replicate n 0) 0 (pread f pos n)) i"
    by (simp add: fbyte_def)
  also have "\<dots> = fbyte f (pos + i)"
    using i by (auto simp: fbyte_pwrite nth_pread, auto simp: fbyte_def)
  finally show "pwrite (replicate n 0) 0 (pread f pos n) ! i = fpage f pos n ! i"
    using i by simp
qed

section \<open>Lists\<close>

definition move_front :: "'a \<Rightarrow> 'a list \<Rightarrow> 'a list" where
  "move_front x xs = x # remove1 x xs"

definition move_back :: "'a \<Rightarrow> 'a list \<Rightarrow> 'a list" where
  "move_back x xs = remove1 x xs @ [x]"

lemma set_move_front [simp]: "x \<in> set xs \<Longrightarrow> distinct xs \<Longrightarrow> set (move_front x xs) = set xs"
  by (auto simp: move_front_def)

lemma set_move_back [simp]: "x \<in> set xs \<Longrightarrow> distinct xs \<Longrightarrow> set (move_back x xs) = set xs"
  by (auto simp: move_back_def)

lemma distinct_move_front [simp]: "distinct xs \<Longrightarrow> distinct (move_front x xs)"
  by (simp add: move_front_def)

lemma distinct_move_back [simp]: "distinct xs \<Longrightarrow> distinct (move_back x xs)"
  by (simp add: move_back_def)

section \<open>Refinement of labelled systems\<close>

primrec runs :: "('l \<Rightarrow> 's \<Rightarrow> 's \<Rightarrow> bool) \<Rightarrow> 'l list \<Rightarrow> 's \<Rightarrow> 's \<Rightarrow> bool" where
  "runs step [] s s' \<longleftrightarrow> s = s'"
| "runs step (l # ls) s s' \<longleftrightarrow> (\<exists>s1. step l s s1 \<and> runs step ls s1 s')"

locale forward_simulation =
  fixes cstep :: "'l \<Rightarrow> 'c \<Rightarrow> 'c \<Rightarrow> bool" and astep :: "'l \<Rightarrow> 'a \<Rightarrow> 'a \<Rightarrow> bool" and sim :: "'a \<Rightarrow> 'c \<Rightarrow> bool"
  assumes sim_step: "sim a c \<Longrightarrow> cstep l c c' \<Longrightarrow> \<exists>a'. astep l a a' \<and> sim a' c'"
begin

lemma sim_run: "sim a c \<Longrightarrow> runs cstep ls c c' \<Longrightarrow> \<exists>a'. runs astep ls a a' \<and> sim a' c'"
proof (induction ls arbitrary: a c)
  case (Cons l ls)
  then obtain c1 where c1: "cstep l c c1" "runs cstep ls c1 c'" by auto
  from sim_step[OF Cons(2) c1(1)] obtain a1 where "astep l a a1" "sim a1 c1" by blast
  with Cons(1)[OF this(2) c1(2)] show ?case by auto
qed auto

end

section \<open>Quorums\<close>

text \<open>
  What the election and the quorum calls rely on: any two quorums have a member in
  common.  So what one quorum has been told some member of any other knows, and two
  quorums cannot choose differently when each member chooses once.
\<close>

locale quorum_system =
  fixes quorum :: "'a set \<Rightarrow> bool"
  assumes meet: "quorum A \<Longrightarrow> quorum B \<Longrightarrow> A \<inter> B \<noteq> {}"
begin

lemma common_member:
  assumes "quorum A" and "quorum B"
  obtains v where "v \<in> A" and "v \<in> B"
  using meet[OF assms] by blast

lemma told: "quorum A \<Longrightarrow> (\<And>v. v \<in> A \<Longrightarrow> P v) \<Longrightarrow> quorum B \<Longrightarrow> \<exists>v \<in> B. P v"
  by (blast elim: common_member)

lemma one_choice: "quorum A \<Longrightarrow> quorum B \<Longrightarrow> (\<And>v. v \<in> A \<Longrightarrow> c v = x) \<Longrightarrow> (\<And>v. v \<in> B \<Longrightarrow> c v = y) \<Longrightarrow> x = y"
  by (blast elim: common_member)

end

end
