(* ===== verification/Lwp_Lock.thy ===== *)
theory Lwp_Lock
  imports Prelude
begin

text \<open>
  The reader/writer locks of the servers (\<^verbatim>\<open>src/src/lwp/lock.c\<close> and the macros of
  \<^verbatim>\<open>lock.h\<close>), and the threads that use one lock.

  Every macro runs under the lock's mutex, so it is one atomic step; a thread that
  has to wait sleeps on one of two condition variables and tests its condition again
  when it has been signalled.  The flag bytes \<^verbatim>\<open>wait_states\<close> and \<^verbatim>\<open>excl_locked\<close> are
  sets of flags, the two counters are bytes.
\<close>

section \<open>The lock\<close>

datatype lflag = READ_LOCK | WRITE_LOCK | SHARED_LOCK

datatype how = ReadHow | WriteHow | SharedHow | BoostedHow

datatype cv = read_cv | write_cv

record lock =
  wait_states :: "lflag set"
  excl_locked :: "lflag set"
  readers_reading :: byte
  num_waiting :: byte

abbreviation EXCL_LOCKS :: "lflag set" where "EXCL_LOCKS \<equiv> {WRITE_LOCK, SHARED_LOCK}"

definition Lock_Init :: lock where
  "Lock_Init = \<lparr>wait_states = {}, excl_locked = {}, readers_reading = 0, num_waiting = 0\<rparr>"

text \<open>
  \<^verbatim>\<open>Afs_Lock_Obtain\<close> in three parts: falling asleep, the test made after each wake-up,
  and what is done once the test lets the thread through.
\<close>

fun wait_flag :: "how \<Rightarrow> lflag" where
  "wait_flag ReadHow = READ_LOCK"
| "wait_flag WriteHow = WRITE_LOCK"
| "wait_flag SharedHow = SHARED_LOCK"
| "wait_flag BoostedHow = WRITE_LOCK"

fun wait_cv :: "how \<Rightarrow> cv" where
  "wait_cv ReadHow = read_cv"
| "wait_cv WriteHow = write_cv"
| "wait_cv SharedHow = write_cv"
| "wait_cv BoostedHow = write_cv"

definition Obtain_sleep :: "lock \<Rightarrow> how \<Rightarrow> lock" where
  "Obtain_sleep l h = l\<lparr>wait_states := insert (wait_flag h) (wait_states l)\<rparr>"

definition Obtain_enter :: "lock \<Rightarrow> how \<Rightarrow> lock" where
  "Obtain_enter l h = Obtain_sleep (l\<lparr>num_waiting := num_waiting l + 1\<rparr>) h"

fun Obtain_busy :: "lock \<Rightarrow> how \<Rightarrow> bool" where
  "Obtain_busy l ReadHow = (WRITE_LOCK \<in> excl_locked l)"
| "Obtain_busy l WriteHow = (excl_locked l \<noteq> {} \<or> readers_reading l \<noteq> 0)"
| "Obtain_busy l SharedHow = (excl_locked l \<noteq> {})"
| "Obtain_busy l BoostedHow = (readers_reading l \<noteq> 0)"

fun Obtain_take :: "lock \<Rightarrow> how \<Rightarrow> lock" where
  "Obtain_take l ReadHow = l\<lparr>readers_reading := readers_reading l + 1\<rparr>"
| "Obtain_take l WriteHow = l\<lparr>excl_locked := {WRITE_LOCK}\<rparr>"
| "Obtain_take l SharedHow = l\<lparr>excl_locked := {SHARED_LOCK}\<rparr>"
| "Obtain_take l BoostedHow = l\<lparr>excl_locked := {WRITE_LOCK}\<rparr>"

definition Obtain_leave :: "lock \<Rightarrow> how \<Rightarrow> lock" where
  "Obtain_leave l h = Obtain_take (l\<lparr>num_waiting := num_waiting l - 1\<rparr>) h"

text \<open>The tests of the \<^verbatim>\<open>Obtain...Lock\<close> macros: may the thread take the lock at once?\<close>

fun Obtain_free :: "lock \<Rightarrow> how \<Rightarrow> bool" where
  "Obtain_free l ReadHow = (WRITE_LOCK \<notin> excl_locked l \<and> wait_states l = {})"
| "Obtain_free l WriteHow = (excl_locked l = {} \<and> readers_reading l = 0)"
| "Obtain_free l SharedHow = (excl_locked l = {} \<and> wait_states l = {})"
| "Obtain_free l BoostedHow = (readers_reading l = 0)"

text \<open>Wake-ups: the new lock and the condition variable that is broadcast.\<close>

definition Afs_Lock_WakeupR :: "lock \<Rightarrow> lock \<times> cv option" where
  "Afs_Lock_WakeupR l =
     (if READ_LOCK \<in> wait_states l
      then (l\<lparr>wait_states := wait_states l - {READ_LOCK}\<rparr>, Some read_cv) else (l, None))"

definition Afs_Lock_ReleaseR :: "lock \<Rightarrow> lock \<times> cv option" where
  "Afs_Lock_ReleaseR l =
     (if READ_LOCK \<in> wait_states l
      then (l\<lparr>wait_states := wait_states l - {READ_LOCK}\<rparr>, Some read_cv)
      else (l\<lparr>wait_states := wait_states l - EXCL_LOCKS\<rparr>, Some write_cv))"

definition Afs_Lock_ReleaseW :: "lock \<Rightarrow> lock \<times> cv option" where
  "Afs_Lock_ReleaseW l =
     (if wait_states l \<inter> EXCL_LOCKS \<noteq> {}
      then (l\<lparr>wait_states := wait_states l - EXCL_LOCKS\<rparr>, Some write_cv)
      else (l\<lparr>wait_states := wait_states l - {READ_LOCK}\<rparr>, Some read_cv))"

definition ReleaseReadLock :: "lock \<Rightarrow> lock \<times> cv option" where
  "ReleaseReadLock l =
     (let l' = l\<lparr>readers_reading := readers_reading l - 1\<rparr>
      in if readers_reading l' = 0 \<and> wait_states l' \<noteq> {} then Afs_Lock_ReleaseW l' else (l', None))"

definition ReleaseWriteLock :: "lock \<Rightarrow> lock \<times> cv option" where
  "ReleaseWriteLock l =
     (let l' = l\<lparr>excl_locked := excl_locked l - {WRITE_LOCK}\<rparr>
      in if wait_states l' \<noteq> {} then Afs_Lock_ReleaseR l' else (l', None))"

definition ReleaseSharedLock :: "lock \<Rightarrow> lock \<times> cv option" where
  "ReleaseSharedLock l =
     (let l' = l\<lparr>excl_locked := excl_locked l - {SHARED_LOCK, WRITE_LOCK}\<rparr>
      in if wait_states l' \<noteq> {} then Afs_Lock_ReleaseR l' else (l', None))"

definition UnboostSharedLock :: "lock \<Rightarrow> lock \<times> cv option" where
  "UnboostSharedLock l =
     (let l' = l\<lparr>excl_locked := {SHARED_LOCK}\<rparr>
      in if wait_states l' \<noteq> {} then Afs_Lock_ReleaseR l' else (l', None))"

definition ConvertWriteToReadLock :: "lock \<Rightarrow> lock \<times> cv option" where
  "ConvertWriteToReadLock l =
     (let l' = l\<lparr>excl_locked := excl_locked l - {WRITE_LOCK},
                readers_reading := readers_reading l + 1\<rparr>
      in if READ_LOCK \<in> wait_states l' then Afs_Lock_WakeupR l' else (l', None))"

section \<open>Threads around one lock\<close>

text \<open>\<open>Wait h s\<close>: asleep in \<^verbatim>\<open>Afs_Lock_Obtain\<close>; \<open>s\<close> says that it has been signalled.\<close>

datatype tpc = Idle | HoldRead | HoldWrite | HoldShared | Wait how bool

record lsys =
  lk :: lock
  th :: "nat \<Rightarrow> tpc"

fun held :: "how \<Rightarrow> tpc" where
  "held ReadHow = HoldRead"
| "held WriteHow = HoldWrite"
| "held SharedHow = HoldShared"
| "held BoostedHow = HoldWrite"

fun signal :: "cv option \<Rightarrow> tpc \<Rightarrow> tpc" where
  "signal (Some c) (Wait h s) = Wait h (s \<or> wait_cv h = c)"
| "signal _ p = p"

definition settle :: "lsys \<Rightarrow> nat \<Rightarrow> tpc \<Rightarrow> lock \<times> cv option \<Rightarrow> lsys" where
  "settle s t p r = \<lparr>lk = fst r, th = (\<lambda>u. signal (snd r) (((th s)(t := p)) u))\<rparr>"

definition obtain_step :: "lsys \<Rightarrow> nat \<Rightarrow> how \<Rightarrow> lsys" where
  "obtain_step s t h =
     (if Obtain_free (lk s) h then settle s t (held h) (Obtain_take (lk s) h, None)
      else settle s t (Wait h False) (Obtain_enter (lk s) h, None))"

definition wake_step :: "lsys \<Rightarrow> nat \<Rightarrow> how \<Rightarrow> lsys" where
  "wake_step s t h =
     (if Obtain_busy (lk s) h then settle s t (Wait h False) (Obtain_sleep (lk s) h, None)
      else settle s t (held h) (Obtain_leave (lk s) h, None))"

text \<open>
  One step of one of the threads \<open>0, \<dots>, n - 1\<close>.  A thread obtains a lock only when it
  holds none, boosts only a shared lock, and releases what it holds.
\<close>

inductive lock_step :: "nat \<Rightarrow> lsys \<Rightarrow> lsys \<Rightarrow> bool" for n :: nat where
  do_obtain: "t < n \<Longrightarrow> th s t = Idle \<Longrightarrow> h \<noteq> BoostedHow \<Longrightarrow> lock_step n s (obtain_step s t h)"
| do_boost: "t < n \<Longrightarrow> th s t = HoldShared \<Longrightarrow> lock_step n s (obtain_step s t BoostedHow)"
| do_wake: "t < n \<Longrightarrow> th s t = Wait h True \<Longrightarrow> lock_step n s (wake_step s t h)"
| rel_read: "t < n \<Longrightarrow> th s t = HoldRead \<Longrightarrow> lock_step n s (settle s t Idle (ReleaseReadLock (lk s)))"
| rel_write: "t < n \<Longrightarrow> th s t = HoldWrite \<Longrightarrow> lock_step n s (settle s t Idle (ReleaseWriteLock (lk s)))"
| rel_shared: "t < n \<Longrightarrow> th s t = HoldShared \<or> th s t = HoldWrite \<Longrightarrow>
    lock_step n s (settle s t Idle (ReleaseSharedLock (lk s)))"
| unboost: "t < n \<Longrightarrow> th s t = HoldWrite \<Longrightarrow>
    lock_step n s (settle s t HoldShared (UnboostSharedLock (lk s)))"
| convert: "t < n \<Longrightarrow> th s t = HoldWrite \<Longrightarrow>
    lock_step n s (settle s t HoldRead (ConvertWriteToReadLock (lk s)))"

definition lsys_init :: lsys where
  "lsys_init = \<lparr>lk = Lock_Init, th = (\<lambda>_. Idle)\<rparr>"

inductive lock_reach :: "nat \<Rightarrow> lsys \<Rightarrow> bool" for n :: nat where
  init: "lock_reach n lsys_init"
| step: "lock_reach n s \<Longrightarrow> lock_step n s t \<Longrightarrow> lock_reach n t"

section \<open>The invariant\<close>

definition readers :: "nat \<Rightarrow> lsys \<Rightarrow> nat set" where
  "readers n s = {t. t < n \<and> th s t = HoldRead}"

fun has_excl :: "tpc \<Rightarrow> bool" where
  "has_excl HoldWrite = True"
| "has_excl HoldShared = True"
| "has_excl (Wait BoostedHow s) = True"
| "has_excl p = False"

fun runnable :: "tpc \<Rightarrow> bool" where
  "runnable HoldRead = True"
| "runnable HoldWrite = True"
| "runnable HoldShared = True"
| "runnable (Wait h s) = s"
| "runnable Idle = False"

definition excl_owner :: "lsys \<Rightarrow> nat option \<Rightarrow> bool" where
  "excl_owner s ow \<longleftrightarrow>
     (\<forall>t. has_excl (th s t) \<longleftrightarrow> ow = Some t) \<and>
     excl_locked (lk s) = (case ow of None \<Rightarrow> {}
       | Some t \<Rightarrow> if th s t = HoldWrite then {WRITE_LOCK} else {SHARED_LOCK})"

definition excl_inv :: "lsys \<Rightarrow> bool" where
  "excl_inv s \<longleftrightarrow> (\<exists>ow. excl_owner s ow)"

definition reader_inv :: "nat \<Rightarrow> lsys \<Rightarrow> bool" where
  "reader_inv n s \<longleftrightarrow>
     unat (readers_reading (lk s)) = card (readers n s) \<and>
     (\<forall>t. n \<le> t \<longrightarrow> th s t = Idle) \<and>
     (\<forall>t u. th s t = HoldWrite \<longrightarrow> th s u \<noteq> HoldRead)"

section \<open>Every step keeps the invariant\<close>

lemma signal_None [simp]: "signal None p = p"
  by (cases p) auto

lemma signal_iff [simp]:
  "signal c p = Idle \<longleftrightarrow> p = Idle"
  "signal c p = HoldRead \<longleftrightarrow> p = HoldRead"
  "signal c p = HoldWrite \<longleftrightarrow> p = HoldWrite"
  "signal c p = HoldShared \<longleftrightarrow> p = HoldShared"
  "has_excl (signal c p) \<longleftrightarrow> has_excl p"
  by (cases p; cases c; auto elim: has_excl.elims; case_tac x51; auto)+

lemma signal_wait [simp]:
  "signal c p = Wait h False \<longleftrightarrow> p = Wait h False \<and> c \<noteq> Some (wait_cv h)"
  by (cases p; cases c) auto

lemma signal_runnable: "runnable p \<Longrightarrow> runnable (signal c p)"
  by (cases p; cases c) auto

lemma settle_sel [simp]:
  "lk (settle s t p r) = fst r"
  "th (settle s t p r) u = signal (snd r) (((th s)(t := p)) u)"
  by (simp_all add: settle_def)

lemma release_frame [simp]:
  "excl_locked (fst (Afs_Lock_ReleaseR l)) = excl_locked l"
  "excl_locked (fst (Afs_Lock_ReleaseW l)) = excl_locked l"
  "excl_locked (fst (Afs_Lock_WakeupR l)) = excl_locked l"
  "readers_reading (fst (Afs_Lock_ReleaseR l)) = readers_reading l"
  "readers_reading (fst (Afs_Lock_ReleaseW l)) = readers_reading l"
  "readers_reading (fst (Afs_Lock_WakeupR l)) = readers_reading l"
  by (simp_all add: Afs_Lock_ReleaseR_def Afs_Lock_ReleaseW_def Afs_Lock_WakeupR_def)

lemma macro_excl [simp]:
  "excl_locked (fst (ReleaseReadLock l)) = excl_locked l"
  "excl_locked (fst (ReleaseWriteLock l)) = excl_locked l - {WRITE_LOCK}"
  "excl_locked (fst (ReleaseSharedLock l)) = excl_locked l - {SHARED_LOCK, WRITE_LOCK}"
  "excl_locked (fst (UnboostSharedLock l)) = {SHARED_LOCK}"
  "excl_locked (fst (ConvertWriteToReadLock l)) = excl_locked l - {WRITE_LOCK}"
  by (simp_all add: ReleaseReadLock_def ReleaseWriteLock_def ReleaseSharedLock_def
      UnboostSharedLock_def ConvertWriteToReadLock_def Let_def)

lemma macro_readers [simp]:
  "readers_reading (fst (ReleaseReadLock l)) = readers_reading l - 1"
  "readers_reading (fst (ReleaseWriteLock l)) = readers_reading l"
  "readers_reading (fst (ReleaseSharedLock l)) = readers_reading l"
  "readers_reading (fst (UnboostSharedLock l)) = readers_reading l"
  "readers_reading (fst (ConvertWriteToReadLock l)) = readers_reading l + 1"
  by (simp_all add: ReleaseReadLock_def ReleaseWriteLock_def ReleaseSharedLock_def
      UnboostSharedLock_def ConvertWriteToReadLock_def Let_def)

lemma obtain_frame [simp]:
  "excl_locked (Obtain_enter l h) = excl_locked l"
  "excl_locked (Obtain_sleep l h) = excl_locked l"
  "readers_reading (Obtain_enter l h) = readers_reading l"
  "readers_reading (Obtain_sleep l h) = readers_reading l"
  "wait_states (Obtain_enter l h) = insert (wait_flag h) (wait_states l)"
  "wait_states (Obtain_sleep l h) = insert (wait_flag h) (wait_states l)"
  "wait_states (Obtain_take l h) = wait_states l"
  "wait_states (Obtain_leave l h) = wait_states l"
  by (cases h; simp add: Obtain_enter_def Obtain_sleep_def Obtain_leave_def)+

lemma excl_owner_None: "excl_owner s ow \<Longrightarrow> excl_locked (lk s) = {} \<longleftrightarrow> ow = None"
  by (auto simp: excl_owner_def split: option.splits if_splits)

lemma excl_owner_hold: "excl_owner s ow \<Longrightarrow> has_excl (th s t) \<Longrightarrow> ow = Some t"
  by (simp add: excl_owner_def)

lemma excl_keep:
  assumes "excl_owner s ow" and "\<not> has_excl (th s t)" and "\<not> has_excl p"
    and "excl_locked (fst r) = excl_locked (lk s)"
  shows "excl_inv (settle s t p r)"
proof -
  have "excl_owner (settle s t p r) ow"
    using assms by (auto simp: excl_owner_def split: option.splits)
  then show ?thesis by (auto simp: excl_inv_def)
qed

lemma excl_gain:
  assumes "excl_owner s ow" and "ow = None \<or> ow = Some t" and "has_excl p"
    and "excl_locked (fst r) = (if p = HoldWrite then {WRITE_LOCK} else {SHARED_LOCK})"
  shows "excl_inv (settle s t p r)"
proof -
  have "excl_owner (settle s t p r) (Some t)"
    using assms by (auto simp: excl_owner_def)
  then show ?thesis by (auto simp: excl_inv_def)
qed

lemma excl_drop:
  assumes "excl_owner s (Some t)" and "\<not> has_excl p" and "excl_locked (fst r) = {}"
  shows "excl_inv (settle s t p r)"
proof -
  have "excl_owner (settle s t p r) None"
    using assms by (auto simp: excl_owner_def)
  then show ?thesis by (auto simp: excl_inv_def)
qed

lemma excl_owner_value:
  "excl_owner s (Some t) \<Longrightarrow> excl_locked (lk s) = (if th s t = HoldWrite then {WRITE_LOCK} else {SHARED_LOCK})"
  by (simp add: excl_owner_def)

lemma excl_inv_step: "lock_step n s t \<Longrightarrow> excl_inv s \<Longrightarrow> excl_inv t"
proof (induction rule: lock_step.induct)
  case (do_obtain t s h)
  then obtain ow where ow: "excl_owner s ow" by (auto simp: excl_inv_def)
  have none: "ow = None" if "excl_locked (lk s) = {}"
    using excl_owner_None[OF ow] that by simp
  show ?case
    unfolding obtain_step_def using do_obtain none
    by (cases h) (auto intro: excl_keep[OF ow] excl_gain[OF ow])
next
  case (do_boost t s)
  then obtain ow where ow: "excl_owner s ow" by (auto simp: excl_inv_def)
  from do_boost have t: "ow = Some t" using excl_owner_hold[OF ow] by simp
  with do_boost show ?case
    unfolding obtain_step_def
    by (auto intro!: excl_gain[OF ow] simp: excl_owner_value[OF ow[unfolded t]])
next
  case (do_wake t s h)
  then obtain ow where ow: "excl_owner s ow" by (auto simp: excl_inv_def)
  have none: "ow = None" if "excl_locked (lk s) = {}"
    using excl_owner_None[OF ow] that by simp
  have own: "ow = Some t" if "h = BoostedHow"
    using excl_owner_hold[OF ow] do_wake that by simp
  show ?case
  proof (cases h)
    case BoostedHow
    with own have t: "ow = Some t" by simp
    with BoostedHow do_wake show ?thesis
      unfolding wake_step_def Obtain_leave_def
      by (auto intro!: excl_gain[OF ow] simp: excl_owner_value[OF ow[unfolded t]])
  qed (use do_wake none in \<open>auto simp: wake_step_def Obtain_leave_def
        intro: excl_keep[OF ow] excl_gain[OF ow]\<close>)
next
  case (rel_read t s)
  then show ?case by (auto simp: excl_inv_def[of s] intro: excl_keep)
next
  case (rel_write t s)
  then obtain ow where ow: "excl_owner s ow" by (auto simp: excl_inv_def)
  with rel_write have "ow = Some t" using excl_owner_hold[OF ow, of t] by auto
  with ow rel_write show ?case by (auto intro!: excl_drop simp: excl_owner_value)
next
  case (rel_shared t s)
  then obtain ow where ow: "excl_owner s ow" by (auto simp: excl_inv_def)
  with rel_shared have "ow = Some t" using excl_owner_hold[OF ow, of t] by auto
  with ow rel_shared show ?case by (auto intro!: excl_drop simp: excl_owner_value)
next
  case (unboost t s)
  then obtain ow where ow: "excl_owner s ow" by (auto simp: excl_inv_def)
  with unboost have "ow = Some t" using excl_owner_hold[OF ow, of t] by auto
  with ow unboost show ?case by (auto intro!: excl_gain)
next
  case (convert t s)
  then obtain ow where ow: "excl_owner s ow" by (auto simp: excl_inv_def)
  with convert have "ow = Some t" using excl_owner_hold[OF ow, of t] by auto
  with ow convert show ?case by (auto intro!: excl_drop simp: excl_owner_value)
qed
lemma no_writer: "excl_inv s \<Longrightarrow> WRITE_LOCK \<notin> excl_locked (lk s) \<Longrightarrow> th s t \<noteq> HoldWrite"
  using excl_owner_value[of s t] excl_owner_hold[of s _ t] by (force simp: excl_inv_def)

lemma writer_unique:
  "excl_inv s \<Longrightarrow> has_excl (th s t) \<Longrightarrow> has_excl (th s u) \<Longrightarrow> t = u"
  by (auto simp: excl_inv_def excl_owner_def)

lemma finite_readers [simp]: "finite (readers n s)"
  by (simp add: readers_def)

lemma readers_settle:
  "t < n \<Longrightarrow> readers n (settle s t p r) =
     (if p = HoldRead then insert t (readers n s) else readers n s - {t})"
  by (auto simp: readers_def)

lemma card_readers_le: "card (readers n s) \<le> n"
proof -
  have "readers n s \<subseteq> {..<n}" by (auto simp: readers_def)
  then show ?thesis using card_mono[of "{..<n}"] by fastforce
qed

lemma no_readers: "reader_inv n s \<Longrightarrow> readers_reading (lk s) = 0 \<Longrightarrow> th s u \<noteq> HoldRead"
  by (cases "u < n") (auto simp: reader_inv_def readers_def)

lemma unat_byte_Suc: "unat (b :: byte) < 255 \<Longrightarrow> unat (b + 1) = unat b + 1"
  by (simp add: unat_word_ariths)

lemma unat_byte_pred: "b \<noteq> 0 \<Longrightarrow> unat ((b :: byte) - 1) = unat b - 1"
  by (simp add: unat_minus_one)

lemma reader_gain:
  assumes "reader_inv n s" and "n < 256" and "t < n" and "th s t \<noteq> HoldRead"
    and "readers_reading (fst r) = readers_reading (lk s) + 1"
    and "\<And>u. u \<noteq> t \<Longrightarrow> th s u \<noteq> HoldWrite"
  shows "reader_inv n (settle s t HoldRead r)"
proof -
  have new: "card (insert t (readers n s)) = Suc (card (readers n s))"
    using assms(4) by (simp add: readers_def)
  have "card (readers n (settle s t HoldRead r)) \<le> n" by (rule card_readers_le)
  then have "Suc (card (readers n s)) \<le> n"
    using new assms(3) by (simp add: readers_settle)
  with new assms show ?thesis
    by (auto simp: reader_inv_def readers_settle unat_byte_Suc)
qed

lemma reader_drop:
  assumes "reader_inv n s" and "t < n" and "th s t = HoldRead" and "p \<noteq> HoldRead"
    and "p \<noteq> HoldWrite" and "readers_reading (fst r) = readers_reading (lk s) - 1"
  shows "reader_inv n (settle s t p r)"
proof -
  have t: "t \<in> readers n s" using assms(2,3) by (simp add: readers_def)
  then have "card (readers n s) \<noteq> 0" by auto
  then have "readers_reading (lk s) \<noteq> 0"
    using assms(1) by (auto simp: reader_inv_def)
  with t assms show ?thesis
    by (auto simp: reader_inv_def readers_settle unat_byte_pred)
qed

lemma reader_keep:
  assumes "reader_inv n s" and "t < n" and "th s t \<noteq> HoldRead" and "p \<noteq> HoldRead"
    and "readers_reading (fst r) = readers_reading (lk s)"
    and "p = HoldWrite \<Longrightarrow> \<forall>u. th s u \<noteq> HoldRead"
  shows "reader_inv n (settle s t p r)"
proof -
  have "readers n s - {t} = readers n s" using assms(3) by (auto simp: readers_def)
  with assms show ?thesis by (auto simp: reader_inv_def readers_settle)
qed

lemma reader_inv_step:
  "lock_step n s t \<Longrightarrow> n < 256 \<Longrightarrow> excl_inv s \<Longrightarrow> reader_inv n s \<Longrightarrow> reader_inv n t"
proof (induction rule: lock_step.induct)
  case (do_obtain t s h)
  then show ?case
    by (cases h) (auto simp: obtain_step_def no_writer no_readers intro: reader_gain reader_keep)
next
  case (do_boost t s)
  then show ?case by (auto simp: obtain_step_def no_readers intro!: reader_keep)
next
  case (do_wake t s h)
  then show ?case
    by (cases h)
      (auto simp: wake_step_def Obtain_leave_def no_writer no_readers intro: reader_gain reader_keep)
next
  case (convert t s)
  then have "th s u \<noteq> HoldWrite" if "u \<noteq> t" for u
    using writer_unique[of s u t] that by auto
  with convert show ?case by (auto intro!: reader_gain)
qed (auto intro: reader_drop reader_keep)

text \<open>Flags of sleepers that a broadcast on a condition variable wakes.\<close>

fun cv_flags :: "cv option \<Rightarrow> lflag set" where
  "cv_flags (Some read_cv) = {READ_LOCK}"
| "cv_flags (Some write_cv) = EXCL_LOCKS"
| "cv_flags None = {}"

lemma cv_flags_wait: "wait_flag h \<in> cv_flags c \<longleftrightarrow> c = Some (wait_cv h)"
  by (cases h; cases c rule: cv_flags.cases) auto

text \<open>What every release macro does with the waiters.\<close>

definition wakes :: "lock \<Rightarrow> lock \<times> cv option \<Rightarrow> bool" where
  "wakes l r \<longleftrightarrow> wait_states (fst r) = wait_states l - cv_flags (snd r) \<and>
     (wait_states l \<noteq> {} \<longrightarrow> wait_states l \<inter> cv_flags (snd r) \<noteq> {})"

definition clears :: "lock \<Rightarrow> lock \<times> cv option \<Rightarrow> bool" where
  "clears l r \<longleftrightarrow> wait_states (fst r) = wait_states l - cv_flags (snd r)"

lemma wait_nonempty:
  fixes W :: "lflag set"
  assumes "W \<noteq> {}" and "READ_LOCK \<notin> W"
  shows "W \<inter> EXCL_LOCKS \<noteq> {}"
proof -
  from assms(1) obtain f where "f \<in> W" by blast
  with assms(2) show ?thesis by (cases f) auto
qed

lemma release_wakes:
  "wakes l (ReleaseWriteLock l)" "wakes l (ReleaseSharedLock l)" "wakes l (UnboostSharedLock l)"
  "readers_reading l = 1 \<Longrightarrow> wakes l (ReleaseReadLock l)"
  using wait_nonempty[of "wait_states l"]
  by (auto simp: wakes_def ReleaseWriteLock_def ReleaseSharedLock_def UnboostSharedLock_def
      ReleaseReadLock_def Afs_Lock_ReleaseR_def Afs_Lock_ReleaseW_def Let_def)

lemma macro_clears:
  "clears l (ReleaseWriteLock l)" "clears l (ReleaseSharedLock l)" "clears l (UnboostSharedLock l)"
  "clears l (ReleaseReadLock l)" "clears l (ConvertWriteToReadLock l)"
  by (auto simp: clears_def ReleaseWriteLock_def ReleaseSharedLock_def UnboostSharedLock_def
      ReleaseReadLock_def ConvertWriteToReadLock_def Afs_Lock_ReleaseR_def Afs_Lock_ReleaseW_def
      Afs_Lock_WakeupR_def Let_def)

definition flags_inv :: "lsys \<Rightarrow> bool" where
  "flags_inv s \<longleftrightarrow>
     (\<forall>f. f \<in> wait_states (lk s) \<longleftrightarrow> (\<exists>t h. th s t = Wait h False \<and> wait_flag h = f))"

lemma flags_clear:
  assumes "flags_inv s" and "\<And>h. th s t \<noteq> Wait h False" and "\<And>h. p \<noteq> Wait h False"
    and "clears (lk s) r"
  shows "flags_inv (settle s t p r)"
  unfolding flags_inv_def
proof (intro allI)
  fix f
  have "f \<in> wait_states (fst r) \<longleftrightarrow> f \<in> wait_states (lk s) \<and> f \<notin> cv_flags (snd r)"
    using assms(4) by (auto simp: clears_def)
  also have "\<dots> \<longleftrightarrow> (\<exists>u h. th s u = Wait h False \<and> wait_flag h = f \<and> f \<notin> cv_flags (snd r))"
    using assms(1) by (auto simp: flags_inv_def)
  also have "\<dots> \<longleftrightarrow> (\<exists>u h. ((th s)(t := p)) u = Wait h False \<and> wait_flag h = f
                        \<and> snd r \<noteq> Some (wait_cv h))"
    using assms(2,3) cv_flags_wait by (metis fun_upd_apply)
  finally show "f \<in> wait_states (lk (settle s t p r)) \<longleftrightarrow>
      (\<exists>u h. th (settle s t p r) u = Wait h False \<and> wait_flag h = f)"
    by auto
qed

lemma flags_sleep:
  assumes "flags_inv s" and "\<And>h. th s t \<noteq> Wait h False"
    and "wait_states l = insert (wait_flag h) (wait_states (lk s))"
  shows "flags_inv (settle s t (Wait h False) (l, None))"
  using assms unfolding flags_inv_def by (auto split: if_splits) metis

lemma flags_inv_step: "lock_step n s t \<Longrightarrow> flags_inv s \<Longrightarrow> flags_inv t"
proof (induction rule: lock_step.induct)
  case (do_obtain t s h)
  then show ?case
    by (cases h) (auto simp: obtain_step_def clears_def intro!: flags_clear flags_sleep)
next
  case (do_boost t s)
  then show ?case by (auto simp: obtain_step_def clears_def intro!: flags_clear flags_sleep)
next
  case (do_wake t s h)
  then show ?case
    by (cases h) (auto simp: wake_step_def clears_def intro!: flags_clear flags_sleep)
qed (auto intro!: flags_clear macro_clears)

definition boost_inv :: "lsys \<Rightarrow> bool" where
  "boost_inv s \<longleftrightarrow> (\<forall>u. th s u = Wait BoostedHow False \<longrightarrow> readers_reading (lk s) \<noteq> 0)"

lemma boost_reader: "reader_inv n s \<Longrightarrow> th s u = HoldRead \<Longrightarrow> boost_inv s"
  using no_readers by (auto simp: boost_inv_def)

lemma boost_keep:
  assumes "boost_inv s" and "p = Wait BoostedHow False \<Longrightarrow> readers_reading (lk s) \<noteq> 0"
    and "readers_reading (fst r) = readers_reading (lk s)"
  shows "boost_inv (settle s t p r)"
  using assms by (auto simp: boost_inv_def split: if_splits)

lemma boost_inv_step:
  assumes "lock_step n s t" and "flags_inv s" and "boost_inv s" and "reader_inv n t"
  shows "boost_inv t"
  using assms
proof (induction rule: lock_step.induct)
  case (do_obtain t s h)
  then show ?case
    by (cases h)
      (auto simp: obtain_step_def split: if_splits intro: boost_keep boost_reader[of n _ t])
next
  case (do_boost t s)
  then show ?case by (auto simp: obtain_step_def intro!: boost_keep)
next
  case (do_wake t s h)
  then show ?case
    by (cases h)
      (auto simp: wake_step_def Obtain_leave_def split: if_splits
        intro: boost_keep boost_reader[of n _ t])
next
  case (rel_read t s)
  show ?case
    unfolding boost_inv_def
  proof (intro allI impI notI)
    fix u
    assume u: "th (settle s t Idle (ReleaseReadLock (lk s))) u = Wait BoostedHow False"
      and "readers_reading (lk (settle s t Idle (ReleaseReadLock (lk s)))) = 0"
    then have last: "readers_reading (lk s) = 1" by simp
    from u have "th s u = Wait BoostedHow False" by (auto split: if_splits)
    then have "WRITE_LOCK \<in> wait_states (lk s)"
      using rel_read(3) by (auto simp: flags_inv_def intro!: exI[of _ u])
    then have "snd (ReleaseReadLock (lk s)) = Some write_cv"
      using last by (auto simp: ReleaseReadLock_def Afs_Lock_ReleaseW_def Let_def)
    with u show False by simp
  qed
next
  case (convert t s)
  then show ?case by (auto intro: boost_reader[of n _ t])
qed (auto intro!: boost_keep)

definition prog_inv :: "lsys \<Rightarrow> bool" where
  "prog_inv s \<longleftrightarrow> ((\<exists>t h. th s t = Wait h False) \<longrightarrow> (\<exists>t. runnable (th s t)))"

lemma prog_runnable: "runnable p \<Longrightarrow> prog_inv (settle s t p r)"
  unfolding prog_inv_def by (intro impI exI[of _ t]) (simp add: signal_runnable)

lemma prog_other: "runnable (th s u) \<Longrightarrow> u \<noteq> t \<Longrightarrow> prog_inv (settle s t p r)"
  unfolding prog_inv_def by (intro impI exI[of _ u]) (simp add: signal_runnable)

lemma prog_wakes:
  assumes "flags_inv s" and "\<And>h. th s t \<noteq> Wait h False" and "\<And>h. p \<noteq> Wait h False"
    and "wakes (lk s) r"
  shows "prog_inv (settle s t p r)"
  unfolding prog_inv_def
proof
  assume "\<exists>u h. th (settle s t p r) u = Wait h False"
  then obtain u h where "((th s)(t := p)) u = Wait h False" by auto
  with assms(3) have "th s u = Wait h False" by (auto split: if_splits)
  with assms(1) have "wait_states (lk s) \<noteq> {}" by (auto simp: flags_inv_def)
  with assms(4) obtain f where "f \<in> wait_states (lk s)" and c: "f \<in> cv_flags (snd r)"
    by (auto simp: wakes_def)
  then obtain v k where v: "th s v = Wait k False" "wait_flag k = f"
    using assms(1) by (auto simp: flags_inv_def)
  with c have "snd r = Some (wait_cv k)" using cv_flags_wait by blast
  moreover have "v \<noteq> t" using v(1) assms(2) by auto
  ultimately have "runnable (th (settle s t p r) v)" using v(1) by simp
  then show "\<exists>v. runnable (th (settle s t p r) v)" by blast
qed

lemma holder_read: "reader_inv n s \<Longrightarrow> readers_reading (lk s) \<noteq> 0 \<Longrightarrow> \<exists>u. th s u = HoldRead"
proof -
  assume r: "reader_inv n s" and ne: "readers_reading (lk s) \<noteq> 0"
  then have "card (readers n s) \<noteq> 0" by (auto simp: reader_inv_def unat_eq_0)
  then have "readers n s \<noteq> {}" by auto
  then show ?thesis by (auto simp: readers_def)
qed

lemma holder_excl:
  assumes "excl_inv s" and "boost_inv s" and "reader_inv n s" and "excl_locked (lk s) \<noteq> {}"
  shows "\<exists>u. th s u \<in> {HoldRead, HoldWrite, HoldShared, Wait BoostedHow True}"
proof -
  from assms(1) obtain ow where ow: "excl_owner s ow" by (auto simp: excl_inv_def)
  with assms(4) obtain u where "has_excl (th s u)"
    using excl_owner_None[OF ow] by (auto simp: excl_owner_def)
  then consider "th s u = HoldWrite" | "th s u = HoldShared" | "th s u = Wait BoostedHow True"
    | "th s u = Wait BoostedHow False"
    by (cases "th s u" rule: has_excl.cases) auto
  then show ?thesis
  proof cases
    case 4
    with assms(2) have "readers_reading (lk s) \<noteq> 0" by (auto simp: boost_inv_def)
    then show ?thesis using holder_read[OF assms(3)] by auto
  qed auto
qed

lemma prog_busy:
  assumes "excl_inv s" and "boost_inv s" and "reader_inv n s"
    and "readers_reading (lk s) \<noteq> 0 \<or> excl_locked (lk s) \<noteq> {} \<and> th s t \<noteq> Wait BoostedHow True"
    and "th s t = Idle \<or> th s t = HoldShared \<and> readers_reading (lk s) \<noteq> 0 \<or> (\<exists>h. th s t = Wait h True)"
  shows "prog_inv (settle s t p r)"
proof (cases "readers_reading (lk s) = 0")
  case True
  with assms obtain u where "th s u \<in> {HoldRead, HoldWrite, HoldShared, Wait BoostedHow True}"
    using holder_excl by blast
  with True assms(4,5) show ?thesis by (intro prog_other[of s u t]) auto
next
  case False
  then obtain u where "th s u = HoldRead" using holder_read[OF assms(3)] by blast
  with assms(5) show ?thesis by (intro prog_other[of s u t]) auto
qed

lemma prog_inv_step:
  assumes "lock_step n s t" and "excl_inv s" and "reader_inv n s" and "flags_inv s"
    and "boost_inv s" and "prog_inv s"
  shows "prog_inv t"
  using assms
proof (induction rule: lock_step.induct)
  case (do_obtain t s h)
  have busy: "prog_inv (settle s t p r)" if "excl_locked (lk s) \<noteq> {} \<or> readers_reading (lk s) \<noteq> 0" for p r
    using that do_obtain by (intro prog_busy[of s n]) auto
  have wait: "prog_inv (settle s t p r)" if "wait_states (lk s) \<noteq> {}" for p r
  proof -
    from that do_obtain obtain u where "runnable (th s u)"
      by (auto simp: flags_inv_def prog_inv_def)
    then show ?thesis using do_obtain by (auto intro!: prog_other[of s u t])
  qed
  show ?case
  proof (cases "Obtain_free (lk s) h")
    case True
    then show ?thesis by (cases h) (auto simp: obtain_step_def intro: prog_runnable)
  next
    case False
    then have "wait_states (lk s) \<noteq> {} \<or> excl_locked (lk s) \<noteq> {} \<or> readers_reading (lk s) \<noteq> 0"
      using do_obtain(3) by (cases h) auto
    then have "prog_inv (settle s t (Wait h False) (Obtain_enter (lk s) h, None))"
      using busy wait by blast
    then show ?thesis using False by (simp add: obtain_step_def)
  qed
next
  case (do_boost t s)
  then show ?case
    unfolding obtain_step_def by (auto intro: prog_runnable prog_busy)
next
  case (do_wake t s h)
  then show ?case
    unfolding wake_step_def by (cases h) (auto intro: prog_runnable prog_busy)
next
  case (rel_read t s)
  show ?case
  proof (cases "readers_reading (lk s) = 1")
    case True
    with rel_read show ?thesis by (auto intro!: prog_wakes release_wakes)
  next
    case False
    have "unat (readers_reading (lk s)) \<noteq> 1"
      using False by (metis unat_1 word_unat_eq_iff)
    then have "readers n s \<noteq> {t}" using rel_read by (auto simp: reader_inv_def)
    moreover have "t \<in> readers n s" using rel_read by (simp add: readers_def)
    ultimately obtain u where "u \<in> readers n s" and "u \<noteq> t" by blast
    then show ?thesis by (auto simp: readers_def intro!: prog_other[of s u t])
  qed
qed (auto intro: prog_wakes release_wakes prog_runnable)

section \<open>What the lock guarantees\<close>

definition lock_inv :: "nat \<Rightarrow> lsys \<Rightarrow> bool" where
  "lock_inv n s \<longleftrightarrow> excl_inv s \<and> reader_inv n s \<and> flags_inv s \<and> boost_inv s \<and> prog_inv s"

lemma lock_inv_init: "lock_inv n lsys_init"
  by (auto simp: lock_inv_def lsys_init_def Lock_Init_def excl_inv_def excl_owner_def reader_inv_def
      readers_def flags_inv_def boost_inv_def prog_inv_def intro: exI[of _ None])

lemma lock_inv_step: "lock_step n s t \<Longrightarrow> n < 256 \<Longrightarrow> lock_inv n s \<Longrightarrow> lock_inv n t"
  by (meson lock_inv_def excl_inv_step reader_inv_step flags_inv_step boost_inv_step prog_inv_step)

lemma lock_reach_inv: "lock_reach n s \<Longrightarrow> n < 256 \<Longrightarrow> lock_inv n s"
  by (induction rule: lock_reach.induct) (auto intro: lock_inv_init lock_inv_step)






section \<open>Where the guarantees end\<close>

text \<open>\<open>k\<close> threads hold the lock for reading.\<close>

definition reading :: "nat \<Rightarrow> lsys" where
  "reading k = \<lparr>lk = Lock_Init\<lparr>readers_reading := of_nat k\<rparr>, th = (\<lambda>t. if t < k then HoldRead else Idle)\<rparr>"

lemma reach_reading: "k < n \<Longrightarrow> lock_reach n (reading k)"
proof (induction k)
  case 0
  have "reading 0 = lsys_init" by (simp add: reading_def lsys_init_def Lock_Init_def)
  then show ?case by (simp add: lock_reach.init)
next
  case (Suc k)
  have "obtain_step (reading k) k ReadHow = reading (Suc k)"
    by (auto simp: obtain_step_def reading_def Lock_Init_def settle_def fun_eq_iff less_Suc_eq)
  moreover have "lock_step n (reading k) (obtain_step (reading k) k ReadHow)"
    using Suc.prems by (intro do_obtain) (auto simp: reading_def)
  ultimately show ?case using Suc by (auto intro: lock_reach.step)
qed

text \<open>C34: the reader count is one byte: 256 concurrent readers wrap it to zero, and the
  next writer is let in beside all of them.\<close>

theorem lock_reader_count_wraps:
  "\<exists>s. lock_reach 257 s \<and>
       th s = (\<lambda>t. if t < 256 then HoldRead else if t = 256 then HoldWrite else Idle)"
proof -
  let ?s = "reading 256"
  have "lock_reach 257 ?s" by (simp add: reach_reading)
  moreover have "lock_step 257 ?s (obtain_step ?s 256 WriteHow)"
    by (intro do_obtain) (auto simp: reading_def)
  ultimately have "lock_reach 257 (obtain_step ?s 256 WriteHow)" by (rule lock_reach.step)
  moreover have "th (obtain_step ?s 256 WriteHow) =
      (\<lambda>t. if t < 256 then HoldRead else if t = 256 then HoldWrite else Idle)"
    by (auto simp: obtain_step_def reading_def Lock_Init_def fun_eq_iff)
  ultimately show ?thesis by blast
qed

text \<open>
  POSIX lets a condition wait return without a signal.  \<open>lock_reach_sw\<close> adds such
  wake-ups to the steps.
\<close>

inductive lock_reach_sw :: "nat \<Rightarrow> lsys \<Rightarrow> bool" for n :: nat where
  sw_init: "lock_reach_sw n lsys_init"
| sw_step: "lock_reach_sw n s \<Longrightarrow> lock_step n s t \<Longrightarrow> lock_reach_sw n t"
| sw_spurious: "lock_reach_sw n s \<Longrightarrow> t < n \<Longrightarrow> th s t = Wait h False \<Longrightarrow> lock_reach_sw n (wake_step s t h)"

text \<open>C35: if a condition wait may return without a signal, a flag can stay set with nobody
  asleep behind it, a later release then broadcasts to nobody, and a writer sleeps on a
  free lock with no thread left to wake it.\<close>

theorem lock_spurious_wakeup_strands:
  "\<exists>s. lock_reach_sw 4 s \<and> th s 1 = Wait WriteHow False \<and> excl_locked (lk s) = {} \<and>
       readers_reading (lk s) = 0 \<and> (\<forall>u. \<not> runnable (th s u))"
proof -
  define s1 where "s1 = obtain_step lsys_init 0 ReadHow"
  define s2 where "s2 = obtain_step s1 1 WriteHow"
  define s3 where "s3 = obtain_step s2 2 ReadHow"
  define s4 where "s4 = wake_step s3 2 ReadHow"
  define s5 where "s5 = settle s4 2 Idle (ReleaseReadLock (lk s4))"
  define s6 where "s6 = settle s5 0 Idle (ReleaseReadLock (lk s5))"
  define s7 where "s7 = obtain_step s6 3 WriteHow"
  define s8 where "s8 = wake_step s7 1 WriteHow"
  define s9 where "s9 = settle s8 3 Idle (ReleaseWriteLock (lk s8))"
  note defs = s1_def s2_def s3_def s4_def s5_def s6_def s7_def s8_def s9_def
    obtain_step_def wake_step_def settle_def lsys_init_def Lock_Init_def Obtain_enter_def
    Obtain_sleep_def Obtain_leave_def ReleaseReadLock_def ReleaseWriteLock_def
    Afs_Lock_ReleaseR_def Afs_Lock_ReleaseW_def Let_def
  have "lock_reach_sw 4 lsys_init" by (rule sw_init)
  then have "lock_reach_sw 4 s1" unfolding s1_def
    by (rule sw_step) (rule do_obtain, simp_all add: defs)
  then have "lock_reach_sw 4 s2" unfolding s2_def
    by (rule sw_step) (rule do_obtain, simp_all add: defs)
  then have "lock_reach_sw 4 s3" unfolding s3_def
    by (rule sw_step) (rule do_obtain, simp_all add: defs)
  then have "lock_reach_sw 4 s4" unfolding s4_def
    by (rule sw_spurious) (simp_all add: defs)
  then have "lock_reach_sw 4 s5" unfolding s5_def
    by (rule sw_step) (rule rel_read, simp_all add: defs)
  then have "lock_reach_sw 4 s6" unfolding s6_def
    by (rule sw_step) (rule rel_read, simp_all add: defs)
  then have "lock_reach_sw 4 s7" unfolding s7_def
    by (rule sw_step) (rule do_obtain, simp_all add: defs)
  then have "lock_reach_sw 4 s8" unfolding s8_def
    by (rule sw_step) (rule do_wake, simp_all add: defs)
  then have "lock_reach_sw 4 s9" unfolding s9_def
    by (rule sw_step) (rule rel_write, simp_all add: defs)
  moreover have "th s9 1 = Wait WriteHow False" "excl_locked (lk s9) = {}"
    "readers_reading (lk s9) = 0" "\<forall>u. \<not> runnable (th s9 u)"
    by (simp_all add: defs)
  ultimately show ?thesis by blast
qed

end
