(* ===== verification/Ubik_Phys.thy ===== *)
theory Ubik_Phys
  imports Prelude
begin

text \<open>
  The physical I/O layer of Ubik (\<^verbatim>\<open>src/src/ubik/phys.c\<close>): the database files and the
  log file of one database, each with a header of \<^verbatim>\<open>HDRSIZE\<close> bytes, and the stdio
  stream that buffers appends to the log.

  \<open>files\<close> is what the operating system shows, \<open>stable\<close> what the last \<^verbatim>\<open>fsync\<close> of each
  file has put on the medium, \<open>buf_stream\<close> the cached append stream with the bytes it
  still holds in memory (\<^verbatim>\<open>buf_fdcache\<close>).  A file is created by \<^verbatim>\<open>O_CREAT\<close> on first
  use, so every file number has contents.  Every system call may fail: the list
  \<open>faults\<close> says, call by call, which do; the empty list means no more failures.
  The table of open descriptors is not part of the model: it does not change
  what is read or written.
\<close>

section \<open>Error codes, versions, transaction ids\<close>

datatype uerror =
  UNOQUORUM | UNOTSYNC | UNHOSTS | UIOERROR | UINTERNAL | USYNC | UNOENT | UBADLOG
| UBADLOCK | UBADHOST | UBADTYPE | UTWOENDS | UDONE | UEOF | UNOMEM | UDEADLOCK | BULK_ERROR
| EIO | EINVAL | EAGAIN | ESYSCALL | ECODE int

text \<open>
  What an operation returns: 0, an error code, not at all (\<^verbatim>\<open>panic\<close>, \<^verbatim>\<open>abort\<close>), or
  not yet, since the thread sleeps on a lock.  \<open>ECODE\<close> is any other nonzero code, such
  as the failure of a remote call.
\<close>

datatype ucode = UOK | UERR uerror | UPANIC | UBLOCKED

record ubik_version =
  epoch :: int
  counter :: int

record ubik_tid =
  tepoch :: int
  tcounter :: int

abbreviation HDRSIZE :: int where "HDRSIZE \<equiv> 64"
abbreviation LOGFILE :: int where "LOGFILE \<equiv> - 1"
abbreviation UBIK_MAGIC :: int where "UBIK_MAGIC \<equiv> 0x354545"

section \<open>State\<close>

record phys =
  files :: "int \<Rightarrow> byte list"
  stable :: "int \<Rightarrow> byte list"
  buf_stream :: "(int \<times> byte list) option"
  faults :: "bool list"

text \<open>Is the buffered stream open on this file?\<close>

definition stream_on :: "phys \<Rightarrow> int \<Rightarrow> bool" where
  "stream_on p afid = (case buf_stream p of Some (f, _) \<Rightarrow> f = afid | None \<Rightarrow> False)"

lemma stream_on_iff [simp]: "stream_on p afid \<longleftrightarrow> (\<exists>bs. buf_stream p = Some (afid, bs))"
  by (auto simp: stream_on_def split: option.splits)

definition io_step :: "phys \<Rightarrow> bool \<times> phys" where
  "io_step p = (case faults p of [] \<Rightarrow> (False, p) | b # bs \<Rightarrow> (b, p\<lparr>faults := bs\<rparr>))"

definition set_file :: "phys \<Rightarrow> int \<Rightarrow> byte list \<Rightarrow> phys" where
  "set_file p f c = p\<lparr>files := (files p)(f := c)\<rparr>"

definition fsync :: "phys \<Rightarrow> int \<Rightarrow> phys" where
  "fsync p f = p\<lparr>stable := (stable p)(f := files p f)\<rparr>"

section \<open>Operations\<close>

text \<open>The bytes read come with the return value: their number, or -1.\<close>

definition uphys_read :: "phys \<Rightarrow> int \<Rightarrow> int \<Rightarrow> nat \<Rightarrow> int \<times> byte list \<times> phys" where
  "uphys_read p afile apos alength =
     (let (bad, p1) = io_step p in
      if bad \<or> apos + HDRSIZE < 0 then (- 1, [], p1)
      else let bs = pread (files p1 afile) (nat (apos + HDRSIZE)) alength
           in (int (length bs), bs, p1))"

definition uphys_write :: "phys \<Rightarrow> int \<Rightarrow> byte list \<Rightarrow> int \<Rightarrow> int \<times> phys" where
  "uphys_write p afile abuffer apos =
     (let (bad, p1) = io_step p in
      if bad \<or> apos + HDRSIZE < 0 then (- 1, p1)
      else (int (length abuffer),
            set_file p1 afile (pwrite (files p1 afile) (nat (apos + HDRSIZE)) abuffer)))"

definition uphys_stat :: "phys \<Rightarrow> int \<Rightarrow> ucode \<times> int \<times> phys" where
  "uphys_stat p afid =
     (let (bad, p1) = io_step p in
      if bad then (UERR ESYSCALL, 0, p1)
      else let code = int (length (files p1 afid)) - HDRSIZE
           in (UOK, if code < 0 then 0 else code, p1))"

text \<open>Appending is buffered in memory until the stream is flushed or closed.\<close>

definition stream_flush :: "phys \<Rightarrow> phys" where
  "stream_flush p =
     (case buf_stream p of
        None \<Rightarrow> p
      | Some (f, bs) \<Rightarrow> (set_file p f (files p f @ bs))\<lparr>buf_stream := Some (f, [])\<rparr>)"

definition uphys_buf_append_open :: "phys \<Rightarrow> int \<Rightarrow> bool \<times> phys" where
  "uphys_buf_append_open p afid =
     (if stream_on p afid then (True, p)
      else let (bad, p1) = io_step (stream_flush p)
           in if bad then (False, p1\<lparr>buf_stream := None\<rparr>)
              else (True, p1\<lparr>buf_stream := Some (afid, [])\<rparr>))"

definition uphys_buf_flush :: "phys \<Rightarrow> int \<Rightarrow> int \<times> phys" where
  "uphys_buf_flush p afid =
     (if stream_on p afid
      then let (bad, p1) = io_step p in if bad then (- 1, p1) else (0, stream_flush p1)
      else (0, p))"

text \<open>\<^verbatim>\<open>fwrite(adata, alength, 1, stream)\<close> reports no item written when \<open>alength\<close> is 0.\<close>

definition uphys_buf_append :: "phys \<Rightarrow> int \<Rightarrow> byte list \<Rightarrow> int \<times> phys" where
  "uphys_buf_append p afid adata =
     (let (ok, p1) = uphys_buf_append_open p afid in
      if \<not> ok then (- 1, p1)
      else let (bad, p2) = io_step p1 in
        if bad \<or> adata = [] then (- 1, p2)
        else case buf_stream p2 of
               None \<Rightarrow> (- 1, p2)
             | Some (f, bs) \<Rightarrow> (int (length adata), p2\<lparr>buf_stream := Some (f, bs @ adata)\<rparr>))"

definition uphys_truncate :: "phys \<Rightarrow> int \<Rightarrow> int \<Rightarrow> ucode \<times> phys" where
  "uphys_truncate p afile asize =
     (let (code, p1) = uphys_buf_flush p afile in
      if code < 0 then (UERR UIOERROR, p1)
      else let (bad, p2) = io_step p1 in
        if bad then (UERR ESYSCALL, p2)
        else (UOK, set_file p2 afile (ftruncate (files p2 afile) (nat (asize + HDRSIZE)))))"

definition uphys_sync :: "phys \<Rightarrow> int \<Rightarrow> ucode \<times> phys" where
  "uphys_sync p afile =
     (let (code, p1) = uphys_buf_flush p afile in
      if code < 0 then (UERR ESYSCALL, p1)
      else let (bad, p2) = io_step p1 in
        if bad then (UERR ESYSCALL, p2) else (UOK, fsync p2 afile))"

text \<open>The header: magic, padding, header size, and the version label.\<close>

definition hdr_bytes :: "ubik_version \<Rightarrow> byte list" where
  "hdr_bytes v = htonl_bytes UBIK_MAGIC @ [0, 0] @ [0, 64] @ htonl_bytes (epoch v)
                 @ htonl_bytes (counter v)"

definition uphys_setlabel :: "phys \<Rightarrow> int \<Rightarrow> ubik_version \<Rightarrow> ucode \<times> phys" where
  "uphys_setlabel p afile v =
     (let (bad, p1) = io_step p;
          p2 = (if bad then p1 else set_file p1 afile (pwrite (files p1 afile) 0 (hdr_bytes v)));
          (bad2, p3) = io_step p2;
          p4 = (if bad2 then p3 else fsync p3 afile)
      in (if bad then UERR EIO else UOK, p4))"

definition uphys_getlabel :: "phys \<Rightarrow> int \<Rightarrow> ucode \<times> ubik_version \<times> phys" where
  "uphys_getlabel p afile =
     (let (bad, p1) = io_step p; bs = pread (files p1 afile) 0 16 in
      if bad \<or> length bs \<noteq> 16 then (UERR EIO, \<lparr>epoch = 0, counter = 0\<rparr>, p1)
      else (UOK, \<lparr>epoch = ntohl_bytes (take 4 (drop 8 bs)),
                  counter = ntohl_bytes (take 4 (drop 12 bs))\<rparr>, p1))"

end
