(* ===== verification/Ubik_Cache.thy ===== *)
theory Ubik_Cache
  imports Ubik_Phys
begin

text \<open>
  The page cache of Ubik's disk module (\<^verbatim>\<open>src/src/ubik/disk.c\<close>, the \<^verbatim>\<open>D...\<close> routines):
  a fixed array of page buffers, a ring of them in LRU order, and a hash table of
  chains keyed by page number.

  A buffer is named by its index in the array.  The ring is the list of indices that
  starts at \<^verbatim>\<open>LruBuffer\<close>; its last element is \<^verbatim>\<open>LruBuffer->lru_prev\<close>.  A hash chain is
  the list of the indices on it.  A server has one database, so the \<^verbatim>\<open>dbase\<close> pointer
  of a buffer carries no information and is left out.
\<close>

section \<open>State\<close>

datatype trtype = UBIK_READTRANS | UBIK_WRITETRANS

abbreviation UBIK_PAGESIZE :: nat where "UBIK_PAGESIZE \<equiv> 1024"
abbreviation PHSIZE :: nat where "PHSIZE \<equiv> 128"
abbreviation BADFID :: int where "BADFID \<equiv> - 1"

record buffer =
  bfile :: int
  bpage :: int
  bdata :: "byte list"
  lockers :: int
  dirty :: bool
  hashIndex :: nat

record cache =
  Buffers :: "buffer list"
  lru :: "nat list"
  phTable :: "nat \<Rightarrow> nat list"

definition pHash :: "int \<Rightarrow> nat" where
  "pHash page = nat (page mod int PHSIZE)"

definition upd_buf :: "cache \<Rightarrow> nat \<Rightarrow> (buffer \<Rightarrow> buffer) \<Rightarrow> cache" where
  "upd_buf c i f = c\<lparr>Buffers := (Buffers c)[i := f (Buffers c ! i)]\<rparr>"

definition udisk_Init :: "nat \<Rightarrow> cache" where
  "udisk_Init abuffers =
     \<lparr>Buffers = replicate abuffers
        \<lparr>bfile = BADFID, bpage = 0, bdata = replicate UBIK_PAGESIZE 0, lockers = 0,
         dirty = False, hashIndex = 0\<rparr>,
      lru = [0..<abuffers], phTable = (\<lambda>_. [])\<rparr>"

section \<open>The LRU ring and the hash table\<close>

definition Dlru :: "cache \<Rightarrow> nat \<Rightarrow> cache" where
  "Dlru c i = (if hd (lru c) = i then c else c\<lparr>lru := move_front i (lru c)\<rparr>)"

definition Dmru :: "cache \<Rightarrow> nat \<Rightarrow> cache" where
  "Dmru c i = (if hd (lru c) = i then c\<lparr>lru := rotate1 (lru c)\<rparr>
               else c\<lparr>lru := move_back i (lru c)\<rparr>)"

definition FixupBucket :: "cache \<Rightarrow> nat \<Rightarrow> cache" where
  "FixupBucket c i =
     (let old = hashIndex (Buffers c ! i);
          tab = (phTable c)(old := remove1 i (phTable c old));
          new = pHash (bpage (Buffers c ! i))
      in (upd_buf c i (\<lambda>b. b\<lparr>hashIndex := new\<rparr>))\<lparr>phTable := tab(new := i # tab new)\<rparr>)"

definition newslot :: "cache \<Rightarrow> int \<Rightarrow> int \<Rightarrow> nat option \<times> cache" where
  "newslot c afid apage =
     (case List.find (\<lambda>i. lockers (Buffers c ! i) = 0 \<and> \<not> dirty (Buffers c ! i)) (lru c) of
        None \<Rightarrow> (None, c)
      | Some i \<Rightarrow>
          let c1 = upd_buf c i (\<lambda>b. b\<lparr>bfile := afid, bpage := apage\<rparr>)
          in (Some i, Dmru (FixupBucket c1 i) i))"

definition invalidate_buf :: "cache \<Rightarrow> nat \<Rightarrow> cache" where
  "invalidate_buf c i = Dlru (upd_buf c i (\<lambda>b. b\<lparr>bfile := BADFID\<rparr>)) i"

section \<open>Reading and releasing pages\<close>

definition MatchBuffer :: "buffer \<Rightarrow> int \<Rightarrow> int \<Rightarrow> trtype \<Rightarrow> bool" where
  "MatchBuffer b page fid ty \<longleftrightarrow>
     bpage b = page \<and> bfile b = fid \<and> \<not> (ty = UBIK_READTRANS \<and> dirty b)"

fun DRead_scan :: "cache \<Rightarrow> trtype \<Rightarrow> int \<Rightarrow> int \<Rightarrow> nat option \<Rightarrow> nat list \<Rightarrow> nat option" where
  "DRead_scan c ty fid page found [] = found"
| "DRead_scan c ty fid page found (i # is) =
     (if MatchBuffer (Buffers c ! i) page fid ty
      then if dirty (Buffers c ! i) \<or> ty = UBIK_READTRANS then Some i
           else DRead_scan c ty fid page (Some i) is
      else DRead_scan c ty fid page found is)"

definition lock_buf :: "cache \<Rightarrow> nat \<Rightarrow> cache" where
  "lock_buf c i = upd_buf c i (\<lambda>b. b\<lparr>lockers := lockers b + 1\<rparr>)"

definition clear_buf :: "cache \<Rightarrow> nat \<Rightarrow> cache" where
  "clear_buf c i = upd_buf c i (\<lambda>b. b\<lparr>bdata := replicate UBIK_PAGESIZE 0\<rparr>)"

definition DRead :: "phys \<Rightarrow> cache \<Rightarrow> trtype \<Rightarrow> int \<Rightarrow> int \<Rightarrow> nat option \<times> phys \<times> cache" where
  "DRead p c ty fid page =
     (let lastb = last (lru c) in
      if MatchBuffer (Buffers c ! lastb) page fid ty
         \<and> (ty = UBIK_READTRANS \<or> dirty (Buffers c ! lastb))
      then (Some lastb, p, lock_buf c lastb)
      else case DRead_scan c ty fid page None (phTable c (pHash page)) of
        Some i \<Rightarrow> (Some i, p, lock_buf (Dmru c i) i)
      | None \<Rightarrow>
          (case newslot c fid page of
             (None, c1) \<Rightarrow> (None, p, c1)
           | (Some i, c1) \<Rightarrow>
               let c2 = lock_buf (clear_buf c1 i) i;
                   (code, bs, p1) = uphys_read p fid (page * int UBIK_PAGESIZE) UBIK_PAGESIZE
               in if code < 0
                  then (None, p1, upd_buf (invalidate_buf c2 i) i (\<lambda>b. b\<lparr>lockers := lockers b - 1\<rparr>))
                  else (Some i, p1, upd_buf c2 i (\<lambda>b. b\<lparr>bdata := pwrite (bdata b) 0 bs\<rparr>))))"

definition DNew :: "cache \<Rightarrow> int \<Rightarrow> int \<Rightarrow> nat option \<times> cache" where
  "DNew c fid page =
     (case newslot c fid page of
        (None, c1) \<Rightarrow> (None, c1)
      | (Some i, c1) \<Rightarrow> (Some i, clear_buf (lock_buf c1 i) i))"

definition DRelease :: "cache \<Rightarrow> nat \<Rightarrow> bool \<Rightarrow> cache" where
  "DRelease c i flag =
     upd_buf c i (\<lambda>b. b\<lparr>lockers := lockers b - 1, dirty := dirty b \<or> flag\<rparr>)"

section \<open>Discarding and flushing pages\<close>

definition buf_ids :: "cache \<Rightarrow> nat list" where
  "buf_ids c = [0..<length (Buffers c)]"

definition DTrunc :: "cache \<Rightarrow> int \<Rightarrow> int \<Rightarrow> cache" where
  "DTrunc c fid len =
     (let maxPage = (len + int UBIK_PAGESIZE - 1) div int UBIK_PAGESIZE in
      fold (\<lambda>i c. if maxPage \<le> bpage (Buffers c ! i) \<and> bfile (Buffers c ! i) = fid
                  then invalidate_buf c i else c) (buf_ids c) c)"

definition udisk_Invalidate :: "cache \<Rightarrow> int \<Rightarrow> cache" where
  "udisk_Invalidate c afid =
     fold (\<lambda>i c. if bfile (Buffers c ! i) = afid then invalidate_buf c i else c) (buf_ids c) c"

definition DAbort :: "cache \<Rightarrow> cache" where
  "DAbort c =
     fold (\<lambda>i c. if dirty (Buffers c ! i)
                 then invalidate_buf (upd_buf c i (\<lambda>b. b\<lparr>dirty := False\<rparr>)) i else c)
       (buf_ids c) c"

fun DFlush_loop :: "phys \<Rightarrow> buffer list \<Rightarrow> ucode \<times> phys" where
  "DFlush_loop p [] = (UOK, p)"
| "DFlush_loop p (b # bs) =
     (if dirty b
      then let (code, p1) = uphys_write p (bfile b) (bdata b) (bpage b * int UBIK_PAGESIZE)
           in if code \<noteq> int UBIK_PAGESIZE then (UERR UIOERROR, p1) else DFlush_loop p1 bs
      else DFlush_loop p bs)"

definition DFlush :: "phys \<Rightarrow> cache \<Rightarrow> ucode \<times> phys" where
  "DFlush p c = DFlush_loop p (Buffers c)"

definition DedupBuffer :: "cache \<Rightarrow> nat \<Rightarrow> cache" where
  "DedupBuffer c i =
     fold (\<lambda>j c. if bpage (Buffers c ! j) = bpage (Buffers c ! i) \<and> j \<noteq> i
                    \<and> bfile (Buffers c ! j) = bfile (Buffers c ! i)
                 then invalidate_buf c j else c)
       (phTable c (pHash (bpage (Buffers c ! i)))) c"

text \<open>One round of \<^verbatim>\<open>DSync\<close>: clean the dirty pages of the first file that has one.\<close>

definition DSync_visit :: "nat \<Rightarrow> cache \<times> int \<Rightarrow> cache \<times> int" where
  "DSync_visit i = (\<lambda>(c, file).
     if dirty (Buffers c ! i)
     then let file' = (if file = BADFID then bfile (Buffers c ! i) else file) in
          if file' \<noteq> BADFID \<and> bfile (Buffers c ! i) = file'
          then (DedupBuffer (upd_buf c i (\<lambda>b. b\<lparr>dirty := False\<rparr>)) i, file')
          else (c, file')
     else (c, file))"

definition DSync_round :: "cache \<Rightarrow> cache \<times> int" where
  "DSync_round c = fold DSync_visit (buf_ids c) (c, BADFID)"

definition ndirty :: "cache \<Rightarrow> nat" where
  "ndirty c = length (filter dirty (Buffers c))"

section \<open>What the operations leave alone\<close>

lemma upd_buf_sel [simp]:
  "length (Buffers (upd_buf c i f)) = length (Buffers c)"
  "lru (upd_buf c i f) = lru c"
  "phTable (upd_buf c i f) = phTable c"
  "buf_ids (upd_buf c i f) = buf_ids c"
  by (simp_all add: upd_buf_def buf_ids_def)

lemma nth_upd_buf:
  "Buffers (upd_buf c i f) ! j =
     (if i = j \<and> j < length (Buffers c) then f (Buffers c ! j) else Buffers c ! j)"
  by (cases "i = j") (auto simp: upd_buf_def list_update_beyond)

lemma Dlru_sel [simp]: "Buffers (Dlru c i) = Buffers c" "phTable (Dlru c i) = phTable c"
  by (simp_all add: Dlru_def)

lemma Dmru_sel [simp]: "Buffers (Dmru c i) = Buffers c" "phTable (Dmru c i) = phTable c"
  by (simp_all add: Dmru_def)

lemma invalidate_sel [simp]:
  "length (Buffers (invalidate_buf c i)) = length (Buffers c)"
  "phTable (invalidate_buf c i) = phTable c"
  "buf_ids (invalidate_buf c i) = buf_ids c"
  by (simp_all add: invalidate_buf_def buf_ids_def)

lemma nth_invalidate:
  "Buffers (invalidate_buf c i) ! j =
     (if i = j \<and> j < length (Buffers c) then (Buffers c ! j)\<lparr>bfile := BADFID\<rparr> else Buffers c ! j)"
  by (auto simp: invalidate_buf_def nth_upd_buf)

section \<open>DSync ends\<close>

definition dirties :: "cache \<Rightarrow> bool list" where
  "dirties c = map dirty (Buffers c)"

lemma ndirty_dirties: "ndirty c = length (filter id (dirties c))"
  by (simp add: ndirty_def dirties_def filter_map o_def)

lemma dirties_invalidate [simp]: "dirties (invalidate_buf c i) = dirties c"
  by (rule nth_equalityI) (auto simp: dirties_def nth_invalidate)

lemma dirties_clean: "dirties (upd_buf c i (\<lambda>b. b\<lparr>dirty := False\<rparr>)) = (dirties c)[i := False]"
  by (rule nth_equalityI) (auto simp: dirties_def nth_upd_buf nth_list_update)

lemma fold_cache_inv:
  assumes "P c" and "\<And>i c. P c \<Longrightarrow> P (f i c)"
  shows "P (fold f is c)"
  using assms(1) by (induction "is" arbitrary: c) (auto intro: assms(2))

lemma dirties_Dedup [simp]: "dirties (DedupBuffer c i) = dirties c"
  unfolding DedupBuffer_def
  by (rule fold_cache_inv[where P = "\<lambda>c'. dirties c' = dirties c"]) auto

lemma length_Dedup [simp]: "length (Buffers (DedupBuffer c i)) = length (Buffers c)"
  using arg_cong[OF dirties_Dedup, of length] by (simp add: dirties_def)

lemma filter_clear_less:
  "i < length xs \<Longrightarrow> xs ! i \<Longrightarrow> length (filter id (xs[i := False])) < length (filter id xs)"
proof (induction xs arbitrary: i)
  case (Cons a xs)
  then show ?case by (cases i) auto
qed simp

lemma filter_clear_le: "length (filter id (xs[i := False])) \<le> length (filter id xs)"
  by (induction xs arbitrary: i) (auto split: nat.splits)

lemma DSync_visit_dirty:
  assumes "DSync_visit i (c, fl) = (c', fl')" and "i < length (Buffers c)"
  shows "length (Buffers c') = length (Buffers c)" and "ndirty c' \<le> ndirty c"
    and "fl = BADFID \<Longrightarrow> fl' \<noteq> BADFID \<Longrightarrow> ndirty c' < ndirty c"
  using assms filter_clear_less[of i "dirties c"]
  by (auto simp: DSync_visit_def ndirty_dirties dirties_clean Let_def filter_clear_le
      split: if_splits) (auto simp: dirties_def)

lemma DSync_fold_dirty:
  assumes "fold DSync_visit is (c, fl) = (c', fl')" and "set is \<subseteq> {..<length (Buffers c)}"
  shows "length (Buffers c') = length (Buffers c) \<and> ndirty c' \<le> ndirty c \<and>
    (fl = BADFID \<longrightarrow> fl' \<noteq> BADFID \<longrightarrow> ndirty c' < ndirty c)"
  using assms
proof (induction "is" arbitrary: c fl)
  case Nil
  then show ?case by simp
next
  case (Cons i "is")
  obtain c1 f1 where v: "DSync_visit i (c, fl) = (c1, f1)" by fastforce
  from Cons.prems(2) have i: "i < length (Buffers c)" by simp
  note one = DSync_visit_dirty[OF v i]
  have rest: "fold DSync_visit is (c1, f1) = (c', fl')" using Cons.prems(1) v by simp
  have "set is \<subseteq> {..<length (Buffers c1)}" using Cons.prems(2) one(1) by simp
  from Cons.IH[OF rest this] one show ?case by fastforce
qed

lemma DSync_round_less: "DSync_round c = (c', fl) \<Longrightarrow> fl \<noteq> BADFID \<Longrightarrow> ndirty c' < ndirty c"
  using DSync_fold_dirty[of "buf_ids c" c BADFID c' fl]
  by (auto simp: DSync_round_def buf_ids_def atLeast0LessThan)

function DSync_loop :: "phys \<Rightarrow> cache \<Rightarrow> ucode \<Rightarrow> ucode \<times> phys \<times> cache" where
  "DSync_loop p c rCode =
     (let (c1, fl) = DSync_round c in
      if fl = BADFID then (rCode, p, c1)
      else let (code, p1) = uphys_sync p fl
           in DSync_loop p1 c1 (if code \<noteq> UOK then code else rCode))"
  by pat_completeness auto
termination
  by (relation "measure (\<lambda>(p, c, r). ndirty c)") (auto intro: DSync_round_less[OF sym])

declare DSync_loop.simps [simp del]

definition DSync :: "phys \<Rightarrow> cache \<Rightarrow> ucode \<times> phys \<times> cache" where
  "DSync p c = DSync_loop p c UOK"

section \<open>The structure of the cache\<close>

definition ring_ok :: "cache \<Rightarrow> bool" where
  "ring_ok c \<longleftrightarrow> distinct (lru c) \<and> set (lru c) = {..<length (Buffers c)} \<and> Buffers c \<noteq> []"

definition chain_ok :: "cache \<Rightarrow> bool" where
  "chain_ok c \<longleftrightarrow>
     (\<forall>h. distinct (phTable c h)) \<and>
     (\<forall>h i. i \<in> set (phTable c h) \<longrightarrow> i < length (Buffers c) \<and> hashIndex (Buffers c ! i) = h) \<and>
     (\<forall>i < length (Buffers c). bfile (Buffers c ! i) \<noteq> BADFID \<longrightarrow>
        i \<in> set (phTable c (pHash (bpage (Buffers c ! i)))))"

definition dirty_ok :: "cache \<Rightarrow> bool" where
  "dirty_ok c \<longleftrightarrow>
     (\<forall>i < length (Buffers c). \<forall>j < length (Buffers c).
        dirty (Buffers c ! i) \<longrightarrow> dirty (Buffers c ! j) \<longrightarrow>
        bfile (Buffers c ! i) = bfile (Buffers c ! j) \<longrightarrow>
        bpage (Buffers c ! i) = bpage (Buffers c ! j) \<longrightarrow> i = j)"

definition buf_ok :: "buffer \<Rightarrow> bool" where
  "buf_ok b \<longleftrightarrow> length (bdata b) = UBIK_PAGESIZE \<and>
     (bfile b \<noteq> BADFID \<longrightarrow> 0 \<le> bfile b \<and> 0 \<le> bpage b) \<and> (dirty b \<longrightarrow> bfile b \<noteq> BADFID)"

definition struct_ok :: "cache \<Rightarrow> bool" where
  "struct_ok c \<longleftrightarrow> ring_ok c \<and> chain_ok c \<and> dirty_ok c \<and> (\<forall>b \<in> set (Buffers c). buf_ok b)"

lemma struct_ok_Init: "n > 0 \<Longrightarrow> struct_ok (udisk_Init n)"
  by (auto simp: struct_ok_def ring_ok_def chain_ok_def dirty_ok_def buf_ok_def udisk_Init_def)

lemma buf_ok_nth: "struct_ok c \<Longrightarrow> i < length (Buffers c) \<Longrightarrow> buf_ok (Buffers c ! i)"
  by (simp add: struct_ok_def)

lemma ring_ok_upd [simp]: "ring_ok (upd_buf c i f) = ring_ok c"
  by (auto simp: ring_ok_def upd_buf_def)

lemma ring_ok_Dlru: "ring_ok c \<Longrightarrow> i < length (Buffers c) \<Longrightarrow> ring_ok (Dlru c i)"
  by (auto simp: ring_ok_def Dlru_def)

lemma ring_ok_Dmru: "ring_ok c \<Longrightarrow> i < length (Buffers c) \<Longrightarrow> ring_ok (Dmru c i)"
  by (auto simp: ring_ok_def Dmru_def)

text \<open>The structure does not depend on the order of the ring.\<close>

lemma struct_ok_lru:
  assumes "struct_ok c" and "ring_ok c'" and "Buffers c' = Buffers c" and "phTable c' = phTable c"
  shows "struct_ok c'"
  using assms by (simp add: struct_ok_def chain_ok_def dirty_ok_def)

lemma struct_ok_Dlru: "struct_ok c \<Longrightarrow> i < length (Buffers c) \<Longrightarrow> struct_ok (Dlru c i)"
  by (rule struct_ok_lru) (auto simp: struct_ok_def intro: ring_ok_Dlru)

lemma struct_ok_Dmru: "struct_ok c \<Longrightarrow> i < length (Buffers c) \<Longrightarrow> struct_ok (Dmru c i)"
  by (rule struct_ok_lru) (auto simp: struct_ok_def intro: ring_ok_Dmru)

text \<open>Changing one buffer without moving it to another page.\<close>

lemma struct_ok_upd:
  assumes s: "struct_ok c" and i: "i < length (Buffers c)" and ok: "buf_ok (f (Buffers c ! i))"
    and same: "hashIndex (f (Buffers c ! i)) = hashIndex (Buffers c ! i)"
    and key: "bfile (f (Buffers c ! i)) = BADFID \<or>
      bfile (f (Buffers c ! i)) = bfile (Buffers c ! i) \<and> bpage (f (Buffers c ! i)) = bpage (Buffers c ! i)"
    and dirt: "dirty (f (Buffers c ! i)) \<Longrightarrow> \<not> dirty (Buffers c ! i) \<Longrightarrow>
      \<forall>j < length (Buffers c). dirty (Buffers c ! j) \<longrightarrow> bfile (Buffers c ! j) = bfile (Buffers c ! i)
        \<longrightarrow> bpage (Buffers c ! j) \<noteq> bpage (Buffers c ! i)"
  shows "struct_ok (upd_buf c i f)"
proof -
  have "chain_ok (upd_buf c i f)"
    using s i same key by (auto simp: struct_ok_def chain_ok_def nth_upd_buf)
  moreover have "dirty_ok (upd_buf c i f)"
    unfolding dirty_ok_def
  proof (intro allI impI)
    fix j k
    assume *: "j < length (Buffers (upd_buf c i f))" "k < length (Buffers (upd_buf c i f))"
      "dirty (Buffers (upd_buf c i f) ! j)" "dirty (Buffers (upd_buf c i f) ! k)"
      "bfile (Buffers (upd_buf c i f) ! j) = bfile (Buffers (upd_buf c i f) ! k)"
      "bpage (Buffers (upd_buf c i f) ! j) = bpage (Buffers (upd_buf c i f) ! k)"
    have d: "\<forall>i < length (Buffers c). \<forall>j < length (Buffers c).
        dirty (Buffers c ! i) \<longrightarrow> dirty (Buffers c ! j) \<longrightarrow>
        bfile (Buffers c ! i) = bfile (Buffers c ! j) \<longrightarrow>
        bpage (Buffers c ! i) = bpage (Buffers c ! j) \<longrightarrow> i = j"
      using s by (simp add: struct_ok_def dirty_ok_def)
    show "j = k"
    proof (cases "dirty (f (Buffers c ! i)) \<and> bfile (f (Buffers c ! i)) \<noteq> BADFID")
      case True
      then have "bfile (f (Buffers c ! i)) = bfile (Buffers c ! i)"
        "bpage (f (Buffers c ! i)) = bpage (Buffers c ! i)" using key by auto
      then show ?thesis
        using * d dirt True i by (cases "dirty (Buffers c ! i)") (auto simp: nth_upd_buf split: if_splits)
    next
      case False
      then have "\<not> dirty (f (Buffers c ! i))" using ok by (auto simp: buf_ok_def)
      then show ?thesis using * d by (auto simp: nth_upd_buf split: if_splits)
    qed
  qed
  moreover have "\<forall>b \<in> set (Buffers (upd_buf c i f)). buf_ok b"
    using s ok unfolding struct_ok_def upd_buf_def
    by (auto dest: set_update_subset_insert[THEN subsetD])
  moreover have "ring_ok (upd_buf c i f)" using s by (simp add: struct_ok_def)
  ultimately show ?thesis by (simp add: struct_ok_def)
qed

lemma struct_ok_invalidate:
  "struct_ok c \<Longrightarrow> i < length (Buffers c) \<Longrightarrow> \<not> dirty (Buffers c ! i) \<Longrightarrow> struct_ok (invalidate_buf c i)"
  unfolding invalidate_buf_def
  by (intro struct_ok_Dlru struct_ok_upd) (auto simp: struct_ok_def buf_ok_def)

lemma find_Some_in: "List.find P xs = Some x \<Longrightarrow> x \<in> set xs \<and> P x"
  by (auto simp: find_Some_iff)

lemma newslot_None: "newslot c f pg = (None, c1) \<Longrightarrow> c1 = c"
  by (auto simp: newslot_def Let_def split: option.splits)

lemma newslot_buffers:
  assumes "newslot c f pg = (Some i, c1)"
  shows "\<not> dirty (Buffers c ! i)" and "i \<in> set (lru c)"
    and "Buffers c1 = (Buffers c)[i := (Buffers c ! i)\<lparr>bfile := f, bpage := pg, hashIndex := pHash pg\<rparr>]"
  using assms
  by (auto simp: newslot_def Let_def FixupBucket_def upd_buf_def split: option.splits dest: find_Some_in)
   (cases "i < length (Buffers c)"; simp add: list_update_beyond)

lemma FixupBucket_table:
  assumes "\<forall>h. distinct (phTable c h)"
    and "\<forall>h j. j \<in> set (phTable c h) \<longrightarrow> hashIndex (Buffers c ! j) = h"
  shows "set (phTable (FixupBucket c i) h) = set (phTable c h) - {i} \<union>
      (if h = pHash (bpage (Buffers c ! i)) then {i} else {})"
    and "distinct (phTable (FixupBucket c i) h)"
  using assms by (auto simp: FixupBucket_def Let_def)

lemma FixupBucket_chain:
  assumes s: "struct_ok c" and i: "i < length (Buffers c)"
  shows "chain_ok (FixupBucket (upd_buf c i (\<lambda>b. b\<lparr>bfile := f, bpage := pg\<rparr>)) i)"
proof -
  let ?u = "upd_buf c i (\<lambda>b. b\<lparr>bfile := f, bpage := pg\<rparr>)"
  have ch: "\<forall>h. distinct (phTable ?u h)"
      "\<forall>h j. j \<in> set (phTable ?u h) \<longrightarrow> hashIndex (Buffers ?u ! j) = h"
    using s by (auto simp: struct_ok_def chain_ok_def nth_upd_buf)
  have pg: "bpage (Buffers ?u ! i) = pg" using i by (simp add: nth_upd_buf)
  have tab: "set (phTable (FixupBucket ?u i) h) = set (phTable c h) - {i} \<union> (if h = pHash pg then {i} else {})"
    and dist: "distinct (phTable (FixupBucket ?u i) h)" for h
    using FixupBucket_table[OF ch, of i h] by (simp_all add: pg)
  have buf: "Buffers (FixupBucket ?u i) =
      (Buffers c)[i := (Buffers c ! i)\<lparr>bfile := f, bpage := pg, hashIndex := pHash pg\<rparr>]"
    using i by (simp add: FixupBucket_def Let_def upd_buf_def)
  have c3: "j \<in> set (phTable c h)"
    if "j < length (Buffers c)" "bfile (Buffers c ! j) \<noteq> BADFID" "pHash (bpage (Buffers c ! j)) = h" for j h
    using s that by (auto simp: struct_ok_def chain_ok_def)
  have c2: "j < length (Buffers c) \<and> hashIndex (Buffers c ! j) = h" if "j \<in> set (phTable c h)" for j h
    using s that by (simp add: struct_ok_def chain_ok_def)
  show ?thesis
    unfolding chain_ok_def tab buf using dist i c2 c3
    by (auto simp: nth_list_update)
qed

lemma newslot_struct:
  assumes s: "struct_ok c" and ns: "newslot c f pg = (Some i, c1)" and f: "0 \<le> f" and pg: "0 \<le> pg"
  shows "struct_ok c1" and "i < length (Buffers c)" and "length (Buffers c1) = length (Buffers c)"
proof -
  have nd: "\<not> dirty (Buffers c ! i)" and B: "Buffers c1 =
      (Buffers c)[i := (Buffers c ! i)\<lparr>bfile := f, bpage := pg, hashIndex := pHash pg\<rparr>]"
    using newslot_buffers[OF ns] by auto
  show i: "i < length (Buffers c)"
    using newslot_buffers(2)[OF ns] s by (auto simp: struct_ok_def ring_ok_def)
  show "length (Buffers c1) = length (Buffers c)" by (simp add: B)
  let ?u = "FixupBucket (upd_buf c i (\<lambda>b. b\<lparr>bfile := f, bpage := pg\<rparr>)) i"
  have c1: "c1 = Dmru ?u i"
    using ns by (auto simp: newslot_def Let_def split: option.splits)
  have "ring_ok ?u" using s by (simp add: struct_ok_def ring_ok_def FixupBucket_def Let_def upd_buf_def)
  then have "ring_ok c1" using i by (simp add: c1 ring_ok_Dmru FixupBucket_def Let_def)
  moreover have "chain_ok c1" using FixupBucket_chain[OF s i, where f = f and pg = pg] by (simp add: c1 chain_ok_def)
  moreover have "dirty_ok c1"
    using s nd i unfolding struct_ok_def dirty_ok_def B by (auto simp: nth_list_update)
  moreover have "\<forall>b \<in> set (Buffers c1). buf_ok b"
  proof -
    have "buf_ok ((Buffers c ! i)\<lparr>bfile := f, bpage := pg, hashIndex := pHash pg\<rparr>)"
      using s i f pg by (auto simp: struct_ok_def buf_ok_def)
    then show ?thesis using s unfolding B struct_ok_def
      by (auto dest: set_update_subset_insert[THEN subsetD])
  qed
  ultimately show "struct_ok c1" by (simp add: struct_ok_def)
qed

end
