(* ===== verification/Ubik_Lock.thy ===== *)
theory Ubik_Lock
  imports Lwp_Lock Ubik_Cache
begin

text \<open>
  Transactions and their locks (\<^verbatim>\<open>src/src/ubik/ubik.p.h\<close>, \<^verbatim>\<open>src/src/ubik/lock.c\<close>).  The
  whole database has one reader/writer lock, \<^verbatim>\<open>rwlock\<close>, of the kind of \<open>Lwp_Lock\<close>.

  The flag bits of a transaction are separate fields.  A thread that has to wait for
  the lock gets \<open>UBLOCKED\<close> and stays in \<open>LOCKWAIT\<close> until \<open>ulock_granted\<close> runs the rest
  of \<^verbatim>\<open>ulock_getLock\<close> for it.
\<close>

section \<open>Transactions\<close>

datatype locktype = NOLOCK | LOCKREAD | LOCKWRITE | LOCKWAIT

record ubik_iovec =
  iofile :: int
  ioposition :: int
  iolength :: int

record ubik_trans =
  ttype :: trtype
  locktype :: locktype
  activeTruncs :: "(int \<times> int) list"
  tid :: ubik_tid
  seekFile :: int
  seekPos :: int
  trDone :: bool
  trAbort :: bool
  trReadAny :: bool
  trCacheLocked :: bool
  trReadWrite :: bool
  iovec_alloc :: bool
  iovec_info :: "ubik_iovec list"
  iovec_data :: "byte list"

definition new_trans :: "trtype \<Rightarrow> ubik_trans" where
  "new_trans ty =
     \<lparr>ttype = ty, locktype = NOLOCK, activeTruncs = [], tid = \<lparr>tepoch = 0, tcounter = 0\<rparr>,
      seekFile = 0, seekPos = 0, trDone = False, trAbort = False, trReadAny = False,
      trCacheLocked = False, trReadWrite = False, iovec_alloc = False, iovec_info = [], iovec_data = []\<rparr>"

section \<open>Locks\<close>

definition WouldReadBlock :: "lock \<Rightarrow> bool" where
  "WouldReadBlock l = (if WRITE_LOCK \<in> excl_locked l \<or> wait_states l \<noteq> {} then False else True)"

definition WouldWriteBlock :: "lock \<Rightarrow> bool" where
  "WouldWriteBlock l = (if WRITE_LOCK \<in> excl_locked l \<or> readers_reading l \<noteq> 0 then False else True)"

fun lock_how :: "locktype \<Rightarrow> how" where
  "lock_how LOCKREAD = ReadHow"
| "lock_how _ = WriteHow"

definition ulock_Init :: lock where
  "ulock_Init = Lock_Init"

definition ulock_getLock ::
  "ubik_trans \<Rightarrow> lock \<Rightarrow> locktype \<Rightarrow> bool \<Rightarrow> ucode \<times> ubik_trans \<times> lock" where
  "ulock_getLock t l atype await =
     (if atype \<noteq> LOCKREAD \<and> atype \<noteq> LOCKWRITE then (UERR EINVAL, t, l)
      else if trDone t then (UERR UDONE, t, l)
      else if atype \<noteq> LOCKREAD \<and> trReadWrite t then (UERR EINVAL, t, l)
      else if locktype t \<noteq> NOLOCK then (UPANIC, t, l)
      else if \<not> await \<and> \<not> trReadWrite t \<and>
              (if atype = LOCKREAD then WouldReadBlock l else WouldWriteBlock l)
           then (UERR EAGAIN, t, l)
      else if trReadWrite t then (UOK, t\<lparr>locktype := atype\<rparr>, l)
      else if Obtain_free l (lock_how atype)
           then (UOK, t\<lparr>locktype := atype\<rparr>, Obtain_take l (lock_how atype))
      else (UBLOCKED, t\<lparr>locktype := LOCKWAIT\<rparr>, Obtain_enter l (lock_how atype)))"

text \<open>The sleeping thread has been signalled and its test succeeds: the rest of the call.\<close>

definition ulock_granted :: "ubik_trans \<Rightarrow> lock \<Rightarrow> locktype \<Rightarrow> ucode \<times> ubik_trans \<times> lock" where
  "ulock_granted t l atype =
     (if Obtain_busy l (lock_how atype) then (UBLOCKED, t, Obtain_sleep l (lock_how atype))
      else (UOK, t\<lparr>locktype := atype\<rparr>, Obtain_leave l (lock_how atype)))"

definition ulock_relLock :: "ubik_trans \<Rightarrow> lock \<Rightarrow> ucode \<times> ubik_trans \<times> lock" where
  "ulock_relLock t l =
     (if locktype t = LOCKWRITE \<and> trReadWrite t then (UPANIC, t, l)
      else (UOK, t\<lparr>locktype := NOLOCK\<rparr>,
            if trReadWrite t then l
            else case locktype t of LOCKREAD \<Rightarrow> fst (ReleaseReadLock l)
                                  | LOCKWRITE \<Rightarrow> fst (ReleaseWriteLock l)
                                  | _ \<Rightarrow> l))"

definition ulock_Debug :: "lock \<Rightarrow> byte \<times> bool" where
  "ulock_Debug l = (readers_reading l, excl_locked l = {WRITE_LOCK})"

section \<open>What the lock promises\<close>

text \<open>
  C31: asked not to wait, \<^verbatim>\<open>ulock_getLock\<close> answers \<^verbatim>\<open>EAGAIN\<close> exactly when the lock is
  free: the two tests \<^verbatim>\<open>WouldReadBlock\<close> and \<^verbatim>\<open>WouldWriteBlock\<close> are the wrong way round.
\<close>
theorem ulock_nowait_inverted:
  assumes "atype = LOCKREAD \<or> atype = LOCKWRITE" and "\<not> trDone t" and "\<not> trReadWrite t"
    and "locktype t = NOLOCK" and "excl_locked l \<subseteq> {WRITE_LOCK}"
  shows "fst (ulock_getLock t l atype False) = UERR EAGAIN \<longleftrightarrow> Obtain_free l (lock_how atype)"
proof -
  have "excl_locked l = {} \<longleftrightarrow> WRITE_LOCK \<notin> excl_locked l" using assms(5) by auto
  then show ?thesis
    using assms by (auto simp: ulock_getLock_def WouldReadBlock_def WouldWriteBlock_def)
qed

theorem ulock_nowait_inverted_witness:
  "Obtain_free ulock_Init (lock_how LOCKREAD) \<and>
   fst (ulock_getLock (new_trans UBIK_READTRANS) ulock_Init LOCKREAD False) = UERR EAGAIN"
  using ulock_nowait_inverted[of LOCKREAD "new_trans UBIK_READTRANS" ulock_Init]
  by (simp add: new_trans_def ulock_Init_def Lock_Init_def)

end
