(* ===== verification/Ubik_Coherence.thy ===== *)
theory Ubik_Coherence
  imports Ubik_Cache
begin

text \<open>
  What the page cache of \<^verbatim>\<open>src/src/ubik/disk.c\<close> stands for.  A read transaction sees
  the bytes of the files (\<open>disk_byte\<close>), the write transaction the same bytes overlaid
  with the dirty pages (\<open>trans_byte\<close>).  The operations of the cache keep every clean
  page equal to the page of its file (\<open>cache_ok\<close>) and change these two views
  exactly as their names promise.
\<close>

section \<open>What the cache stands for\<close>

text \<open>Byte \<open>k\<close> of file \<open>f\<close> as committed to the file, and as a write transaction sees it.\<close>

definition disk_byte :: "phys \<Rightarrow> int \<Rightarrow> nat \<Rightarrow> byte" where
  "disk_byte p f k = fbyte (files p f) (k + 64)"

definition dirty_buf :: "cache \<Rightarrow> int \<Rightarrow> int \<Rightarrow> nat option" where
  "dirty_buf c f pg = List.find
     (\<lambda>i. dirty (Buffers c ! i) \<and> bfile (Buffers c ! i) = f \<and> bpage (Buffers c ! i) = pg) (buf_ids c)"

definition trans_byte :: "phys \<Rightarrow> cache \<Rightarrow> int \<Rightarrow> nat \<Rightarrow> byte" where
  "trans_byte p c f k =
     (case dirty_buf c f (int (k div UBIK_PAGESIZE)) of
        Some i \<Rightarrow> bdata (Buffers c ! i) ! (k mod UBIK_PAGESIZE)
      | None \<Rightarrow> disk_byte p f k)"

definition disk_page :: "phys \<Rightarrow> int \<Rightarrow> int \<Rightarrow> byte list" where
  "disk_page p f pg = fpage (files p f) (nat (pg * int UBIK_PAGESIZE + HDRSIZE)) UBIK_PAGESIZE"

text \<open>Every clean page in the cache is the page of the file.\<close>

definition coherent :: "phys \<Rightarrow> cache \<Rightarrow> bool" where
  "coherent p c \<longleftrightarrow> (\<forall>b \<in> set (Buffers c). bfile b \<noteq> BADFID \<longrightarrow> \<not> dirty b \<longrightarrow>
     bdata b = disk_page p (bfile b) (bpage b))"

definition cache_ok :: "phys \<Rightarrow> cache \<Rightarrow> bool" where
  "cache_ok p c \<longleftrightarrow> struct_ok c \<and> coherent p c"

lemma cache_ok_Init: "n > 0 \<Longrightarrow> cache_ok p (udisk_Init n)"
  by (simp add: cache_ok_def struct_ok_Init) (simp add: coherent_def udisk_Init_def)

lemma disk_page_nth:
  "0 \<le> pg \<Longrightarrow> j < UBIK_PAGESIZE \<Longrightarrow> disk_page p f pg ! j = disk_byte p f (nat pg * UBIK_PAGESIZE + j)"
  by (simp add: disk_page_def disk_byte_def nat_add_distrib nat_mult_distrib algebra_simps)

lemma length_disk_page [simp]: "length (disk_page p f pg) = UBIK_PAGESIZE"
  by (simp add: disk_page_def)

lemma dirty_buf_Some:
  "dirty_buf c f pg = Some i \<Longrightarrow> i < length (Buffers c) \<and> dirty (Buffers c ! i) \<and>
     bfile (Buffers c ! i) = f \<and> bpage (Buffers c ! i) = pg"
  by (auto simp: dirty_buf_def buf_ids_def dest: find_Some_in)

lemma dirty_buf_None:
  "dirty_buf c f pg = None \<longleftrightarrow> (\<forall>i < length (Buffers c). dirty (Buffers c ! i) \<longrightarrow>
     bfile (Buffers c ! i) = f \<longrightarrow> bpage (Buffers c ! i) \<noteq> pg)"
  by (auto simp: dirty_buf_def buf_ids_def find_None_iff)

lemma dirty_buf_eq:
  "struct_ok c \<Longrightarrow> i < length (Buffers c) \<Longrightarrow> dirty (Buffers c ! i) \<Longrightarrow>
   dirty_buf c (bfile (Buffers c ! i)) (bpage (Buffers c ! i)) = Some i"
proof (cases "dirty_buf c (bfile (Buffers c ! i)) (bpage (Buffers c ! i))")
  case (Some j)
  assume "struct_ok c" "i < length (Buffers c)" "dirty (Buffers c ! i)"
  with dirty_buf_Some[OF Some] Some show ?thesis
    by (auto simp: struct_ok_def dirty_ok_def)
next
  case None
  assume "i < length (Buffers c)" "dirty (Buffers c ! i)"
  with None show ?thesis by (auto simp: dirty_buf_None)
qed

text \<open>The page of a buffer as a write transaction sees it.\<close>

definition trans_page :: "phys \<Rightarrow> cache \<Rightarrow> int \<Rightarrow> int \<Rightarrow> byte list" where
  "trans_page p c f pg =
     (case dirty_buf c f pg of Some i \<Rightarrow> bdata (Buffers c ! i) | None \<Rightarrow> disk_page p f pg)"

lemma trans_byte_page:
  "trans_byte p c f k = trans_page p c f (int (k div UBIK_PAGESIZE)) ! (k mod UBIK_PAGESIZE)"
proof -
  have "disk_byte p f k = disk_page p f (int (k div UBIK_PAGESIZE)) ! (k mod UBIK_PAGESIZE)"
    by (simp add: disk_page_nth)
  then show ?thesis by (auto simp: trans_byte_def trans_page_def split: option.splits)
qed

lemma length_trans_page: "struct_ok c \<Longrightarrow> length (trans_page p c f pg) = UBIK_PAGESIZE"
  by (auto simp: trans_page_def struct_ok_def buf_ok_def dest: dirty_buf_Some split: option.splits)

lemma trans_page_dirty:
  "struct_ok c \<Longrightarrow> i < length (Buffers c) \<Longrightarrow> dirty (Buffers c ! i) \<Longrightarrow>
   trans_page p c (bfile (Buffers c ! i)) (bpage (Buffers c ! i)) = bdata (Buffers c ! i)"
  by (simp add: trans_page_def dirty_buf_eq)

text \<open>Two caches with the same dirty buffers give the same view.\<close>

definition dirty_same :: "cache \<Rightarrow> cache \<Rightarrow> bool" where
  "dirty_same c c' \<longleftrightarrow> length (Buffers c') = length (Buffers c) \<and>
     (\<forall>i < length (Buffers c). dirty (Buffers c' ! i) = dirty (Buffers c ! i) \<and>
       (dirty (Buffers c ! i) \<longrightarrow> bfile (Buffers c' ! i) = bfile (Buffers c ! i) \<and>
         bpage (Buffers c' ! i) = bpage (Buffers c ! i) \<and> bdata (Buffers c' ! i) = bdata (Buffers c ! i)))"

lemma dirty_same_refl [simp]: "dirty_same c c"
  by (simp add: dirty_same_def)

lemma dirty_same_trans: "dirty_same a b \<Longrightarrow> dirty_same b c \<Longrightarrow> dirty_same a c"
  by (auto simp: dirty_same_def)

lemma dirty_same_Buffers: "Buffers c' = Buffers c \<Longrightarrow> dirty_same c c'"
  by (simp add: dirty_same_def)

lemma dirty_same_upd:
  "dirty (f (Buffers c ! i)) = dirty (Buffers c ! i) \<Longrightarrow>
   (dirty (Buffers c ! i) \<Longrightarrow> bfile (f (Buffers c ! i)) = bfile (Buffers c ! i) \<and>
      bpage (f (Buffers c ! i)) = bpage (Buffers c ! i) \<and> bdata (f (Buffers c ! i)) = bdata (Buffers c ! i)) \<Longrightarrow>
   dirty_same c (upd_buf c i f)"
  by (auto simp: dirty_same_def nth_upd_buf)

lemma trans_page_same:
  assumes s: "struct_ok c" and s': "struct_ok c'" and same: "dirty_same c c'"
    and fs: "files p' = files p"
  shows "trans_page p' c' f pg = trans_page p c f pg"
proof (cases "dirty_buf c f pg")
  case None
  then have "dirty_buf c' f pg = None" using same by (auto simp: dirty_buf_None dirty_same_def)
  with None show ?thesis by (simp add: trans_page_def disk_page_def fs)
next
  case (Some i)
  then have i: "i < length (Buffers c)" "dirty (Buffers c ! i)" "bfile (Buffers c ! i) = f"
    "bpage (Buffers c ! i) = pg" by (auto dest: dirty_buf_Some)
  with same have i': "i < length (Buffers c')" "dirty (Buffers c' ! i)" "bfile (Buffers c' ! i) = f"
    "bpage (Buffers c' ! i) = pg" "bdata (Buffers c' ! i) = bdata (Buffers c ! i)"
    by (auto simp: dirty_same_def)
  show ?thesis
    using trans_page_dirty[OF s', of i p'] trans_page_dirty[OF s, of i p] i i' by simp
qed

section \<open>Reading a page\<close>

lemma uphys_read_frame:
  assumes "uphys_read p f pos n = (code, bs, p')"
  shows "files p' = files p" and "stable p' = stable p" and "buf_stream p' = buf_stream p"
    and "0 \<le> code \<Longrightarrow> bs = pread (files p f) (nat (pos + HDRSIZE)) n"
    and "code = - 1 \<and> bs = [] \<or> code = int (length bs)"
  using assms by (auto simp: uphys_read_def io_step_def Let_def split: list.splits if_splits)

lemma io_ok [simp]: "faults p = [] \<Longrightarrow> io_step p = (False, p)"
  by (simp add: io_step_def)

lemma coherent_upd:
  assumes "coherent p c"
    and "bfile (f (Buffers c ! i)) \<noteq> BADFID \<Longrightarrow> \<not> dirty (f (Buffers c ! i)) \<Longrightarrow>
       bdata (f (Buffers c ! i)) = disk_page p (bfile (f (Buffers c ! i))) (bpage (f (Buffers c ! i)))"
  shows "coherent p (upd_buf c i f)"
  using assms unfolding coherent_def upd_buf_def
  by (auto dest!: set_update_subset_insert[THEN subsetD])

lemma coherent_nth:
  "coherent p c \<Longrightarrow> i < length (Buffers c) \<Longrightarrow> bfile (Buffers c ! i) \<noteq> BADFID \<Longrightarrow>
   \<not> dirty (Buffers c ! i) \<Longrightarrow> bdata (Buffers c ! i) = disk_page p (bfile (Buffers c ! i)) (bpage (Buffers c ! i))"
  by (simp add: coherent_def)

lemma coherent_Buffers: "coherent p c \<Longrightarrow> Buffers c' = Buffers c \<Longrightarrow> files p' = files p \<Longrightarrow> coherent p' c'"
  by (simp add: coherent_def disk_page_def)

lemma lock_buf_ok:
  assumes "cache_ok p c" and "i < length (Buffers c)"
  shows "cache_ok p (lock_buf c i)" and "dirty_same c (lock_buf c i)"
  using assms buf_ok_nth[of c i] coherent_nth[of p c i]
  by (auto simp: cache_ok_def lock_buf_def buf_ok_def intro!: struct_ok_upd coherent_upd dirty_same_upd)

lemma DRead_scan_spec:
  assumes "DRead_scan c ty f pg found is = Some i"
  shows "(i \<in> set is \<and> MatchBuffer (Buffers c ! i) pg f ty \<or> found = Some i) \<and>
    (ty = UBIK_WRITETRANS \<longrightarrow> \<not> dirty (Buffers c ! i) \<longrightarrow>
       (\<forall>j \<in> set is. MatchBuffer (Buffers c ! j) pg f ty \<longrightarrow> \<not> dirty (Buffers c ! j)))"
  using assms
  by (induction c ty f pg found "is" rule: DRead_scan.induct) (fastforce split: if_splits)+

lemma DRead_scan_None:
  "DRead_scan c ty f pg found is = None \<Longrightarrow>
   found = None \<and> (\<forall>j \<in> set is. \<not> MatchBuffer (Buffers c ! j) pg f ty)"
  by (induction c ty f pg found "is" rule: DRead_scan.induct) (auto split: if_splits)

lemma find_free_dirty_same:
  assumes "Buffers c' = (Buffers c)[i := b]" and "\<not> dirty (Buffers c ! i)" and "\<not> dirty b"
  shows "dirty_same c c'"
  using assms by (cases "i < length (Buffers c)") (auto simp: dirty_same_def nth_list_update list_update_beyond)

lemma coherent_replace:
  assumes "coherent p c" and "Buffers c' = (Buffers c)[i := b]"
    and "bfile b \<noteq> BADFID \<Longrightarrow> \<not> dirty b \<Longrightarrow> bdata b = disk_page p (bfile b) (bpage b)"
  shows "coherent p c'"
  using assms unfolding coherent_def by (auto dest!: set_update_subset_insert[THEN subsetD])

lemma dirty_buf_same: "dirty_same c c' \<Longrightarrow> dirty_buf c f pg = None \<Longrightarrow> dirty_buf c' f pg = None"
  by (auto simp: dirty_buf_None dirty_same_def)

text \<open>A page that is not on its hash chain is not in the cache.\<close>

lemma chain_no_dirty:
  assumes "struct_ok c" and "\<forall>j \<in> set (phTable c (pHash pg)). \<not> (MatchBuffer (Buffers c ! j) pg f UBIK_WRITETRANS \<and> dirty (Buffers c ! j))"
    and "0 \<le> f"
  shows "dirty_buf c f pg = None"
  using assms by (auto simp: dirty_buf_None MatchBuffer_def struct_ok_def chain_ok_def)

lemma DRead_fill:
  assumes ok: "cache_ok p c" and f: "0 \<le> f" and pg: "0 \<le> pg"
    and ns: "newslot c f pg = (Some i, c1)"
    and c2: "c2 = lock_buf (clear_buf c1 i) i"
  shows "struct_ok c2" and "i < length (Buffers c)" and "\<not> dirty (Buffers c ! i)"
    and "\<exists>b. Buffers c2 = (Buffers c)[i := b] \<and> bfile b = f \<and> bpage b = pg \<and> \<not> dirty b \<and>
           bdata b = replicate UBIK_PAGESIZE 0 \<and> lockers b = 1 \<and> buf_ok b"
proof -
  have s: "struct_ok c" using ok by (simp add: cache_ok_def)
  show i: "i < length (Buffers c)" using newslot_struct[OF s ns f pg] by simp
  show nd: "\<not> dirty (Buffers c ! i)" using newslot_buffers[OF ns] by simp
  have c1: "struct_ok c1" "length (Buffers c1) = length (Buffers c)"
    using newslot_struct[OF s ns f pg] by auto
  have B: "Buffers c1 = (Buffers c)[i := (Buffers c ! i)\<lparr>bfile := f, bpage := pg, hashIndex := pHash pg\<rparr>]"
    using newslot_buffers[OF ns] by simp
  have l0: "lockers (Buffers c ! i) = 0"
    using ns by (auto simp: newslot_def Let_def split: option.splits dest: find_Some_in)
  show "struct_ok c2" unfolding c2 lock_buf_def clear_buf_def
    using c1 i buf_ok_nth[of c1 i]
    by (intro struct_ok_upd) (auto simp: nth_upd_buf buf_ok_def)
  show "\<exists>b. Buffers c2 = (Buffers c)[i := b] \<and> bfile b = f \<and> bpage b = pg \<and> \<not> dirty b \<and>
      bdata b = replicate UBIK_PAGESIZE 0 \<and> lockers b = 1 \<and> buf_ok b"
    using i nd l0 f pg unfolding c2 lock_buf_def clear_buf_def upd_buf_def
    by (auto simp: B buf_ok_def)
qed

lemma DRead_load:
  assumes ok: "cache_ok p c" and f: "0 \<le> f" and pg: "0 \<le> pg"
    and ns: "newslot c f pg = (Some i, c1)"
    and c2: "c2 = lock_buf (clear_buf c1 i) i"
    and fs: "files p' = files p" and bs: "bs = pread (files p f) (nat (pg * int UBIK_PAGESIZE + HDRSIZE)) UBIK_PAGESIZE"
    and c': "c' = upd_buf c2 i (\<lambda>b. b\<lparr>bdata := pwrite (bdata b) 0 bs\<rparr>)"
  shows "cache_ok p' c'" and "dirty_same c c'" and "bfile (Buffers c' ! i) = f"
    and "bpage (Buffers c' ! i) = pg" and "\<not> dirty (Buffers c' ! i)" and "i < length (Buffers c')"
proof -
  note F = DRead_fill[OF ok f pg ns c2]
  obtain b where b: "Buffers c2 = (Buffers c)[i := b]" "bfile b = f" "bpage b = pg" "\<not> dirty b"
    "bdata b = replicate UBIK_PAGESIZE 0" "buf_ok b" using F(4) by auto
  have data: "pwrite (bdata b) 0 bs = disk_page p f pg"
    unfolding b bs by (simp add: pwrite_pread_page disk_page_def)
  have B: "Buffers c' = (Buffers c)[i := b\<lparr>bdata := disk_page p f pg\<rparr>]"
    using F(2) b(1) data by (simp add: c' upd_buf_def)
  have "struct_ok c'" unfolding c'
    by (rule struct_ok_upd[OF F(1)]) (use F(2) b data in \<open>auto simp: buf_ok_def\<close>)
  moreover have "coherent p' c'"
    using coherent_replace[OF _ B, of p] ok b by (auto simp: cache_ok_def coherent_def disk_page_def fs)
  ultimately show "cache_ok p' c'" by (simp add: cache_ok_def)
  show "dirty_same c c'" by (rule find_free_dirty_same[OF B]) (use F b in auto)
  show "bfile (Buffers c' ! i) = f" "bpage (Buffers c' ! i) = pg" "\<not> dirty (Buffers c' ! i)"
    "i < length (Buffers c')"
    using B F(2) b by auto
qed

lemma DRead_fail:
  assumes ok: "cache_ok p c" and f: "0 \<le> f" and pg: "0 \<le> pg"
    and ns: "newslot c f pg = (Some i, c1)"
    and c2: "c2 = lock_buf (clear_buf c1 i) i" and fs: "files p' = files p"
    and c': "c' = upd_buf (invalidate_buf c2 i) i (\<lambda>b. b\<lparr>lockers := lockers b - 1\<rparr>)"
  shows "cache_ok p' c'" and "dirty_same c c'"
proof -
  note F = DRead_fill[OF ok f pg ns c2]
  obtain b where b: "Buffers c2 = (Buffers c)[i := b]" "bfile b = f" "bpage b = pg" "\<not> dirty b"
    "bdata b = replicate UBIK_PAGESIZE 0" "buf_ok b" using F(4) by auto
  have B: "Buffers c' = (Buffers c)[i := b\<lparr>bfile := BADFID, lockers := lockers b - 1\<rparr>]"
    using F(2) b(1) by (simp add: c' upd_buf_def invalidate_buf_def)
  have inv: "struct_ok (invalidate_buf c2 i)" using F b by (intro struct_ok_invalidate) auto
  have "struct_ok c'" unfolding c'
    by (rule struct_ok_upd[OF inv]) (use F(2) b in \<open>auto simp: invalidate_buf_def nth_upd_buf buf_ok_def\<close>)
  moreover have "coherent p' c'"
    using coherent_replace[OF _ B, of p] ok by (auto simp: cache_ok_def coherent_def disk_page_def fs)
  ultimately show "cache_ok p' c'" by (simp add: cache_ok_def)
  show "dirty_same c c'" by (rule find_free_dirty_same[OF B]) (use F b in auto)
qed


lemma ring_last: "struct_ok c \<Longrightarrow> last (lru c) < length (Buffers c)"
  using last_in_set[of "lru c"] by (cases "lru c = []") (auto simp: struct_ok_def ring_ok_def)

lemma DRead_hit:
  assumes ok: "cache_ok p c" and i: "i < length (Buffers c)" and f: "0 \<le> f"
    and m: "MatchBuffer (Buffers c ! i) pg f ty"
    and nd: "ty = UBIK_WRITETRANS \<Longrightarrow> \<not> dirty (Buffers c ! i) \<Longrightarrow> dirty_buf c f pg = None"
    and c': "c' = lock_buf c1 i" and c1: "c1 = c \<or> c1 = Dmru c i"
  shows "cache_ok p c'" and "dirty_same c c'" and "bfile (Buffers c' ! i) = f"
    and "bpage (Buffers c' ! i) = pg" and "i < length (Buffers c')"
    and "ty = UBIK_READTRANS \<Longrightarrow> \<not> dirty (Buffers c' ! i)"
    and "ty = UBIK_WRITETRANS \<Longrightarrow> \<not> dirty (Buffers c' ! i) \<Longrightarrow> dirty_buf c' f pg = None"
proof -
  have ok1: "cache_ok p c1" and B: "Buffers c1 = Buffers c"
    using c1 ok i by (auto simp: cache_ok_def struct_ok_Dmru coherent_def)
  then have i1: "i < length (Buffers c1)" using i by simp
  show "cache_ok p c'" using lock_buf_ok(1)[OF ok1 i1] by (simp add: c')
  show ds: "dirty_same c c'"
    using dirty_same_trans[OF dirty_same_Buffers[OF B] lock_buf_ok(2)[OF ok1 i1]] by (simp add: c')
  have b: "Buffers c' ! i = (Buffers c ! i)\<lparr>lockers := lockers (Buffers c ! i) + 1\<rparr>"
    using i by (simp add: c' lock_buf_def nth_upd_buf B)
  show "bfile (Buffers c' ! i) = f" "bpage (Buffers c' ! i) = pg"
    "ty = UBIK_READTRANS \<Longrightarrow> \<not> dirty (Buffers c' ! i)"
    using m by (auto simp: b MatchBuffer_def)
  show "i < length (Buffers c')" using i1 by (simp add: c' lock_buf_def)
  show "dirty_buf c' f pg = None" if "ty = UBIK_WRITETRANS" "\<not> dirty (Buffers c' ! i)"
    using that nd b by (auto intro: dirty_buf_same[OF ds])
qed

text \<open>
  \<open>DRead\<close> keeps the cache coherent and both views as they are; the buffer it returns
  holds the page asked for, never a dirty one for a read transaction, and a clean
  one for a write transaction only if no dirty one exists.
\<close>

lemma DRead_ok:
  assumes ok: "cache_ok p c" and f: "0 \<le> f" and pg: "0 \<le> pg" and run: "DRead p c ty f pg = (r, p', c')"
  shows "cache_ok p' c' \<and> dirty_same c c' \<and> files p' = files p \<and> stable p' = stable p
     \<and> buf_stream p' = buf_stream p \<and>
     (\<forall>i. r = Some i \<longrightarrow> i < length (Buffers c') \<and> bfile (Buffers c' ! i) = f \<and> bpage (Buffers c' ! i) = pg \<and>
       (ty = UBIK_READTRANS \<longrightarrow> \<not> dirty (Buffers c' ! i)) \<and>
       (ty = UBIK_WRITETRANS \<longrightarrow> \<not> dirty (Buffers c' ! i) \<longrightarrow> dirty_buf c' f pg = None)) \<and>
     (r = None \<longrightarrow> ty = UBIK_WRITETRANS \<longrightarrow> dirty_buf c' f pg = None)"
proof -
  have s: "struct_ok c" using ok by (simp add: cache_ok_def)
  let ?l = "last (lru c)"
  consider (last) "MatchBuffer (Buffers c ! ?l) pg f ty"
      "ty = UBIK_READTRANS \<or> dirty (Buffers c ! ?l)" "r = Some ?l" "p' = p" "c' = lock_buf c ?l"
    | (chain) i where "DRead_scan c ty f pg None (phTable c (pHash pg)) = Some i"
      "r = Some i" "p' = p" "c' = lock_buf (Dmru c i) i"
    | (full) "DRead_scan c ty f pg None (phTable c (pHash pg)) = None" "newslot c f pg = (None, c')" "r = None" "p' = p"
    | (bad) i c1 code bs where "DRead_scan c ty f pg None (phTable c (pHash pg)) = None" "newslot c f pg = (Some i, c1)"
      "uphys_read p f (pg * int UBIK_PAGESIZE) UBIK_PAGESIZE = (code, bs, p')" "r = None"
      "c' = upd_buf (invalidate_buf (lock_buf (clear_buf c1 i) i) i) i (\<lambda>b. b\<lparr>lockers := lockers b - 1\<rparr>)"
    | (load) i c1 code bs where "DRead_scan c ty f pg None (phTable c (pHash pg)) = None"
      "newslot c f pg = (Some i, c1)" "0 \<le> code"
      "uphys_read p f (pg * int UBIK_PAGESIZE) UBIK_PAGESIZE = (code, bs, p')" "r = Some i"
      "c' = upd_buf (lock_buf (clear_buf c1 i) i) i (\<lambda>b. b\<lparr>bdata := pwrite (bdata b) 0 bs\<rparr>)"
    using run unfolding DRead_def Let_def
    by (auto split: if_splits option.splits prod.splits)
  moreover have none: "dirty_buf c f pg = None"
    if "DRead_scan c ty f pg None (phTable c (pHash pg)) = None" "ty = UBIK_WRITETRANS"
    using DRead_scan_None[OF that(1)] that(2) by (intro chain_no_dirty[OF s _ f]) auto
  ultimately show ?thesis
  proof cases
    case last
    from DRead_hit[OF ok ring_last[OF s] f last(1) _ last(5)] last(2-) show ?thesis by auto
  next
    case chain
    from DRead_scan_spec[OF chain(1)] have m: "i \<in> set (phTable c (pHash pg))"
      "MatchBuffer (Buffers c ! i) pg f ty" by auto
    have i: "i < length (Buffers c)" using m s by (simp add: struct_ok_def chain_ok_def)
    have "dirty_buf c f pg = None" if "ty = UBIK_WRITETRANS" "\<not> dirty (Buffers c ! i)"
      using DRead_scan_spec[OF chain(1)] that by (intro chain_no_dirty[OF s _ f]) auto
    from DRead_hit[OF ok i f m(2) this chain(4)] chain(2,3) show ?thesis by auto
  next
    case full
    with newslot_None[OF full(2)] ok none show ?thesis by auto
  next
    case bad
    note R = uphys_read_frame[OF bad(3)]
    note L = DRead_fail[OF ok f pg bad(2) refl R(1) bad(5)]
    show ?thesis using L R bad(4) none[OF bad(1)] dirty_buf_same[OF L(2)] by auto
  next
    case load
    note R = uphys_read_frame[OF load(4)]
    note L = DRead_load[OF ok f pg load(2) refl R(1) R(4)[OF load(3)] load(6)]
    then show ?thesis using R load(5) none[OF load(1)] dirty_buf_same[OF L(2)] by auto
  qed
qed

section \<open>Releasing, changing and creating a page\<close>

lemma DRelease_clean:
  assumes "cache_ok p c" and "i < length (Buffers c)"
  shows "cache_ok p (DRelease c i False)" and "dirty_same c (DRelease c i False)"
  using assms buf_ok_nth[of c i] coherent_nth[of p c i]
  by (auto simp: cache_ok_def DRelease_def buf_ok_def intro!: struct_ok_upd coherent_upd dirty_same_upd)

text \<open>Storing into a held page and releasing it as modified.\<close>

lemma store_page:
  assumes s: "struct_ok c" and coh: "coherent p c \<or> Buffers c = (Buffers c0)[i := b0] \<and> coherent p c0"
    and i: "i < length (Buffers c)" and f: "bfile (Buffers c ! i) = f" "0 \<le> f"
    and pg: "bpage (Buffers c ! i) = pg" and d: "length d = UBIK_PAGESIZE"
    and nd: "\<not> dirty (Buffers c ! i) \<Longrightarrow> dirty_buf c f pg = None"
    and c': "c' = DRelease (upd_buf c i (\<lambda>b. b\<lparr>bdata := d\<rparr>)) i True"
  shows "cache_ok p c'"
    and "trans_page p c' g q = (if g = f \<and> q = pg then d else trans_page p c g q)"
proof -
  let ?b = "(Buffers c ! i)\<lparr>bdata := d, lockers := lockers (Buffers c ! i) - 1, dirty := True\<rparr>"
  have c1: "c' = upd_buf c i (\<lambda>b. b\<lparr>bdata := d, lockers := lockers b - 1, dirty := True\<rparr>)"
    using i by (simp add: c' DRelease_def upd_buf_def)
  have B: "Buffers c' = (Buffers c)[i := ?b]" using i by (simp add: c1 upd_buf_def)
  have s': "struct_ok c'" unfolding c1
    by (rule struct_ok_upd[OF s i])
      (use buf_ok_nth[OF s i] f pg d nd in \<open>auto simp: buf_ok_def dirty_buf_None\<close>)
  have "coherent p c'"
    using coh
  proof
    assume "coherent p c"
    from coherent_replace[OF this B] show ?thesis by simp
  next
    assume *: "Buffers c = (Buffers c0)[i := b0] \<and> coherent p c0"
    have "Buffers c' = (Buffers c0)[i := ?b]" using * unfolding B by (metis list_update_overwrite)
    from coherent_replace[OF _ this, of p] * show ?thesis by simp
  qed
  with s' show "cache_ok p c'" by (simp add: cache_ok_def)
  show "trans_page p c' g q = (if g = f \<and> q = pg then d else trans_page p c g q)"
  proof (cases "g = f \<and> q = pg")
    case True
    then show ?thesis using trans_page_dirty[OF s', of i p] i f pg by (simp add: B)
  next
    case False
    have "dirty_buf c' g q = dirty_buf c g q"
    proof (cases "dirty_buf c g q")
      case None
      then have "dirty_buf c' g q = None"
        using False f pg i by (auto simp: dirty_buf_None B nth_list_update)
      with None show ?thesis by simp
    next
      case (Some j)
      then have j: "j < length (Buffers c)" "dirty (Buffers c ! j)" "bfile (Buffers c ! j) = g"
        "bpage (Buffers c ! j) = q" by (auto dest: dirty_buf_Some)
      then have "j \<noteq> i" using False f pg by auto
      then show ?thesis using dirty_buf_eq[OF s', of j] j Some by (simp add: B)
    qed
    moreover have "dirty_buf c g q \<noteq> Some i" using False f pg by (auto dest: dirty_buf_Some)
    ultimately show ?thesis using False
      by (auto simp: trans_page_def B nth_list_update i split: option.splits)
  qed
qed

lemma DNew_ok:
  assumes ok: "cache_ok p c" and f: "0 \<le> f" and pg: "0 \<le> pg" and run: "DNew c f pg = (r, c')"
    and nd: "dirty_buf c f pg = None"
  shows "r = None \<Longrightarrow> c' = c"
    and "r = Some i \<Longrightarrow> struct_ok c' \<and> dirty_same c c' \<and> (\<exists>b. Buffers c' = (Buffers c)[i := b]) \<and>
      i < length (Buffers c') \<and> bfile (Buffers c' ! i) = f \<and> bpage (Buffers c' ! i) = pg \<and>
      \<not> dirty (Buffers c' ! i) \<and> dirty_buf c' f pg = None \<and> bdata (Buffers c' ! i) = replicate UBIK_PAGESIZE 0"
proof -
  show "r = None \<Longrightarrow> c' = c"
    using run newslot_None by (auto simp: DNew_def split: prod.splits option.splits)
  assume r: "r = Some i"
  then obtain c1 where ns: "newslot c f pg = (Some i, c1)" and c': "c' = clear_buf (lock_buf c1 i) i"
    using run by (auto simp: DNew_def split: prod.splits option.splits)
  have c2: "c' = lock_buf (clear_buf c1 i) i"
    by (cases "i < length (Buffers c1)")
      (auto simp: c' lock_buf_def clear_buf_def upd_buf_def list_update_beyond intro!: buffer.equality arg_cong[where f = "\<lambda>b. c1\<lparr>Buffers := (Buffers c1)[i := b]\<rparr>"])
  note F = DRead_fill[OF ok f pg ns c2]
  obtain b where b: "Buffers c' = (Buffers c)[i := b]" "bfile b = f" "bpage b = pg" "\<not> dirty b"
    "bdata b = replicate UBIK_PAGESIZE 0" using F(4) by auto
  have ds: "dirty_same c c'" by (rule find_free_dirty_same[OF b(1)]) (use F b in auto)
  show "struct_ok c' \<and> dirty_same c c' \<and> (\<exists>b. Buffers c' = (Buffers c)[i := b]) \<and>
      i < length (Buffers c') \<and> bfile (Buffers c' ! i) = f \<and> bpage (Buffers c' ! i) = pg \<and>
      \<not> dirty (Buffers c' ! i) \<and> dirty_buf c' f pg = None \<and> bdata (Buffers c' ! i) = replicate UBIK_PAGESIZE 0"
    using F ds dirty_buf_same[OF ds nd] b by auto
qed


section \<open>Discarding pages\<close>

text \<open>Invalidating clean buffers, whatever selects them.\<close>

lemma fold_invalidate:
  assumes "struct_ok c" and "set is \<subseteq> {..<length (Buffers c)}"
    and "\<And>c i. sel c i \<Longrightarrow> \<not> dirty (Buffers c ! i)"
  shows "struct_ok (fold (\<lambda>i c. if sel c i then invalidate_buf c i else c) is c) \<and>
    dirty_same c (fold (\<lambda>i c. if sel c i then invalidate_buf c i else c) is c) \<and>
    (coherent p c \<longrightarrow> coherent p (fold (\<lambda>i c. if sel c i then invalidate_buf c i else c) is c))"
  using assms(1,2)
proof (induction "is" arbitrary: c)
  case Nil
  then show ?case by simp
next
  case (Cons i "is")
  let ?c = "if sel c i then invalidate_buf c i else c"
  have s: "struct_ok ?c" using Cons.prems assms(3) by (simp add: struct_ok_invalidate)
  have ds: "dirty_same c ?c" using assms(3)[of c i]
    by (auto simp: dirty_same_def nth_invalidate)
  have co: "coherent p c \<longrightarrow> coherent p ?c"
    by (auto simp: invalidate_buf_def intro!: coherent_Buffers[of p "upd_buf c i (\<lambda>b. b\<lparr>bfile := BADFID\<rparr>)"] coherent_upd)
  have "set is \<subseteq> {..<length (Buffers ?c)}" using Cons.prems by simp
  from Cons.IH[OF s this] ds co show ?case by (auto intro: dirty_same_trans)
qed

lemma set_buf_ids [simp]: "set (buf_ids c) = {..<length (Buffers c)}"
  by (auto simp: buf_ids_def)

definition no_dirty :: "cache \<Rightarrow> bool" where
  "no_dirty c \<longleftrightarrow> (\<forall>b \<in> set (Buffers c). \<not> dirty b)"

lemma no_dirty_nth: "no_dirty c \<longleftrightarrow> (\<forall>i < length (Buffers c). \<not> dirty (Buffers c ! i))"
  by (auto simp: no_dirty_def all_set_conv_all_nth)

lemma no_dirty_trans_page: "no_dirty c \<Longrightarrow> trans_page p c f pg = disk_page p f pg"
proof -
  assume "no_dirty c"
  then have "dirty_buf c f pg = None" by (simp add: dirty_buf_None no_dirty_def)
  then show ?thesis by (simp add: trans_page_def)
qed

lemma no_dirty_same: "dirty_same c c' \<Longrightarrow> no_dirty c \<Longrightarrow> no_dirty c'"
  by (simp add: dirty_same_def no_dirty_nth)

text \<open>Aborting forgets every uncommitted change and keeps the clean pages.\<close>

lemma DAbort_step:
  assumes ok: "cache_ok p c" and i: "i < length (Buffers c)" and d: "dirty (Buffers c ! i)"
    and c': "c' = invalidate_buf (upd_buf c i (\<lambda>b. b\<lparr>dirty := False\<rparr>)) i"
  shows "cache_ok p c'" and "dirties c' = (dirties c)[i := False]"
proof -
  have s: "struct_ok c" and co: "coherent p c" using ok by (auto simp: cache_ok_def)
  have c1: "c' = Dlru (upd_buf c i (\<lambda>b. b\<lparr>dirty := False, bfile := BADFID\<rparr>)) i"
    using i by (simp add: c' invalidate_buf_def upd_buf_def)
  have "struct_ok c'" unfolding c1
    by (intro struct_ok_Dlru struct_ok_upd) (use s i buf_ok_nth[OF s i] in \<open>auto simp: buf_ok_def\<close>)
  moreover have "coherent p c'" unfolding c1
    by (rule coherent_Buffers[OF coherent_upd[OF co]]) auto
  ultimately show "cache_ok p c'" by (simp add: cache_ok_def)
  show "dirties c' = (dirties c)[i := False]" by (simp add: c' dirties_clean)
qed

lemma DAbort_fold:
  assumes "cache_ok p c" and "set is \<subseteq> {..<length (Buffers c)}"
  defines "g \<equiv> \<lambda>i c. if dirty (Buffers c ! i)
    then invalidate_buf (upd_buf c i (\<lambda>b. b\<lparr>dirty := False\<rparr>)) i else c"
  shows "cache_ok p (fold g is c) \<and> length (Buffers (fold g is c)) = length (Buffers c) \<and>
    (\<forall>j < length (Buffers c). dirty (Buffers (fold g is c) ! j) \<longleftrightarrow> dirty (Buffers c ! j) \<and> j \<notin> set is)"
  using assms(1,2)
proof (induction "is" arbitrary: c)
  case Nil
  then show ?case by simp
next
  case (Cons i "is")
  have i: "i < length (Buffers c)" using Cons.prems by simp
  have ok: "cache_ok p (g i c)" using DAbort_step[OF Cons.prems(1) i] Cons.prems(1) by (auto simp: g_def)
  have len: "length (Buffers (g i c)) = length (Buffers c)" by (simp add: g_def)
  have d: "dirty (Buffers (g i c) ! j) \<longleftrightarrow> dirty (Buffers c ! j) \<and> j \<noteq> i" if "j < length (Buffers c)" for j
    using that i by (auto simp: g_def nth_invalidate nth_upd_buf)
  have "set is \<subseteq> {..<length (Buffers (g i c))}" using Cons.prems len by simp
  from Cons.IH[OF ok this] len d show ?case by auto
qed

lemma DAbort_ok:
  assumes "cache_ok p c"
  shows "cache_ok p (DAbort c)" and "no_dirty (DAbort c)"
  using DAbort_fold[OF assms, of "buf_ids c"]
  by (auto simp: DAbort_def no_dirty_nth)

lemma DTrunc_struct:
  assumes "struct_ok c" and "no_dirty c"
  shows "struct_ok (DTrunc c f n) \<and> dirty_same c (DTrunc c f n)"
proof -
  define sel where "sel = (\<lambda>c i. (n + int UBIK_PAGESIZE - 1) div int UBIK_PAGESIZE \<le> bpage (Buffers c ! i)
     \<and> bfile (Buffers c ! i) = f \<and> no_dirty c \<and> i < length (Buffers c))"
  have *: "fold (\<lambda>i c. if (n + int UBIK_PAGESIZE - 1) div int UBIK_PAGESIZE \<le> bpage (Buffers c ! i)
       \<and> bfile (Buffers c ! i) = f then invalidate_buf c i else c) is c =
     fold (\<lambda>i c. if sel c i then invalidate_buf c i else c) is c"
    if "no_dirty c" "set is \<subseteq> {..<length (Buffers c)}" for "is" c
    using that
  proof (induction "is" arbitrary: c)
    case (Cons i "is")
    have "no_dirty (invalidate_buf c i)"
      using Cons.prems by (auto simp: no_dirty_nth nth_invalidate)
    with Cons show ?case by (simp add: sel_def)
  qed simp
  show ?thesis
    using fold_invalidate[of c "buf_ids c" sel] assms *[of c "buf_ids c"]
    by (auto simp: DTrunc_def Let_def sel_def no_dirty_def)
qed

section \<open>Flushing the dirty pages\<close>

lemma uphys_write_frame:
  assumes "uphys_write p f d pos = (code, p')"
  shows "stable p' = stable p" and "buf_stream p' = buf_stream p"
    and "g \<noteq> f \<Longrightarrow> files p' g = files p g"
    and "code = int (length d) \<Longrightarrow> 0 \<le> pos \<Longrightarrow> files p' f = pwrite (files p f) (nat (pos + HDRSIZE)) d"
    and "code \<noteq> int (length d) \<Longrightarrow> files p' = files p"
  using assms by (auto simp: uphys_write_def io_step_def Let_def set_file_def split: list.splits if_splits)

lemma page_overlap:
  fixes pg q :: int
  assumes "0 \<le> pg" and "0 \<le> q" and "j < (1024::nat)" and "pg \<noteq> q"
  shows "\<not> (nat (pg * 1024 + 64) \<le> nat (q * 1024 + 64) + j \<and> nat (q * 1024 + 64) + j < nat (pg * 1024 + 64) + 1024)"
  using assms by linarith

lemma disk_page_write:
  assumes w: "uphys_write p f d (pg * int UBIK_PAGESIZE) = (int UBIK_PAGESIZE, p')"
    and d: "length d = UBIK_PAGESIZE" and pg: "0 \<le> pg" and q: "0 \<le> q"
  shows "disk_page p' g q = (if g = f \<and> q = pg then d else disk_page p g q)"
proof (cases "g = f")
  case False
  then show ?thesis using uphys_write_frame(3)[OF w] by (simp add: disk_page_def)
next
  case True
  have fl: "files p' f = pwrite (files p f) (nat (pg * int UBIK_PAGESIZE + HDRSIZE)) d"
    using uphys_write_frame(4)[OF w] d pg by simp
  show ?thesis
  proof (rule nth_equalityI)
    show "length (disk_page p' g q) = length (if g = f \<and> q = pg then d else disk_page p g q)"
      using d by simp
  next
    fix j assume "j < length (disk_page p' g q)"
    then have j: "j < UBIK_PAGESIZE" by simp
    show "disk_page p' g q ! j = (if g = f \<and> q = pg then d else disk_page p g q) ! j"
    proof (cases "q = pg")
      case True
      then show ?thesis using \<open>g = f\<close> j d by (simp add: disk_page_def fl fbyte_pwrite)
    next
      case False
      then show ?thesis using \<open>g = f\<close> j d page_overlap[OF pg q j] by (auto simp: disk_page_def fl fbyte_pwrite)
    qed
  qed
qed

lemma header_write:
  assumes w: "uphys_write p f d (pg * int UBIK_PAGESIZE) = (code, p')" and pg: "0 \<le> pg" and k: "k < 64"
  shows "fbyte (files p' g) k = fbyte (files p g) k"
proof (cases "g = f \<and> code = int (length d)")
  case True
  then have "files p' g = pwrite (files p g) (nat (pg * int UBIK_PAGESIZE + HDRSIZE)) d"
    using uphys_write_frame(4)[OF w] pg by simp
  then show ?thesis using k pg by (auto simp: fbyte_pwrite)
next
  case False
  then show ?thesis using uphys_write_frame(3,5)[OF w] by auto
qed

text \<open>
  Whatever calls fail, a page of a file is afterwards what it was or a dirty page of the
  cache; if all succeed it is the dirty page wherever there is one.
\<close>

lemma DFlush_loop_frame:
  assumes "DFlush_loop p bs = (code, p')" and "\<forall>b \<in> set bs. buf_ok b"
  shows "stable p' = stable p" and "buf_stream p' = buf_stream p" and "files p' LOGFILE = files p LOGFILE"
    and "k < 64 \<Longrightarrow> fbyte (files p' g) k = fbyte (files p g) k"
proof -
  have "stable p' = stable p \<and> buf_stream p' = buf_stream p \<and> files p' LOGFILE = files p LOGFILE \<and>
      (k < 64 \<longrightarrow> fbyte (files p' g) k = fbyte (files p g) k)"
    using assms
  proof (induction p bs rule: DFlush_loop.induct)
    case (2 p b bs)
    show ?case
    proof (cases "dirty b")
      case False
      then show ?thesis using 2 by simp
    next
      case True
      obtain c1 p1 where w: "uphys_write p (bfile b) (bdata b) (bpage b * int UBIK_PAGESIZE) = (c1, p1)"
        by fastforce
      have b: "0 \<le> bfile b" "0 \<le> bpage b" using 2(4) True by (auto simp: buf_ok_def)
      have "stable p1 = stable p \<and> buf_stream p1 = buf_stream p \<and> files p1 LOGFILE = files p LOGFILE \<and>
          (k < 64 \<longrightarrow> fbyte (files p1 g) k = fbyte (files p g) k)"
        using uphys_write_frame(1,2)[OF w] uphys_write_frame(3)[OF w, of LOGFILE] b
          header_write[OF w b(2)] by auto
      then show ?thesis using 2(1)[OF True w[symmetric] refl] 2(3,4) True w by (auto split: if_splits)
    qed
  qed simp
  then show "stable p' = stable p" "buf_stream p' = buf_stream p" "files p' LOGFILE = files p LOGFILE"
    "k < 64 \<Longrightarrow> fbyte (files p' g) k = fbyte (files p g) k" by auto
qed

lemma DFlush_step:
  assumes w: "uphys_write p (bfile b) (bdata b) (bpage b * int UBIK_PAGESIZE) = (c1, p1)"
    and b: "buf_ok b" "dirty b" and q: "0 \<le> q"
  shows "disk_page p1 g q = (if c1 = int UBIK_PAGESIZE \<and> bfile b = g \<and> bpage b = q then bdata b else disk_page p g q)"
proof (cases "c1 = int UBIK_PAGESIZE")
  case True
  then show ?thesis using disk_page_write[OF w[unfolded True] _ _ q, of g] b by (auto simp: buf_ok_def)
next
  case False
  then show ?thesis using uphys_write_frame(5)[OF w] b by (simp add: disk_page_def buf_ok_def)
qed

lemma DFlush_loop_page:
  assumes "DFlush_loop p bs = (code, p')" and "\<forall>b \<in> set bs. buf_ok b" and q: "0 \<le> q"
  shows "disk_page p' g q = disk_page p g q \<or>
       (\<exists>b \<in> set bs. dirty b \<and> bfile b = g \<and> bpage b = q \<and> disk_page p' g q = bdata b)"
  using assms(1,2)
proof (induction p bs rule: DFlush_loop.induct)
  case (2 p b bs)
  show ?case
  proof (cases "dirty b")
    case False
    then show ?thesis using 2 by simp
  next
    case True
    obtain c1 p1 where w: "uphys_write p (bfile b) (bdata b) (bpage b * int UBIK_PAGESIZE) = (c1, p1)"
      by fastforce
    note st = DFlush_step[OF w _ True q, of g]
    show ?thesis
    proof (cases "c1 = int UBIK_PAGESIZE")
      case False
      then show ?thesis using 2(3,4) True w st by simp
    next
      case c1: True
      then have "DFlush_loop p1 bs = (code, p')" using 2(3) True w by simp
      with 2(1)[OF True w[symmetric] refl] c1 2(4)
      have "disk_page p' g q = disk_page p1 g q \<or>
          (\<exists>b \<in> set bs. dirty b \<and> bfile b = g \<and> bpage b = q \<and> disk_page p' g q = bdata b)" by simp
      then show ?thesis using st 2(4) True by (auto split: if_splits)
    qed
  qed
qed simp

lemma DFlush_loop_all:
  assumes "DFlush_loop p bs = (UOK, p')" and "\<forall>b \<in> set bs. buf_ok b"
    and "\<forall>b' \<in> set bs. dirty b' \<longrightarrow> bfile b' = bfile b \<longrightarrow> bpage b' = bpage b \<longrightarrow> bdata b' = d"
    and "b \<in> set bs" and "dirty b"
  shows "disk_page p' (bfile b) (bpage b) = d"
  using assms
proof (induction bs arbitrary: p)
  case Nil
  then show ?case by simp
next
  case (Cons a bs)
  show ?case
  proof (cases "dirty a")
    case False
    then show ?thesis using Cons.IH[of p] Cons.prems by auto
  next
    case True
    obtain c1 p1 where w: "uphys_write p (bfile a) (bdata a) (bpage a * int UBIK_PAGESIZE) = (c1, p1)"
      by fastforce
    have a: "length (bdata a) = UBIK_PAGESIZE" "0 \<le> bfile a" "0 \<le> bpage a"
      using Cons.prems(2) True by (auto simp: buf_ok_def)
    have c1: "c1 = int UBIK_PAGESIZE" and rest: "DFlush_loop p1 bs = (UOK, p')"
      using Cons.prems(1) True w by (auto split: if_splits)
    show ?thesis
    proof (cases "b \<in> set bs")
      case True
      then show ?thesis using Cons.IH[OF rest] Cons.prems(2-5) by auto
    next
      case False
      then have ba: "b = a" using Cons.prems(4) by simp
      have "disk_page p1 (bfile a) (bpage a) = bdata a"
        using disk_page_write[OF w[unfolded c1] a(1,3,3), of "bfile a"] by simp
      moreover have "disk_page p' (bfile a) (bpage a) = disk_page p1 (bfile a) (bpage a) \<or>
          (\<exists>b \<in> set bs. dirty b \<and> bfile b = bfile a \<and> bpage b = bpage a \<and> disk_page p' (bfile a) (bpage a) = bdata b)"
        using DFlush_loop_page[OF rest] Cons.prems(2) a(3) by simp
      moreover have "bdata a = d" using Cons.prems(3) \<open>dirty a\<close> ba by simp
      moreover have "bdata b' = d" if "b' \<in> set bs" "dirty b'" "bfile b' = bfile a" "bpage b' = bpage a" for b'
        using Cons.prems(3) that ba by simp
      ultimately show ?thesis using ba by auto
    qed
  qed
qed


lemma DFlush_frame:
  assumes "DFlush p c = (code, p')" and "struct_ok c"
  shows "stable p' = stable p" and "buf_stream p' = buf_stream p" and "files p' LOGFILE = files p LOGFILE"
    and "k < 64 \<Longrightarrow> fbyte (files p' g) k = fbyte (files p g) k"
  using DFlush_loop_frame[of p "Buffers c" code p'] assms by (auto simp: DFlush_def struct_ok_def)

lemma DFlush_old_or_new:
  assumes run: "DFlush p c = (code, p')" and s: "struct_ok c" and q: "0 \<le> q"
  shows "disk_page p' g q = disk_page p g q \<or> disk_page p' g q = trans_page p c g q"
proof -
  have "disk_page p' g q = disk_page p g q \<or>
      (\<exists>b \<in> set (Buffers c). dirty b \<and> bfile b = g \<and> bpage b = q \<and> disk_page p' g q = bdata b)"
    using DFlush_loop_page[OF run[unfolded DFlush_def] _ q] s by (simp add: struct_ok_def)
  then show ?thesis
    using trans_page_dirty[OF s] by (auto simp: in_set_conv_nth)
qed

lemma DFlush_new:
  assumes run: "DFlush p c = (UOK, p')" and s: "struct_ok c" and q: "0 \<le> q"
  shows "disk_page p' g q = trans_page p c g q"
proof (cases "dirty_buf c g q")
  case None
  then show ?thesis using DFlush_old_or_new[OF run s q, of g] by (simp add: trans_page_def)
next
  case (Some i)
  then have i: "i < length (Buffers c)" "dirty (Buffers c ! i)" "bfile (Buffers c ! i) = g"
    "bpage (Buffers c ! i) = q" by (auto dest: dirty_buf_Some)
  have "disk_page p' (bfile (Buffers c ! i)) (bpage (Buffers c ! i)) = bdata (Buffers c ! i)"
  proof (rule DFlush_loop_all[OF run[unfolded DFlush_def]])
    show "\<forall>b \<in> set (Buffers c). buf_ok b" using s by (simp add: struct_ok_def)
    show "\<forall>b' \<in> set (Buffers c). dirty b' \<longrightarrow> bfile b' = bfile (Buffers c ! i) \<longrightarrow>
        bpage b' = bpage (Buffers c ! i) \<longrightarrow> bdata b' = bdata (Buffers c ! i)"
    proof (intro ballI impI)
      fix b' assume b': "b' \<in> set (Buffers c)" "dirty b'" "bfile b' = bfile (Buffers c ! i)"
        "bpage b' = bpage (Buffers c ! i)"
      then obtain j where j: "j < length (Buffers c)" "b' = Buffers c ! j" by (auto simp: in_set_conv_nth)
      with s b' i have "j = i" unfolding struct_ok_def dirty_ok_def by blast
      with j show "bdata b' = bdata (Buffers c ! i)" by simp
    qed
  qed (use i in auto)
  then show ?thesis using i trans_page_dirty[OF s, of i p] by simp
qed

section \<open>Marking the pages clean\<close>

text \<open>
  Between \<open>DFlush\<close> and the end of \<open>DSync\<close>: a clean page may be out of date, but then
  there is a dirty page for the same place.
\<close>

definition stale_twin :: "cache \<Rightarrow> buffer \<Rightarrow> bool" where
  "stale_twin c b \<longleftrightarrow> (\<exists>b' \<in> set (Buffers c). dirty b' \<and> bfile b' = bfile b \<and> bpage b' = bpage b)"

definition flushed :: "phys \<Rightarrow> cache \<Rightarrow> bool" where
  "flushed p c \<longleftrightarrow> struct_ok c \<and> (\<forall>b \<in> set (Buffers c). bfile b \<noteq> BADFID \<longrightarrow>
     bdata b = disk_page p (bfile b) (bpage b) \<or> \<not> dirty b \<and> stale_twin c b)"

lemma DFlush_flushed:
  assumes run: "DFlush p c = (UOK, p')" and ok: "cache_ok p c"
  shows "flushed p' c"
proof -
  have s: "struct_ok c" using ok by (simp add: cache_ok_def)
  have "bdata b = disk_page p' (bfile b) (bpage b) \<or> \<not> dirty b \<and> stale_twin c b"
    if b: "b \<in> set (Buffers c)" "bfile b \<noteq> BADFID" for b
  proof -
    from b obtain i where i: "i < length (Buffers c)" "b = Buffers c ! i" by (auto simp: in_set_conv_nth)
    have q: "0 \<le> bpage b" using buf_ok_nth[OF s i(1)] b i by (auto simp: buf_ok_def)
    have new: "disk_page p' (bfile b) (bpage b) = trans_page p c (bfile b) (bpage b)"
      by (rule DFlush_new[OF run s q])
    show ?thesis
    proof (cases "dirty b")
      case True
      then show ?thesis using new trans_page_dirty[OF s i(1)] i by simp
    next
      case False
      then have data: "bdata b = disk_page p (bfile b) (bpage b)"
        using coherent_nth[of p c i] ok b i by (simp add: cache_ok_def)
      show ?thesis
      proof (cases "dirty_buf c (bfile b) (bpage b)")
        case None
        then show ?thesis using new data by (simp add: trans_page_def)
      next
        case (Some j)
        from dirty_buf_Some[OF this] have "Buffers c ! j \<in> set (Buffers c)" "dirty (Buffers c ! j)"
          "bfile (Buffers c ! j) = bfile b" "bpage (Buffers c ! j) = bpage b" by auto
        then show ?thesis using False unfolding stale_twin_def by blast
      qed
    qed
  qed
  then show ?thesis using s by (simp add: flushed_def)
qed

lemma flushed_clean: "flushed p c \<Longrightarrow> no_dirty c \<Longrightarrow> cache_ok p c"
  by (auto simp: flushed_def cache_ok_def coherent_def no_dirty_def stale_twin_def)

text \<open>\<open>DedupBuffer\<close> invalidates the other buffers of the page.\<close>

definition twin :: "cache \<Rightarrow> nat \<Rightarrow> nat \<Rightarrow> bool" where
  "twin c i j \<longleftrightarrow> bpage (Buffers c ! j) = bpage (Buffers c ! i) \<and> j \<noteq> i \<and> bfile (Buffers c ! j) = bfile (Buffers c ! i)"

lemma twin_same: "Buffers c' ! i = Buffers c ! i \<Longrightarrow> Buffers c' ! j = Buffers c ! j \<Longrightarrow> twin c' i j = twin c i j"
  by (simp add: twin_def)

lemma twin_irrefl [simp]: "\<not> twin c i i"
  by (simp add: twin_def)

definition drop_twin :: "nat \<Rightarrow> nat \<Rightarrow> cache \<Rightarrow> cache" where
  "drop_twin i j c = (if twin c i j then invalidate_buf c j else c)"

lemma DedupBuffer_twins: "DedupBuffer c i = fold (drop_twin i) (phTable c (pHash (bpage (Buffers c ! i)))) c"
  by (simp add: DedupBuffer_def drop_twin_def[abs_def] twin_def)

lemma drop_twin_step:
  assumes "struct_ok c" and "k < length (Buffers c)" and "twin c i k \<Longrightarrow> \<not> dirty (Buffers c ! k)"
  shows "struct_ok (drop_twin i k c)" and "length (Buffers (drop_twin i k c)) = length (Buffers c)"
    and "Buffers (drop_twin i k c) ! j =
      (if j = k \<and> twin c i k then (Buffers c ! k)\<lparr>bfile := BADFID\<rparr> else Buffers c ! j)"
  using assms by (auto simp: drop_twin_def nth_invalidate intro: struct_ok_invalidate)

lemma Dedup_fold:
  assumes "struct_ok c" and "set is \<subseteq> {..<length (Buffers c)}"
    and "\<forall>j < length (Buffers c). twin c i j \<longrightarrow> \<not> dirty (Buffers c ! j)"
  shows "struct_ok (fold (drop_twin i) is c) \<and>
    length (Buffers (fold (drop_twin i) is c)) = length (Buffers c) \<and>
    (\<forall>j < length (Buffers c). Buffers (fold (drop_twin i) is c) ! j =
       (if j \<in> set is \<and> twin c i j then (Buffers c ! j)\<lparr>bfile := BADFID\<rparr> else Buffers c ! j))"
  using assms
proof (induction "is" arbitrary: c)
  case Nil
  then show ?case by simp
next
  case (Cons k "is")
  let ?c = "drop_twin i k c"
  have k: "k < length (Buffers c)" using Cons.prems(2) by simp
  note st = drop_twin_step[OF Cons.prems(1) k, of i]
  have nd: "twin c i k \<Longrightarrow> \<not> dirty (Buffers c ! k)" using Cons.prems(3) k by simp
  have i: "Buffers ?c ! i = Buffers c ! i" using st(3)[OF nd, of i] by auto
  have other: "Buffers ?c ! j = Buffers c ! j \<and> twin ?c i j = twin c i j" if "\<not> (j = k \<and> twin c i k)" for j
    using st(3)[OF nd, of j] that i by (auto simp: twin_def)
  have clean: "\<forall>j < length (Buffers ?c). twin ?c i j \<longrightarrow> \<not> dirty (Buffers ?c ! j)"
  proof (intro allI impI)
    fix j assume j: "j < length (Buffers ?c)" "twin ?c i j"
    show "\<not> dirty (Buffers ?c ! j)"
    proof (cases "j = k \<and> twin c i k")
      case True
      then show ?thesis using st(3)[OF nd, of j] nd by simp
    next
      case False
      then show ?thesis using other[OF False] Cons.prems(3) j st(2)[OF nd] by simp
    qed
  qed
  have "set is \<subseteq> {..<length (Buffers ?c)}" using Cons.prems(2) st(2)[OF nd] by simp
  note IH = Cons.IH[OF st(1)[OF nd] this clean]
  have "Buffers (fold (drop_twin i) (k # is) c) ! j =
      (if j \<in> set (k # is) \<and> twin c i j then (Buffers c ! j)\<lparr>bfile := BADFID\<rparr> else Buffers c ! j)"
    if "j < length (Buffers c)" for j
  proof (cases "j = k \<and> twin c i k")
    case True
    then show ?thesis using IH st(2,3)[OF nd] that by simp
  next
    case False
    then show ?thesis using IH other[OF False] st(2)[OF nd] that by auto
  qed
  then show ?case using IH st(2)[OF nd] by simp
qed

lemma DedupBuffer_nth:
  assumes s: "struct_ok c" and v: "bfile (Buffers c ! i) \<noteq> BADFID"
    and u: "\<forall>j < length (Buffers c). twin c i j \<longrightarrow> \<not> dirty (Buffers c ! j)"
  shows "struct_ok (DedupBuffer c i)"
    and "j < length (Buffers c) \<Longrightarrow> Buffers (DedupBuffer c i) ! j =
       (if twin c i j then (Buffers c ! j)\<lparr>bfile := BADFID\<rparr> else Buffers c ! j)"
proof -
  let ?is = "phTable c (pHash (bpage (Buffers c ! i)))"
  have sub: "set ?is \<subseteq> {..<length (Buffers c)}" using s by (auto simp: struct_ok_def chain_ok_def)
  note F = Dedup_fold[OF s sub u, folded DedupBuffer_twins]
  show "struct_ok (DedupBuffer c i)" using F by blast
  have "j \<in> set ?is" if "twin c i j" "j < length (Buffers c)"
  proof -
    have "j \<in> set (phTable c (pHash (bpage (Buffers c ! j))))"
      using s that v unfolding struct_ok_def chain_ok_def twin_def by metis
    then show ?thesis using that by (simp add: twin_def)
  qed
  then show "j < length (Buffers c) \<Longrightarrow> Buffers (DedupBuffer c i) ! j =
       (if twin c i j then (Buffers c ! j)\<lparr>bfile := BADFID\<rparr> else Buffers c ! j)"
    using F by simp
qed

lemma clean_struct:
  assumes s: "struct_ok c" and i: "i < length (Buffers c)"
  shows "struct_ok (upd_buf c i (\<lambda>b. b\<lparr>dirty := False\<rparr>))"
  by (rule struct_ok_upd[OF s i]) (use buf_ok_nth[OF s i] in \<open>auto simp: buf_ok_def\<close>)

text \<open>Cleaning one dirty page and dropping its stale copies.\<close>

lemma DSync_clean:
  assumes fl: "flushed p c" and i: "i < length (Buffers c)" and d: "dirty (Buffers c ! i)"
    and c': "c' = DedupBuffer (upd_buf c i (\<lambda>b. b\<lparr>dirty := False\<rparr>)) i"
  shows "flushed p c'" and "length (Buffers c') = length (Buffers c)"
    and "j < length (Buffers c) \<Longrightarrow> dirty (Buffers c ! j) \<Longrightarrow> j \<noteq> i \<Longrightarrow> Buffers c' ! j = Buffers c ! j"
proof -
  let ?c = "upd_buf c i (\<lambda>b. b\<lparr>dirty := False\<rparr>)"
  have s: "struct_ok c" using fl by (simp add: flushed_def)
  have s1: "struct_ok ?c" by (rule clean_struct[OF s i])
  have v: "bfile (Buffers c ! i) \<noteq> BADFID" using buf_ok_nth[OF s i] d by (simp add: buf_ok_def)
  have u: "\<not> dirty (Buffers c ! j)" if "j < length (Buffers c)" "twin c i j" for j
    using s that i d unfolding struct_ok_def dirty_ok_def twin_def by blast
  have tw: "twin ?c i j = twin c i j" if "j < length (Buffers c)" for j
    using i that by (cases "j = i") (auto simp: twin_def nth_upd_buf)
  have "\<forall>j < length (Buffers ?c). twin ?c i j \<longrightarrow> \<not> dirty (Buffers ?c ! j)"
    using u tw by (auto simp: nth_upd_buf)
  moreover have "bfile (Buffers ?c ! i) \<noteq> BADFID" using i v by (simp add: nth_upd_buf)
  ultimately have D: "struct_ok c'" "j < length (Buffers ?c) \<Longrightarrow> Buffers c' ! j =
       (if twin ?c i j then (Buffers ?c ! j)\<lparr>bfile := BADFID\<rparr> else Buffers ?c ! j)" for j
    using DedupBuffer_nth[OF s1, of i, folded c'] by auto
  show len: "length (Buffers c') = length (Buffers c)" by (simp add: c')
  have nth: "Buffers c' ! j = (if j = i then (Buffers c ! i)\<lparr>dirty := False\<rparr>
      else if twin c i j then (Buffers c ! j)\<lparr>bfile := BADFID\<rparr> else Buffers c ! j)" if "j < length (Buffers c)" for j
    using D(2)[of j] that i tw[OF that] by (auto simp: nth_upd_buf)
  show keep: "Buffers c' ! j = Buffers c ! j" if "j < length (Buffers c)" "dirty (Buffers c ! j)" "j \<noteq> i" for j
    using nth[OF that(1)] u[OF that(1)] that(2,3) by auto
  have "bdata (Buffers c' ! j) = disk_page p (bfile (Buffers c' ! j)) (bpage (Buffers c' ! j)) \<or>
      \<not> dirty (Buffers c' ! j) \<and> stale_twin c' (Buffers c' ! j)"
    if j: "j < length (Buffers c)" and vj: "bfile (Buffers c' ! j) \<noteq> BADFID" for j
  proof (cases "j = i")
    case True
    then show ?thesis using fl i v d by (auto simp: nth[OF i] flushed_def)
  next
    case False
    then have same: "Buffers c' ! j = Buffers c ! j"
      and key: "\<not> twin c i j"
      using nth[OF j] vj by (auto split: if_splits)
    have "stale_twin c' (Buffers c ! j)" if tw: "stale_twin c (Buffers c ! j)"
    proof -
      obtain k where k: "k < length (Buffers c)" "dirty (Buffers c ! k)"
        "bfile (Buffers c ! k) = bfile (Buffers c ! j)" "bpage (Buffers c ! k) = bpage (Buffers c ! j)"
        using tw by (auto simp: stale_twin_def in_set_conv_nth)
      have "k \<noteq> i" using key k(3,4) False unfolding twin_def by metis
      then have "Buffers c' ! k = Buffers c ! k" by (rule keep[OF k(1,2)])
      moreover have "Buffers c' ! k \<in> set (Buffers c')" using k(1) len by simp
      ultimately show ?thesis using k(2-4) unfolding stale_twin_def by metis
    qed
    moreover have "bdata (Buffers c ! j) = disk_page p (bfile (Buffers c ! j)) (bpage (Buffers c ! j)) \<or>
        \<not> dirty (Buffers c ! j) \<and> stale_twin c (Buffers c ! j)"
      using fl j vj by (simp add: flushed_def same)
    ultimately show ?thesis unfolding same by blast
  qed
  then show "flushed p c'" using D(1) len unfolding flushed_def all_set_conv_all_nth by simp
qed

lemma DSync_visit_flushed:
  assumes f: "flushed p c" and i: "i < length (Buffers c)" and v: "DSync_visit i (c, fl) = (c', fl')"
  shows "flushed p c' \<and> length (Buffers c') = length (Buffers c) \<and> (fl \<noteq> BADFID \<longrightarrow> fl' = fl) \<and>
    (fl' = BADFID \<longrightarrow> \<not> dirty (Buffers c ! i)) \<and>
    (\<forall>j < length (Buffers c). dirty (Buffers c ! j) \<longrightarrow> Buffers c' ! j = Buffers c ! j \<or> fl' = bfile (Buffers c ! j))"
proof (cases "dirty (Buffers c ! i)")
  case False
  then show ?thesis using f v by (simp add: DSync_visit_def)
next
  case True
  have valid: "bfile (Buffers c ! i) \<noteq> BADFID"
    using True buf_ok_nth[of c i] f i by (simp add: buf_ok_def flushed_def)
  let ?fl = "if fl = BADFID then bfile (Buffers c ! i) else fl"
  have fl': "fl' = ?fl" "fl' \<noteq> BADFID" using True v valid by (auto simp: DSync_visit_def Let_def split: if_splits)
  show ?thesis
  proof (cases "bfile (Buffers c ! i) = ?fl")
    case same: True
    then have c': "c' = DedupBuffer (upd_buf c i (\<lambda>b. b\<lparr>dirty := False\<rparr>)) i"
      using v True fl' by (simp add: DSync_visit_def Let_def split: if_splits)
    note D = DSync_clean[OF f i True c']
    have "Buffers c' ! j = Buffers c ! j \<or> fl' = bfile (Buffers c ! j)"
      if "j < length (Buffers c)" "dirty (Buffers c ! j)" for j
      using D(3)[OF that] same fl' by (cases "j = i") auto
    then show ?thesis using D(1,2) fl' by auto
  next
    case False
    then have "c' = c" using v True fl' by (simp add: DSync_visit_def Let_def split: if_splits)
    then show ?thesis using f fl' by auto
  qed
qed

lemma DSync_fold_flushed:
  assumes "flushed p c" and "set is \<subseteq> {..<length (Buffers c)}" and "fold DSync_visit is (c, fl) = (c', fl')"
  shows "flushed p c' \<and> length (Buffers c') = length (Buffers c) \<and> (fl \<noteq> BADFID \<longrightarrow> fl' = fl) \<and>
    (fl' = BADFID \<longrightarrow> c' = c \<and> (\<forall>i \<in> set is. \<not> dirty (Buffers c ! i))) \<and>
    (\<forall>j < length (Buffers c). dirty (Buffers c ! j) \<longrightarrow> Buffers c' ! j = Buffers c ! j \<or> fl' = bfile (Buffers c ! j))"
  using assms
proof (induction "is" arbitrary: c fl)
  case Nil
  then show ?case by simp
next
  case (Cons i "is")
  obtain c1 f1 where v: "DSync_visit i (c, fl) = (c1, f1)" by fastforce
  have i: "i < length (Buffers c)" using Cons.prems(2) by simp
  note V = DSync_visit_flushed[OF Cons.prems(1) i v]
  have rest: "fold DSync_visit is (c1, f1) = (c', fl')" using Cons.prems(3) v by simp
  have "set is \<subseteq> {..<length (Buffers c1)}" using Cons.prems(2) V by simp
  note IH = Cons.IH[OF conjunct1[OF V] this rest]
  have nb: "fl' = BADFID \<Longrightarrow> f1 = BADFID" using IH by blast
  have "c1 = c" if "f1 = BADFID"
    using V that v by (auto simp: DSync_visit_def Let_def split: if_splits)
  then have "fl' = BADFID \<longrightarrow> c' = c \<and> (\<forall>j \<in> set (i # is). \<not> dirty (Buffers c ! j))"
    using IH V nb by auto
  moreover have "Buffers c' ! j = Buffers c ! j \<or> fl' = bfile (Buffers c ! j)"
    if j: "j < length (Buffers c)" "dirty (Buffers c ! j)" for j
  proof (cases "Buffers c1 ! j = Buffers c ! j")
    case True
    then show ?thesis using IH V j by metis
  next
    case False
    then have "f1 = bfile (Buffers c ! j)" using V j by blast
    moreover have "bfile (Buffers c ! j) \<noteq> BADFID"
      using j buf_ok_nth[of c j] Cons.prems(1) by (simp add: buf_ok_def flushed_def)
    ultimately show ?thesis using IH by metis
  qed
  ultimately show ?case using IH V by metis
qed

lemma DSync_round_flushed:
  assumes "flushed p c" and "DSync_round c = (c', fl)"
  shows "flushed p c'" and "length (Buffers c') = length (Buffers c)"
    and "fl = BADFID \<Longrightarrow> c' = c \<and> no_dirty c"
    and "j < length (Buffers c) \<Longrightarrow> dirty (Buffers c ! j) \<Longrightarrow> Buffers c' ! j = Buffers c ! j \<or> fl = bfile (Buffers c ! j)"
  using DSync_fold_flushed[OF assms(1) _ assms(2)[unfolded DSync_round_def]]
  by (auto simp: no_dirty_nth)

text \<open>Syncing a data file while the only open stream is the log's.\<close>

definition stream_log :: "phys \<Rightarrow> bool" where
  "stream_log p \<longleftrightarrow> (\<forall>f bs. buf_stream p = Some (f, bs) \<longrightarrow> f = LOGFILE)"

lemma uphys_sync_data:
  assumes "uphys_sync p f = (code, p')" and "stream_log p" and "f \<noteq> LOGFILE"
  shows "files p' = files p" and "buf_stream p' = buf_stream p"
    and "stable p' = stable p \<or> stable p' = (stable p)(f := files p f)"
    and "code = UOK \<Longrightarrow> stable p' f = files p f"
  using assms
  by (auto simp: uphys_sync_def uphys_buf_flush_def stream_log_def io_step_def fsync_def Let_def
      split: list.splits if_splits)

lemma flushed_files: "flushed p c \<Longrightarrow> files p' = files p \<Longrightarrow> flushed p' c"
  by (simp add: flushed_def disk_page_def)

lemma DSync_loop_ok:
  assumes "DSync_loop p c r = (code, p', c')" and "flushed p c" and "stream_log p"
  shows "cache_ok p' c' \<and> no_dirty c' \<and> length (Buffers c') = length (Buffers c) \<and>
    files p' = files p \<and> buf_stream p' = buf_stream p \<and> stable p' LOGFILE = stable p LOGFILE \<and>
    (\<forall>g. stable p' g = stable p g \<or> stable p' g = files p g) \<and>
    (code = UOK \<longrightarrow> r = UOK \<and> (\<forall>j < length (Buffers c). dirty (Buffers c ! j) \<longrightarrow>
       stable p' (bfile (Buffers c ! j)) = files p (bfile (Buffers c ! j))))"
  using assms
proof (induction p c r rule: DSync_loop.induct)
  case (1 p c r)
  obtain c1 fl where rd: "DSync_round c = (c1, fl)" by fastforce
  note R = DSync_round_flushed[OF 1(3) rd]
  show ?case
  proof (cases "fl = BADFID")
    case True
    then have "code = r" "p' = p" "c' = c" using 1(2) rd R(3) by (simp_all add: DSync_loop.simps)
    then show ?thesis using flushed_clean[OF 1(3)] R(3)[OF True] by (simp add: no_dirty_nth)
  next
    case False
    obtain code1 p1 where sy: "uphys_sync p fl = (code1, p1)" by fastforce
    note S = uphys_sync_data[OF sy 1(4) False]
    let ?r = "if code1 \<noteq> UOK then code1 else r"
    have run: "DSync_loop p1 c1 ?r = (code, p', c')"
      using 1(2) rd sy False by (simp add: DSync_loop.simps[of p c r])
    have "flushed p1 c1" "stream_log p1"
      using flushed_files[OF R(1) S(1)] S(2) 1(4) by (simp_all add: stream_log_def)
    note IH = 1(1)[OF rd[symmetric] refl False sy[symmetric] refl run this]
    have st: "stable p' g = stable p g \<or> stable p' g = files p g" for g
      using IH S(1,3) by (metis fun_upd_other fun_upd_same)
    have log: "stable p' LOGFILE = stable p LOGFILE"
      using IH S(3) False by (metis fun_upd_other)
    have "r = UOK \<and> (\<forall>j < length (Buffers c). dirty (Buffers c ! j) \<longrightarrow>
        stable p' (bfile (Buffers c ! j)) = files p (bfile (Buffers c ! j)))" if ok: "code = UOK"
    proof -
      have r: "code1 = UOK" "r = UOK" using IH ok by (auto split: if_splits)
      have "stable p' (bfile (Buffers c ! j)) = files p (bfile (Buffers c ! j))"
        if j: "j < length (Buffers c)" "dirty (Buffers c ! j)" for j
      proof (cases "Buffers c1 ! j = Buffers c ! j")
        case True
        then show ?thesis using IH ok j R(2) S(1) by metis
      next
        case False
        then have "fl = bfile (Buffers c ! j)" using R(4)[OF j] by blast
        then show ?thesis using S(1,4) r IH by metis
      qed
      then show ?thesis using r by blast
    qed
    then show ?thesis using IH st log R(2) S(1,2) by metis
  qed
qed

lemma DSync_ok:
  assumes "DSync p c = (code, p', c')" and "flushed p c" and "stream_log p"
  shows "cache_ok p' c'" and "no_dirty c'" and "files p' = files p" and "buf_stream p' = buf_stream p"
    and "stable p' LOGFILE = stable p LOGFILE" and "stable p' g = stable p g \<or> stable p' g = files p g"
    and "code = UOK \<Longrightarrow> b \<in> set (Buffers c) \<Longrightarrow> dirty b \<Longrightarrow> stable p' (bfile b) = files p (bfile b)"
    and "length (Buffers c') = length (Buffers c)"
  using DSync_loop_ok[OF assms(1)[unfolded DSync_def] assms(2,3)] by (auto simp: in_set_conv_nth)

end
