(* ===== verification/Ubik_Disk.thy ===== *)
theory Ubik_Disk
  imports Ubik_Lock Ubik_Coherence
begin

text \<open>
  Local transactions (\<^verbatim>\<open>src/src/ubik/disk.c\<close>, the \<^verbatim>\<open>udisk_\<close> routines): the write-ahead
  log, reading and writing through the page cache, beginning, aborting and ending.
  Committing is in \<open>Ubik_Commit\<close>, since it depends on the state of the election.

  Transactions live in a heap (\<open>transes\<close>) and are named by their address; \<open>activeTrans\<close>
  is the list of \<^verbatim>\<open>dbase->activeTrans\<close>.  A transaction that has been freed has no entry.
\<close>

section \<open>State\<close>

record ubik_dbase =
  dphys :: phys
  dcache :: cache
  version :: ubik_version
  tidCounter :: int
  writeTidCounter :: int
  dbWriting :: bool
  readers :: int
  activeTrans :: "nat list"
  transes :: "nat \<Rightarrow> ubik_trans option"
  freshTrans :: nat
  rwlock :: lock
  cachedVersion :: ubik_version
  cache_lock :: lock

abbreviation tr :: "ubik_dbase \<Rightarrow> nat \<Rightarrow> ubik_trans" where
  "tr d t \<equiv> the (transes d t)"

definition upd_trans :: "ubik_dbase \<Rightarrow> nat \<Rightarrow> (ubik_trans \<Rightarrow> ubik_trans) \<Rightarrow> ubik_dbase" where
  "upd_trans d t f = d\<lparr>transes := (transes d)(t \<mapsto> f (tr d t))\<rparr>"

definition unthread :: "ubik_dbase \<Rightarrow> nat \<Rightarrow> ubik_dbase" where
  "unthread d t = d\<lparr>activeTrans := remove1 t (activeTrans d)\<rparr>"

section \<open>The log\<close>

abbreviation LOGNEW :: int where "LOGNEW \<equiv> 100"
abbreviation LOGEND :: int where "LOGEND \<equiv> 101"
abbreviation LOGABORT :: int where "LOGABORT \<equiv> 102"
abbreviation LOGDATA :: int where "LOGDATA \<equiv> 103"
abbreviation LOGTRUNCATE :: int where "LOGTRUNCATE \<equiv> 104"

definition udisk_LogOpcode :: "phys \<Rightarrow> int \<Rightarrow> bool \<Rightarrow> ucode \<times> phys" where
  "udisk_LogOpcode p aopcode async =
     (let (code, p1) = uphys_buf_append p LOGFILE (htonl_bytes aopcode) in
      if code \<noteq> 4 then (UERR UIOERROR, p1)
      else if async then uphys_sync p1 LOGFILE else (UOK, p1))"

definition udisk_LogEnd :: "phys \<Rightarrow> ubik_version \<Rightarrow> ucode \<times> phys" where
  "udisk_LogEnd p v =
     (let (code, p1) = uphys_buf_append p LOGFILE
            (htonl_bytes LOGEND @ htonl_bytes (epoch v) @ htonl_bytes (counter v)) in
      if code \<noteq> 12 then (UERR UIOERROR, p1) else uphys_sync p1 LOGFILE)"

definition udisk_LogTruncate :: "phys \<Rightarrow> int \<Rightarrow> int \<Rightarrow> ucode \<times> phys" where
  "udisk_LogTruncate p afile alength =
     (let (code, p1) = uphys_buf_append p LOGFILE
            (htonl_bytes LOGTRUNCATE @ htonl_bytes afile @ htonl_bytes alength) in
      if code \<noteq> 12 then (UERR UIOERROR, p1) else (UOK, p1))"

definition udisk_LogWriteData :: "phys \<Rightarrow> int \<Rightarrow> byte list \<Rightarrow> int \<Rightarrow> ucode \<times> phys" where
  "udisk_LogWriteData p afile abuffer apos =
     (let (code, p1) = uphys_buf_append p LOGFILE
            (htonl_bytes LOGDATA @ htonl_bytes afile @ htonl_bytes apos
             @ htonl_bytes (int (length abuffer))) in
      if code \<noteq> 16 then (UERR UIOERROR, p1)
      else let (code2, p2) = uphys_buf_append p1 LOGFILE abuffer
           in if code2 \<noteq> int (length abuffer) then (UERR UIOERROR, p2) else (UOK, p2))"

section \<open>Reading and writing\<close>

text \<open>How much of the remaining \<open>alen\<close> bytes lies on the page of \<open>apos\<close>.\<close>

definition page_part :: "int \<Rightarrow> int \<Rightarrow> int" where
  "page_part apos alen = min (int UBIK_PAGESIZE - apos mod int UBIK_PAGESIZE) alen"

lemma page_part_pos: "0 < alen \<Longrightarrow> 0 < page_part apos alen \<and> page_part apos alen \<le> alen"
proof -
  have "apos mod 1024 < (1024 :: int)" by simp
  then show "0 < alen \<Longrightarrow> ?thesis" by (simp add: page_part_def)
qed

function udisk_read_loop ::
  "phys \<Rightarrow> cache \<Rightarrow> trtype \<Rightarrow> int \<Rightarrow> int \<Rightarrow> int \<Rightarrow> ucode \<times> byte list \<times> phys \<times> cache" where
  "udisk_read_loop p c ty afile apos alen =
     (if alen \<le> 0 then (UOK, [], p, c)
      else case DRead p c ty afile (apos div int UBIK_PAGESIZE) of
        (None, p1, c1) \<Rightarrow> (UERR UEOF, [], p1, c1)
      | (Some i, p1, c1) \<Rightarrow>
          let offset = apos mod int UBIK_PAGESIZE;
              len = page_part apos alen;
              bs = take (nat len) (drop (nat offset) (bdata (Buffers c1 ! i)));
              (code, rest, p2, c2) =
                udisk_read_loop p1 (DRelease c1 i False) ty afile (apos + len) (alen - len)
          in (code, bs @ rest, p2, c2))"
  by pat_completeness auto
termination
  by (relation "measure (\<lambda>(p, c, ty, f, pos, alen). nat alen)") (auto simp: page_part_pos)

declare udisk_read_loop.simps [simp del]

definition udisk_read :: "ubik_dbase \<Rightarrow> nat \<Rightarrow> int \<Rightarrow> int \<Rightarrow> int \<Rightarrow> ucode \<times> byte list \<times> ubik_dbase" where
  "udisk_read d t afile apos alen =
     (if trDone (tr d t) then (UERR UDONE, [], d)
      else let (code, bs, p, c) =
             udisk_read_loop (dphys d) (dcache d) (ttype (tr d t)) afile apos alen
           in (code, bs, d\<lparr>dphys := p, dcache := c\<rparr>))"

definition FindTrunc :: "ubik_trans \<Rightarrow> int \<Rightarrow> int option" where
  "FindTrunc t afile = map_of (activeTruncs t) afile"

definition set_trunc :: "ubik_trans \<Rightarrow> int \<Rightarrow> int \<Rightarrow> ubik_trans" where
  "set_trunc t afile len =
     t\<lparr>activeTruncs := map (\<lambda>(f, l). if f = afile then (f, len) else (f, l)) (activeTruncs t)\<rparr>"

definition udisk_truncate :: "ubik_dbase \<Rightarrow> nat \<Rightarrow> int \<Rightarrow> int \<Rightarrow> ucode \<times> ubik_dbase" where
  "udisk_truncate d t afile alength =
     (if trDone (tr d t) then (UERR UDONE, d)
      else if ttype (tr d t) \<noteq> UBIK_WRITETRANS then (UERR UBADTYPE, d)
      else let (code, p) = udisk_LogTruncate (dphys d) afile alength;
               d1 = d\<lparr>dphys := p\<rparr>
           in (code, upd_trans d1 t (\<lambda>tt. case FindTrunc tt afile of
                 None \<Rightarrow> tt\<lparr>activeTruncs := (afile, alength) # activeTruncs tt\<rparr>
               | Some l \<Rightarrow> if alength < l then set_trunc tt afile alength else tt)))"

function udisk_write_loop ::
  "phys \<Rightarrow> cache \<Rightarrow> trtype \<Rightarrow> int \<Rightarrow> int \<Rightarrow> byte list \<Rightarrow> ucode \<times> phys \<times> cache" where
  "udisk_write_loop p c ty afile apos abuffer =
     (if abuffer = [] then (UOK, p, c)
      else let page = apos div int UBIK_PAGESIZE;
               (r1, p1, c1) = DRead p c ty afile page;
               (r, c2) = (case r1 of None \<Rightarrow> DNew c1 afile page | Some i \<Rightarrow> (Some i, c1))
           in case r of
             None \<Rightarrow> (UERR UIOERROR, p1, c2)
           | Some i \<Rightarrow>
               let offset = apos mod int UBIK_PAGESIZE;
                   len = page_part apos (int (length abuffer));
                   c3 = upd_buf c2 i (\<lambda>b. b\<lparr>bdata := pwrite (bdata b) (nat offset) (take (nat len) abuffer)\<rparr>)
               in udisk_write_loop p1 (DRelease c3 i True) ty afile (apos + len) (drop (nat len) abuffer))"
  by pat_completeness auto
termination
proof (relation "measure (\<lambda>(p, c, ty, f, pos, bs). length bs)", goal_cases)
  case (2 p c ty afile apos abuffer)
  then have "0 < page_part apos (int (length abuffer))" using page_part_pos by simp
  then show ?case using 2 by simp
qed simp

declare udisk_write_loop.simps [simp del]

definition udisk_write :: "ubik_dbase \<Rightarrow> nat \<Rightarrow> int \<Rightarrow> byte list \<Rightarrow> int \<Rightarrow> ucode \<times> ubik_dbase" where
  "udisk_write d t afile abuffer apos =
     (if trDone (tr d t) then (UERR UDONE, d)
      else if ttype (tr d t) \<noteq> UBIK_WRITETRANS then (UERR UBADTYPE, d)
      else let (code, p1) = udisk_LogWriteData (dphys d) afile abuffer apos in
        if code \<noteq> UOK then (code, d\<lparr>dphys := p1\<rparr>)
        else
          let d1 = upd_trans (d\<lparr>dphys := p1\<rparr>) t (\<lambda>tt. case FindTrunc tt afile of
                     None \<Rightarrow> tt
                   | Some l \<Rightarrow> if l < apos + int (length abuffer)
                               then set_trunc tt afile (apos + int (length abuffer)) else tt);
              (code2, p2, c2) = udisk_write_loop (dphys d1) (dcache d1) (ttype (tr d t)) afile apos abuffer
          in (code2, d1\<lparr>dphys := p2, dcache := c2\<rparr>))"

section \<open>Beginning, aborting, ending\<close>

definition udisk_begin :: "ubik_dbase \<Rightarrow> trtype \<Rightarrow> ucode \<times> nat option \<times> ubik_dbase" where
  "udisk_begin d atype =
     (let (code, d1) =
        (if atype = UBIK_WRITETRANS
         then if dbWriting d then (UERR USYNC, d)
              else let (code, p) = udisk_LogOpcode (dphys d) LOGNEW False in (code, d\<lparr>dphys := p\<rparr>)
         else (UOK, d)) in
      if code \<noteq> UOK then (code, None, d1)
      else let t = freshTrans d1 in
        (UOK, Some t,
         d1\<lparr>freshTrans := t + 1, transes := (transes d1)(t \<mapsto> new_trans atype),
            activeTrans := t # activeTrans d1,
            readers := (if atype = UBIK_READTRANS then readers d1 + 1 else readers d1),
            dbWriting := (dbWriting d1 \<or> atype = UBIK_WRITETRANS)\<rparr>))"

definition udisk_abort :: "ubik_dbase \<Rightarrow> nat \<Rightarrow> ucode \<times> ubik_dbase" where
  "udisk_abort d t =
     (if trDone (tr d t) then (UERR UTWOENDS, d)
      else let (code, d1) =
        (if ttype (tr d t) = UBIK_WRITETRANS \<and> dbWriting d
         then let (_, p1) = udisk_LogOpcode (dphys d) LOGABORT True;
                  (code, p2) = uphys_truncate p1 LOGFILE 0
              in if code \<noteq> UOK then (UPANIC, d\<lparr>dphys := p2\<rparr>)
                 else (UOK, d\<lparr>dphys := p2, dcache := DAbort (dcache d)\<rparr>)
         else (UOK, d)) in
      if code \<noteq> UOK then (code, d1)
      else (UOK, upd_trans d1 t (\<lambda>tt. tt\<lparr>trAbort := True, trDone := True\<rparr>)))"

definition udisk_end :: "ubik_dbase \<Rightarrow> nat \<Rightarrow> ucode \<times> ubik_dbase" where
  "udisk_end d t =
     (let (code1, d1) = (if \<not> trDone (tr d t) then udisk_abort d t else (UOK, d)) in
      if code1 = UPANIC then (UPANIC, d1)
      else let (code2, t2, l2) = ulock_relLock (tr d1 t) (rwlock d1) in
        if code2 = UPANIC then (UPANIC, d1)
        else let d2 = unthread (upd_trans (d1\<lparr>rwlock := l2\<rparr>) t (\<lambda>_. t2)) t;
                 d3 = (if ttype t2 = UBIK_WRITETRANS \<and> dbWriting d2 then d2\<lparr>dbWriting := False\<rparr>
                       else d2\<lparr>readers := readers d2 - 1\<rparr>)
             in (UOK, d3\<lparr>transes := (transes d3)(t := None)\<rparr>))"

text \<open>The truncations of a transaction, done at commit.\<close>

fun DoTruncs_loop :: "phys \<Rightarrow> cache \<Rightarrow> (int \<times> int) list \<Rightarrow> ucode \<Rightarrow> ucode \<times> phys \<times> cache" where
  "DoTruncs_loop p c [] rcode = (rcode, p, c)"
| "DoTruncs_loop p c ((f, len) # tts) rcode =
     (let c1 = DTrunc c f len;
          (code, p1) = uphys_truncate p f len
      in DoTruncs_loop p1 c1 tts (if code \<noteq> UOK then code else rcode))"

definition DoTruncs :: "ubik_dbase \<Rightarrow> nat \<Rightarrow> ucode \<times> ubik_dbase" where
  "DoTruncs d t =
     (let (code, p, c) = DoTruncs_loop (dphys d) (dcache d) (activeTruncs (tr d t)) UOK
      in (code, upd_trans (d\<lparr>dphys := p, dcache := c\<rparr>) t (\<lambda>tt. tt\<lparr>activeTruncs := []\<rparr>)))"

definition udisk_Debug :: "ubik_dbase \<Rightarrow> ubik_version \<times> nat \<times> nat" where
  "udisk_Debug d =
     (let locked = filter (\<lambda>b. lockers b \<noteq> 0) (Buffers (dcache d))
      in (version d, length locked, length (filter dirty locked)))"

end
