(* ===== verification/Ubik_Replay.thy ===== *)
theory Ubik_Replay
  imports Ubik_Disk
begin

text \<open>
  Replaying the log when a server starts (\<^verbatim>\<open>src/src/ubik/recovery.c\<close>, \<^verbatim>\<open>ReplayLog\<close>,
  \<^verbatim>\<open>InitializeDB\<close> and \<^verbatim>\<open>urecovery_Initialize\<close>).

  The two passes over the log are loops that need not end on a damaged log (a data
  record whose length is -16 sends the first pass back to itself), so they are
  partial functions: \<open>None\<close> means that the loop runs for ever.
\<close>

section \<open>The two passes\<close>

text \<open>The first pass looks for a commit record: is the log good?\<close>

partial_function (option) replay_pass1 :: "phys \<Rightarrow> int \<Rightarrow> (bool \<times> phys) option" where
  "replay_pass1 p tpos =
     (case uphys_read p LOGFILE tpos 4 of (code, bs, p1) \<Rightarrow>
      if code \<noteq> 4 then Some (False, p1)
      else if ntohl_bytes bs = LOGNEW then replay_pass1 p1 (tpos + 4)
      else if ntohl_bytes bs = LOGABORT then Some (False, p1)
      else if ntohl_bytes bs = LOGEND then Some (True, p1)
      else if ntohl_bytes bs = LOGTRUNCATE then
        (case uphys_read p1 LOGFILE (tpos + 4) 8 of (code2, bs2, p2) \<Rightarrow>
         if code2 \<noteq> 8 then Some (False, p2) else replay_pass1 p2 (tpos + 12))
      else if ntohl_bytes bs = LOGDATA then
        (case uphys_read p1 LOGFILE (tpos + 4) 12 of (code2, bs2, p2) \<Rightarrow>
         if code2 \<noteq> 12 then Some (False, p2)
         else replay_pass1 p2 (int32 (tpos + 4 + ntohl_bytes (drop 8 bs2) + 12)))
      else Some (False, p1))"

text \<open>Copying \<open>len\<close> bytes of the log into a file, 4096 at a time.\<close>

function replay_copy :: "phys \<Rightarrow> int \<Rightarrow> int \<Rightarrow> int \<Rightarrow> int \<Rightarrow> ucode \<times> phys" where
  "replay_copy p tpos tfile filePos len =
     (if len \<le> 0 then (UOK, p)
      else let thisSize = min len 4096;
               (code, data, p1) = uphys_read p LOGFILE tpos (nat thisSize)
           in if code \<noteq> thisSize then (UERR UBADLOG, p1)
              else let (code2, p2) = uphys_write p1 tfile data filePos
                   in if code2 \<noteq> thisSize then (UERR UBADLOG, p2)
                      else replay_copy p2 (tpos + thisSize) tfile (filePos + thisSize) (len - thisSize))"
  by pat_completeness auto
termination
  by (relation "measure (\<lambda>(p, tpos, f, pos, len). nat len)") auto

declare replay_copy.simps [simp del]

text \<open>
  The second pass: \<open>Some code\<close> is a return from \<^verbatim>\<open>ReplayLog\<close>, \<open>None\<close> the end of the loop
  with \<^verbatim>\<open>logIsGood\<close> and \<^verbatim>\<open>syncFile\<close>.
\<close>

partial_function (option) replay_pass2 ::
  "phys \<Rightarrow> int \<Rightarrow> int \<Rightarrow> (ucode option \<times> bool \<times> int \<times> phys) option" where
  "replay_pass2 p tpos syncFile =
     (case uphys_read p LOGFILE tpos 4 of (code, bs, p1) \<Rightarrow>
      if code \<noteq> 4 then Some (None, False, syncFile, p1)
      else if ntohl_bytes bs = LOGNEW then replay_pass2 p1 (tpos + 4) syncFile
      else if ntohl_bytes bs = LOGABORT then Some (Some UPANIC, False, syncFile, p1)
      else if ntohl_bytes bs = LOGEND then
        (case uphys_read p1 LOGFILE (tpos + 4) 8 of (code2, bs2, p2) \<Rightarrow>
         if code2 \<noteq> 8 then Some (Some (UERR UBADLOG), False, syncFile, p2)
         else case uphys_setlabel p2 0 \<lparr>epoch = ntohl_bytes (take 4 bs2), counter = ntohl_bytes (drop 4 bs2)\<rparr> of
           (code3, p3) \<Rightarrow> if code3 \<noteq> UOK then Some (Some code3, False, syncFile, p3)
                           else Some (None, True, syncFile, p3))
      else if ntohl_bytes bs = LOGTRUNCATE then
        (case uphys_read p1 LOGFILE (tpos + 4) 8 of (code2, bs2, p2) \<Rightarrow>
         if code2 \<noteq> 8 then Some (None, False, syncFile, p2)
         else case uphys_truncate p2 (ntohl_bytes (take 4 bs2)) (ntohl_bytes (drop 4 bs2)) of
           (code3, p3) \<Rightarrow> if code3 \<noteq> UOK then Some (Some code3, False, syncFile, p3)
                           else replay_pass2 p3 (tpos + 12) syncFile)
      else if ntohl_bytes bs = LOGDATA then
        (case uphys_read p1 LOGFILE (tpos + 4) 12 of (code2, bs2, p2) \<Rightarrow>
         if code2 \<noteq> 12 then Some (None, False, syncFile, p2)
         else case (if syncFile \<noteq> ntohl_bytes (take 4 bs2) \<and> 0 \<le> syncFile
                    then uphys_sync p2 syncFile else (UOK, p2)) of
           (code3, p3) \<Rightarrow>
             if code3 \<noteq> UOK then Some (Some code3, False, ntohl_bytes (take 4 bs2), p3)
             else case replay_copy p3 (tpos + 16) (ntohl_bytes (take 4 bs2))
                         (ntohl_bytes (take 4 (drop 4 bs2))) (ntohl_bytes (drop 8 bs2)) of
               (code4, p4) \<Rightarrow>
                 if code4 \<noteq> UOK then Some (Some code4, False, ntohl_bytes (take 4 bs2), p4)
                 else replay_pass2 p4 (tpos + 16 + max 0 (ntohl_bytes (drop 8 bs2))) (ntohl_bytes (take 4 bs2)))
      else Some (None, False, syncFile, p1))"

definition ReplayLog :: "phys \<Rightarrow> (ucode \<times> phys) option" where
  "ReplayLog p =
     (case replay_pass1 p 0 of
        None \<Rightarrow> None
      | Some (good, p1) \<Rightarrow>
          if \<not> good then Some (uphys_truncate p1 LOGFILE 0)
          else case replay_pass2 p1 0 (- 1) of
            None \<Rightarrow> None
          | Some (Some code, _, _, p2) \<Rightarrow> Some (code, p2)
          | Some (None, False, _, p2) \<Rightarrow> Some (UERR UBADLOG, p2)
          | Some (None, True, syncFile, p2) \<Rightarrow>
              let (code, p3) = (if 0 \<le> syncFile then uphys_sync p2 syncFile else (UOK, p2))
              in if code \<noteq> UOK then Some (code, p3) else Some (uphys_truncate p3 LOGFILE 0))"

section \<open>Start-up\<close>

definition InitializeDB :: "ubik_dbase \<Rightarrow> ucode \<times> ubik_dbase" where
  "InitializeDB d =
     (let (code, v, p1) = uphys_getlabel (dphys d) 0 in
      if code = UOK then (UOK, d\<lparr>dphys := p1, version := v\<rparr>)
      else let v1 = \<lparr>epoch = 1, counter = 1\<rparr>;
               (code2, p2) = uphys_setlabel p1 0 v1
           in if code2 = UOK then (UOK, d\<lparr>dphys := p2, version := v1\<rparr>)
              else let v0 = \<lparr>epoch = 0, counter = 0\<rparr>;
                       (_, p3) = uphys_setlabel p2 0 v0
                   in (UOK, d\<lparr>dphys := p3, version := v0\<rparr>))"

definition urecovery_Initialize :: "ubik_dbase \<Rightarrow> (ucode \<times> ubik_dbase) option" where
  "urecovery_Initialize d =
     (case ReplayLog (dphys d) of
        None \<Rightarrow> None
      | Some (code, p) \<Rightarrow>
          if code \<noteq> UOK then Some (code, d\<lparr>dphys := p\<rparr>) else Some (InitializeDB (d\<lparr>dphys := p\<rparr>)))"

section \<open>Log records\<close>

text \<open>The records of a log and their bytes, as the logging routines of \<^verbatim>\<open>disk.c\<close> write them.\<close>

datatype lrec = LNew | LEnd ubik_version | LAbort | LData int int "byte list" | LTrunc int int

fun enc :: "lrec \<Rightarrow> byte list" where
  "enc LNew = htonl_bytes LOGNEW"
| "enc (LEnd v) = htonl_bytes LOGEND @ htonl_bytes (epoch v) @ htonl_bytes (counter v)"
| "enc LAbort = htonl_bytes LOGABORT"
| "enc (LData f pos bs) = htonl_bytes LOGDATA @ htonl_bytes f @ htonl_bytes pos
                          @ htonl_bytes (int (length bs)) @ bs"
| "enc (LTrunc f len) = htonl_bytes LOGTRUNCATE @ htonl_bytes f @ htonl_bytes len"

definition encs :: "lrec list \<Rightarrow> byte list" where
  "encs rs = concat (map enc rs)"

section \<open>Reading a written log\<close>

definition logbytes :: "phys \<Rightarrow> byte list" where
  "logbytes p = drop 64 (files p LOGFILE)"

text \<open>Without faults and without an open stream.\<close>

definition quiet :: "phys \<Rightarrow> bool" where
  "quiet p \<longleftrightarrow> faults p = [] \<and> buf_stream p = None"

lemma read_log:
  assumes "quiet p" and "0 \<le> pos"
  shows "uphys_read p LOGFILE pos n = (int (min n (length (logbytes p) - nat pos)),
    take n (drop (nat pos) (logbytes p)), p)"
proof -
  have "nat (pos + 64) = 64 + nat pos" using assms(2) by simp
  then show ?thesis using assms
    by (simp add: uphys_read_def logbytes_def pread_def quiet_def Let_def add.commute)
qed

fun rec_ok :: "lrec \<Rightarrow> bool" where
  "rec_ok LNew = True"
| "rec_ok (LData f pos bs) = (0 \<le> f \<and> fits32 f \<and> 0 \<le> pos \<and> fits32 pos \<and> fits32 (int (length bs)))"
| "rec_ok _ = False"

lemma encs_simps [simp]: "encs [] = []" "encs (r # rs) = enc r @ encs rs" "encs (rs @ rs') = encs rs @ encs rs'"
  by (simp_all add: encs_def)

lemma int32_opcode [simp]:
  "int32 100 = 100" "int32 101 = 101" "int32 102 = 102" "int32 103 = 103" "int32 104 = 104"
  by (simp_all add: int32_def)

lemma pass1_short:
  assumes "quiet p" and "length (logbytes p) < off + 4"
  shows "replay_pass1 p (int off) = Some (False, p)"
proof -
  obtain k bs where "uphys_read p LOGFILE (int off) 4 = (k, bs, p)" and "k \<noteq> 4"
    using assms by (simp add: read_log)
  then show ?thesis by (subst replay_pass1.simps) simp
qed

lemma pass1_new:
  assumes "quiet p" and "logbytes p = pre @ enc LNew @ post"
  shows "replay_pass1 p (int (length pre)) = replay_pass1 p (int (length pre + 4))"
  using assms by (subst replay_pass1.simps) (simp add: read_log add.commute)

lemma pass1_end:
  assumes "quiet p" and "logbytes p = pre @ htonl_bytes LOGEND @ post"
  shows "replay_pass1 p (int (length pre)) = Some (True, p)"
  using assms by (subst replay_pass1.simps) (simp add: read_log add.commute)

lemma pass1_abort:
  assumes "quiet p" and "logbytes p = pre @ htonl_bytes LOGABORT @ post"
  shows "replay_pass1 p (int (length pre)) = Some (False, p)"
  using assms by (subst replay_pass1.simps) (simp add: read_log add.commute)

lemma pass1_data:
  assumes "quiet p" and "logbytes p = pre @ htonl_bytes LOGDATA @ hb @ post" and "length hb = 12"
    and "ntohl_bytes (drop 8 hb) = int n" and "length pre + 16 + n < 2147483648"
  shows "replay_pass1 p (int (length pre)) = replay_pass1 p (int (length pre + 16 + n))"
proof -
  have "nat (int (length pre) + 4) = length pre + 4" by simp
  moreover have "int32 (int (length pre) + 4 + int n + 12) = int (length pre + 16 + n)"
    using assms(5) by (subst int32_fits) (auto simp: fits32_def)
  ultimately show ?thesis
    using assms by (subst replay_pass1.simps) (simp add: read_log)
qed

lemma pass1_data_short:
  assumes "quiet p" and "logbytes p = pre @ htonl_bytes LOGDATA @ hb" and "length hb < 12"
  shows "replay_pass1 p (int (length pre)) = Some (False, p)"
proof -
  have "nat (int (length pre) + 4) = length pre + 4" by simp
  then show ?thesis
    using assms by (subst replay_pass1.simps) (simp add: read_log)
qed

text \<open>
  The first pass over the image of a log: it skips complete records, and stops as soon
  as one is incomplete.
\<close>

lemma pass1_records:
  assumes "quiet p" and "\<forall>r \<in> set rs. rec_ok r" and "logbytes p = pre @ take n (encs rs @ tail)"
    and "length pre + length (encs rs) < 2147483648"
  shows "replay_pass1 p (int (length pre)) =
    (if length (encs rs) \<le> n then replay_pass1 p (int (length pre + length (encs rs))) else Some (False, p))"
  using assms
proof (induction rs arbitrary: pre n)
  case Nil
  then show ?case by simp
next
  case (Cons r rs)
  show ?case
  proof (cases "n < 4")
    case True
    then have "4 \<le> length (enc r)" using Cons.prems(2) by (cases r) auto
    then show ?thesis using pass1_short[OF Cons.prems(1), of "length pre"] Cons.prems(3) True by simp
  next
    case n4: False
    show ?thesis
    proof (cases r)
      case LNew
      have lg: "logbytes p = pre @ enc LNew @ take (n - 4) (encs rs @ tail)"
        using Cons.prems(3) n4 LNew by simp
      have "replay_pass1 p (int (length (pre @ enc LNew))) = (if length (encs rs) \<le> n - 4
          then replay_pass1 p (int (length (pre @ enc LNew) + length (encs rs))) else Some (False, p))"
        by (rule Cons.IH) (use Cons.prems lg LNew in auto)
      then show ?thesis using pass1_new[OF Cons.prems(1) lg] n4 LNew by (auto simp: algebra_simps)
    next
      case (LData f pos bs)
      let ?hb = "htonl_bytes f @ htonl_bytes pos @ htonl_bytes (int (length bs))"
      have l16: "length (enc r) = 16 + length bs" using LData by simp
      show ?thesis
      proof (cases "n < 16")
        case True
        have "logbytes p = pre @ htonl_bytes LOGDATA @ take (n - 4) ?hb"
          using Cons.prems(3) n4 True LData by (simp add: take_append)
        from pass1_data_short[OF Cons.prems(1) this] True l16 show ?thesis by simp
      next
        case n16: False
        have lg: "logbytes p = pre @ htonl_bytes LOGDATA @ ?hb @ take (n - 16) (bs @ encs rs @ tail)"
          using Cons.prems(3) n16 LData by (simp add: take_append)
        have len: "ntohl_bytes (drop 8 ?hb) = int (length bs)"
          using Cons.prems(2) LData by simp
        have jump: "replay_pass1 p (int (length pre)) = replay_pass1 p (int (length pre + 16 + length bs))"
          by (rule pass1_data[OF Cons.prems(1) lg _ len]) (use Cons.prems(4) l16 in auto)
        show ?thesis
        proof (cases "16 + length bs \<le> n")
          case True
          let ?pre = "pre @ enc r"
          have "logbytes p = ?pre @ take (n - length (enc r)) (encs rs @ tail)"
            using lg True LData n16 by (simp add: take_append)
          then have "replay_pass1 p (int (length ?pre)) = (if length (encs rs) \<le> n - length (enc r)
              then replay_pass1 p (int (length ?pre + length (encs rs))) else Some (False, p))"
            by (intro Cons.IH) (use Cons.prems in auto)
          then show ?thesis using jump True l16 by (auto simp: algebra_simps)
        next
          case False
          then have "length (logbytes p) < length pre + 16 + length bs + 4" using lg by simp
          from pass1_short[OF Cons.prems(1) this] jump False l16 show ?thesis by simp
        qed
      qed
    qed (use Cons.prems(2) in auto)
  qed
qed


section \<open>Applying a log\<close>

lemma file_eqI: "length f = length g \<Longrightarrow> (\<And>i. fbyte f i = fbyte g i) \<Longrightarrow> f = g"
  by (rule nth_equalityI) (auto simp: fbyte_def split: if_splits, metis)

lemma pwrite_Nil [simp]: "pwrite f pos [] = f"
  by (simp add: pwrite_def)

lemma pwrite_append:
  "pwrite (pwrite f pos xs) (pos + length xs) ys = pwrite f pos (xs @ ys)"
proof (cases "xs = [] \<or> ys = []")
  case True
  then show ?thesis by auto
next
  case False
  then show ?thesis
    by (intro file_eqI) (auto simp: length_pwrite fbyte_pwrite nth_append)
qed

lemma set_file_files [simp]: "set_file p f (files p f) = p"
  by (simp add: set_file_def)

lemma set_file_set_file [simp]: "set_file (set_file p f a) f b = set_file p f b"
  by (simp add: set_file_def)

lemma files_set_file [simp]: "files (set_file p f a) g = (if g = f then a else files p g)"
  by (simp add: set_file_def)

lemma quiet_set_file [simp]: "quiet (set_file p f a) = quiet p"
  by (simp add: quiet_def set_file_def)

lemma logbytes_set_file [simp]: "f \<noteq> LOGFILE \<Longrightarrow> logbytes (set_file p f a) = logbytes p"
  by (simp add: logbytes_def)

lemma quiet_write:
  "quiet p \<Longrightarrow> 0 \<le> pos \<Longrightarrow> uphys_write p f bs pos =
     (int (length bs), set_file p f (pwrite (files p f) (nat (pos + 64)) bs))"
  by (simp add: uphys_write_def quiet_def Let_def)

lemma quiet_sync: "quiet p \<Longrightarrow> uphys_sync p f = (UOK, fsync p f)"
  by (simp add: uphys_sync_def uphys_buf_flush_def quiet_def Let_def)

lemma fsync_sel [simp]: "files (fsync p f) = files p" "quiet (fsync p f) = quiet p" "logbytes (fsync p f) = logbytes p"
  by (simp_all add: fsync_def quiet_def logbytes_def)

lemma replay_copy_ok:
  assumes "quiet p" and "logbytes p = pre @ bs @ post" and "0 \<le> f" and "0 \<le> pos"
  shows "replay_copy p (int (length pre)) f pos (int (length bs)) =
    (UOK, set_file p f (pwrite (files p f) (nat (pos + 64)) bs))"
  using assms
proof (induction "length bs" arbitrary: p pre bs pos rule: less_induct)
  case less
  show ?case
  proof (cases "bs = []")
    case True
    then show ?thesis by (simp add: replay_copy.simps)
  next
    case False
    let ?n = "min (length bs) 4096"
    let ?p = "set_file p f (pwrite (files p f) (nat (pos + 64)) (take ?n bs))"
    have n: "min (int (length bs)) 4096 = int ?n" by (simp add: min_def)
    have rd: "uphys_read p LOGFILE (int (length pre)) ?n = (int ?n, take ?n bs, p)"
      using less.prems(1,2) by (simp add: read_log)
    have wr: "uphys_write p f (take ?n bs) pos = (int ?n, ?p)"
      using less.prems(1,4) by (simp add: quiet_write)
    have step: "replay_copy p (int (length pre)) f pos (int (length bs)) =
        replay_copy ?p (int (length (pre @ take ?n bs))) f (pos + int ?n) (int (length (drop ?n bs)))"
      using False rd wr by (subst replay_copy.simps) (simp add: n of_nat_diff Let_def)
    have "\<dots> = (UOK, set_file ?p f (pwrite (files ?p f) (nat (pos + int ?n + 64)) (drop ?n bs)))"
      by (rule less.hyps) (use False less.prems in auto)
    moreover have "nat (pos + int ?n + 64) = nat (pos + 64) + length (take ?n bs)"
      using less.prems(4) by simp
    ultimately show ?thesis
      using step pwrite_append[of "files p f" "nat (pos + 64)" "take ?n bs" "drop ?n bs"] by simp
  qed
qed

text \<open>One data record: \<open>syncFile\<close> is synced when the file changes.\<close>

definition replay_data :: "phys \<Rightarrow> int \<Rightarrow> int \<Rightarrow> int \<Rightarrow> byte list \<Rightarrow> phys" where
  "replay_data p sf f pos bs =
     (let p1 = (if sf \<noteq> f \<and> 0 \<le> sf then fsync p sf else p)
      in set_file p1 f (pwrite (files p f) (nat (pos + 64)) bs))"

lemma pass2_new:
  assumes "quiet p" and "logbytes p = pre @ enc LNew @ post"
  shows "replay_pass2 p (int (length pre)) sf = replay_pass2 p (int (length pre + 4)) sf"
  using assms by (subst replay_pass2.simps) (simp add: read_log add.commute)

lemma pass2_data:
  assumes q: "quiet p" and l: "logbytes p = pre @ enc (LData f pos bs) @ post" and ok: "rec_ok (LData f pos bs)"
  shows "replay_pass2 p (int (length pre)) sf =
    replay_pass2 (replay_data p sf f pos bs) (int (length pre + length (enc (LData f pos bs)))) f"
proof -
  let ?p1 = "if sf \<noteq> f \<and> 0 \<le> sf then fsync p sf else p"
  let ?hb = "htonl_bytes LOGDATA @ htonl_bytes f @ htonl_bytes pos @ htonl_bytes (int (length bs))"
  have lg: "logbytes p = (pre @ ?hb) @ bs @ post" using l by simp
  have n: "nat (int (length pre) + 4) = length pre + 4" by simp
  have r1: "uphys_read p LOGFILE (int (length pre)) 4 = (4, htonl_bytes LOGDATA, p)"
    using q l by (simp add: read_log)
  have r2: "uphys_read p LOGFILE (int (length pre) + 4) 12 =
      (12, htonl_bytes f @ htonl_bytes pos @ htonl_bytes (int (length bs)), p)"
    using q l by (simp add: read_log n)
  have sy: "(if sf \<noteq> f \<and> 0 \<le> sf then uphys_sync p sf else (UOK, p)) = (UOK, ?p1)"
    using q by (simp add: quiet_sync)
  have q1: "quiet ?p1" "logbytes ?p1 = (pre @ ?hb) @ bs @ post" using q lg by auto
  have "replay_copy ?p1 (int (length (pre @ ?hb))) f pos (int (length bs)) =
      (UOK, set_file ?p1 f (pwrite (files ?p1 f) (nat (pos + 64)) bs))"
    by (rule replay_copy_ok[OF q1]) (use ok in auto)
  moreover have "files ?p1 f = files p f" by simp
  ultimately have cp: "replay_copy ?p1 (int (length pre) + 16) f pos (int (length bs)) = (UOK, replay_data p sf f pos bs)"
    by (simp add: replay_data_def Let_def)
  show ?thesis
    using ok by (subst replay_pass2.simps) (simp add: r1 r2 sy cp add.assoc)
qed


fun replay_recs :: "phys \<Rightarrow> int \<Rightarrow> lrec list \<Rightarrow> phys \<times> int" where
  "replay_recs p sf [] = (p, sf)"
| "replay_recs p sf (LData f pos bs # rs) = replay_recs (replay_data p sf f pos bs) f rs"
| "replay_recs p sf (_ # rs) = replay_recs p sf rs"

text \<open>A database as bytes, and what a log does to it.\<close>

type_synonym store = "int \<Rightarrow> nat \<Rightarrow> byte"

fun apply_rec :: "lrec \<Rightarrow> store \<Rightarrow> store" where
  "apply_rec (LData f pos bs) D =
     D(f := \<lambda>k. if nat pos \<le> k \<and> k < nat pos + length bs then bs ! (k - nat pos) else D f k)"
| "apply_rec _ D = D"

definition apply_recs :: "lrec list \<Rightarrow> store \<Rightarrow> store" where
  "apply_recs rs D = fold apply_rec rs D"

lemma apply_recs_simps [simp]:
  "apply_recs [] D = D" "apply_recs (r # rs) D = apply_recs rs (apply_rec r D)"
  "apply_recs (rs @ rs') D = apply_recs rs' (apply_recs rs D)"
  by (simp_all add: apply_recs_def)

lemma replay_data_frame [simp]:
  "quiet (replay_data p sf f pos bs) = quiet p"
  "f \<noteq> LOGFILE \<Longrightarrow> logbytes (replay_data p sf f pos bs) = logbytes p"
  "f \<noteq> LOGFILE \<Longrightarrow> files (replay_data p sf f pos bs) LOGFILE = files p LOGFILE"
  by (simp_all add: replay_data_def Let_def)

lemma replay_data_view:
  "0 \<le> pos \<Longrightarrow> disk_byte (replay_data p sf f pos bs) = apply_rec (LData f pos bs) (disk_byte p)"
proof (intro ext)
  fix g k
  assume "0 \<le> pos"
  then have "nat (pos + 64) = nat pos + 64" by simp
  then show "disk_byte (replay_data p sf f pos bs) g k = apply_rec (LData f pos bs) (disk_byte p) g k"
    by (auto simp: disk_byte_def replay_data_def Let_def fbyte_pwrite)
qed

lemma replay_recs_frame:
  assumes "replay_recs p sf rs = (p', sf')" and "\<forall>r \<in> set rs. rec_ok r"
  shows "quiet p' = quiet p" and "logbytes p' = logbytes p" and "files p' LOGFILE = files p LOGFILE"
    and "disk_byte p' = apply_recs rs (disk_byte p)"
proof -
  have "quiet p' = quiet p \<and> logbytes p' = logbytes p \<and> files p' LOGFILE = files p LOGFILE \<and>
      disk_byte p' = apply_recs rs (disk_byte p)"
    using assms
  proof (induction p sf rs rule: replay_recs.induct)
    case (2 p sf f pos bs rs)
    then have "0 \<le> f" "0 \<le> pos" by auto
    with 2 show ?case by (auto simp: replay_data_view simp del: apply_rec.simps)
  qed auto
  then show "quiet p' = quiet p" "logbytes p' = logbytes p" "files p' LOGFILE = files p LOGFILE"
    "disk_byte p' = apply_recs rs (disk_byte p)" by auto
qed

lemma pass2_records:
  assumes "quiet p" and "\<forall>r \<in> set rs. rec_ok r" and "logbytes p = pre @ encs rs @ tail"
    and "replay_recs p sf rs = (p', sf')"
  shows "replay_pass2 p (int (length pre)) sf = replay_pass2 p' (int (length pre + length (encs rs))) sf'"
  using assms
proof (induction p sf rs arbitrary: pre rule: replay_recs.induct[case_names Nil Data New End Abort Trunc])
  case (Data p sf f pos bs rs)
  have ok: "rec_ok (LData f pos bs)" using Data(3) by simp
  have lg: "logbytes p = pre @ enc (LData f pos bs) @ (encs rs @ tail)" using Data(4) by simp
  have "replay_pass2 (replay_data p sf f pos bs) (int (length (pre @ enc (LData f pos bs)))) f =
      replay_pass2 p' (int (length (pre @ enc (LData f pos bs)) + length (encs rs))) sf'"
    by (rule Data(1)) (use Data ok in auto)
  then show ?case using pass2_data[OF Data(2) lg ok, of sf] by (simp add: add.assoc)
next
  case (New p sf rs)
  have lg: "logbytes p = pre @ enc LNew @ (encs rs @ tail)" using New(4) by simp
  have "replay_pass2 p (int (length (pre @ enc LNew))) sf =
      replay_pass2 p' (int (length (pre @ enc LNew) + length (encs rs))) sf'"
    by (rule New(1)) (use New in auto)
  then show ?case using pass2_new[OF New(2) lg, of sf] by (simp add: add.assoc)
qed auto

lemma quiet_truncate: "quiet p \<Longrightarrow> uphys_truncate p f n = (UOK, set_file p f (ftruncate (files p f) (nat (n + 64))))"
  by (simp add: uphys_truncate_def uphys_buf_flush_def quiet_def Let_def)

definition log_cut :: "phys \<Rightarrow> phys" where
  "log_cut p = set_file p LOGFILE (ftruncate (files p LOGFILE) 64)"

lemma quiet_truncate_log [simp]: "quiet p \<Longrightarrow> uphys_truncate p LOGFILE 0 = (UOK, log_cut p)"
  by (simp add: quiet_truncate log_cut_def)

lemma quiet_setlabel:
  "quiet p \<Longrightarrow> uphys_setlabel p f v = (UOK, fsync (set_file p f (pwrite (files p f) 0 (hdr_bytes v))) f)"
  by (simp add: uphys_setlabel_def quiet_def Let_def set_file_def fsync_def)

lemma length_hdr_bytes [simp]: "length (hdr_bytes v) = 16"
  by (simp add: hdr_bytes_def)

lemma disk_byte_log [simp]: "disk_byte (set_file p f (pwrite (files p f) 0 (hdr_bytes v))) = disk_byte p"
  by (intro ext) (auto simp: disk_byte_def fbyte_pwrite)

lemma disk_byte_fsync [simp]: "disk_byte (fsync p f) = disk_byte p"
  by (simp add: disk_byte_def fun_eq_iff)

lemma disk_byte_log_cut: "f \<noteq> LOGFILE \<Longrightarrow> disk_byte (log_cut p) f = disk_byte p f"
  by (simp add: disk_byte_def log_cut_def fun_eq_iff)

text \<open>A log without a complete commit opcode changes nothing.\<close>

lemma ReplayLog_uncommitted:
  assumes "quiet p" and "\<forall>r \<in> set rs. rec_ok r" and "logbytes p = take n (encs rs @ tail)"
    and "length (encs rs) < 2147483648"
    and "tail = enc (LEnd v) \<and> n < length (encs rs) + 4 \<or> tail = enc LAbort"
  shows "ReplayLog p = Some (UOK, log_cut p)"
proof -
  have "replay_pass1 p 0 = (if length (encs rs) \<le> n
      then replay_pass1 p (int (length (encs rs))) else Some (False, p))"
    using pass1_records[of p rs "[]" n tail] assms by simp
  moreover have "replay_pass1 p (int (length (encs rs))) = Some (False, p)" if "length (encs rs) \<le> n"
  proof (cases "n < length (encs rs) + 4")
    case True
    then show ?thesis using assms(3) by (intro pass1_short[OF assms(1)]) simp
  next
    case False
    then have "logbytes p = encs rs @ htonl_bytes LOGABORT @ []" using assms(3,5) by simp
    from pass1_abort[OF assms(1) this] show ?thesis .
  qed
  ultimately have "replay_pass1 p 0 = Some (False, p)" by (auto split: if_splits)
  then show ?thesis using assms(1) by (simp add: ReplayLog_def)
qed

text \<open>A log with its commit opcode is applied; the label needs the whole commit record.\<close>

lemma pass2_end:
  assumes "quiet p" and "logbytes p = pre @ enc (LEnd v) @ tail"
  shows "replay_pass2 p (int (length pre)) sf = Some (None, True, sf,
    fsync (set_file p 0 (pwrite (files p 0) 0 (hdr_bytes \<lparr>epoch = int32 (epoch v), counter = int32 (counter v)\<rparr>))) 0)"
proof -
  have n: "nat (int (length pre) + 4) = length pre + 4" by simp
  show ?thesis using assms
    by (subst replay_pass2.simps) (simp add: read_log n quiet_setlabel)
qed

lemma pass2_end_torn:
  assumes "quiet p" and "logbytes p = pre @ htonl_bytes LOGEND @ t" and "length t < 8"
  shows "replay_pass2 p (int (length pre)) sf = Some (Some (UERR UBADLOG), False, sf, p)"
proof -
  have n: "nat (int (length pre) + 4) = length pre + 4" by simp
  show ?thesis using assms
    by (subst replay_pass2.simps) (simp add: read_log n)
qed

lemma ReplayLog_committed:
  assumes q: "quiet p" and ok: "\<forall>r \<in> set rs. rec_ok r" and lg: "logbytes p = take n (encs rs @ enc (LEnd v))"
    and sz: "length (encs rs) < 2147483648" and n: "length (encs rs) + 4 \<le> n"
  shows "\<exists>rc p'. ReplayLog p = Some (rc, p') \<and> (\<forall>f. f \<noteq> LOGFILE \<longrightarrow> disk_byte p' f = apply_recs rs (disk_byte p) f) \<and>
    rc = (if length (encs rs) + 12 \<le> n then UOK else UERR UBADLOG)"
proof -
  obtain p1 sf where r: "replay_recs p (- 1) rs = (p1, sf)" by fastforce
  note F = replay_recs_frame[OF r ok]
  have "replay_pass1 p 0 = (if length (encs rs) \<le> n
      then replay_pass1 p (int (length (encs rs))) else Some (False, p))"
    using pass1_records[of p rs "[]" n "enc (LEnd v)"] assms by simp
  moreover have "logbytes p = encs rs @ htonl_bytes LOGEND @ take (n - length (encs rs) - 4) (htonl_bytes (epoch v) @ htonl_bytes (counter v))"
    using lg n by simp
  note cut = this
  from pass1_end[OF q cut] n calculation have g: "replay_pass1 p 0 = Some (True, p)" by simp
  have p2: "replay_pass2 p 0 (- 1) = replay_pass2 p1 (int (length (encs rs))) sf"
    using pass2_records[OF q ok _ r, of "[]"] cut by simp
  show ?thesis
  proof (cases "length (encs rs) + 12 \<le> n")
    case True
    let ?p2 = "fsync (set_file p1 0 (pwrite (files p1 0) 0 (hdr_bytes \<lparr>epoch = int32 (epoch v), counter = int32 (counter v)\<rparr>))) 0"
    have "logbytes p1 = encs rs @ enc (LEnd v)" using lg True F(2) by simp
    from pass2_end[of p1 "encs rs" v "[]" sf] this F(1) q p2 have p2': "replay_pass2 p 0 (- 1) = Some (None, True, sf, ?p2)" by simp
    have q2: "quiet ?p2" using F(1) q by simp
    have "ReplayLog p = Some (UOK, log_cut (if 0 \<le> sf then fsync ?p2 sf else ?p2))"
      using g p2' q2 by (simp add: ReplayLog_def quiet_sync)
    then show ?thesis using True F(4) by (auto simp: disk_byte_log_cut)
  next
    case False
    have "replay_pass2 p1 (int (length (encs rs))) sf = Some (Some (UERR UBADLOG), False, sf, p1)"
      by (rule pass2_end_torn[OF _ F(2)[unfolded cut]]) (use F(1) q False n in auto)
    then show ?thesis using g p2 False F(4) by (simp add: ReplayLog_def)
  qed
qed

end
