(* ===== verification/Ubik_Store.thy ===== *)
theory Ubik_Store
  imports Ubik_Replay
begin

text \<open>
  What \<open>udisk_read\<close> and \<open>udisk_write\<close> (\<^verbatim>\<open>src/src/ubik/disk.c\<close>) do to the contents of the
  database: a read transaction sees the files, a write transaction the files overlaid
  with its own dirty pages, and a write changes exactly the bytes written.  Appending
  to the log goes through a stdio stream; \<open>logstream\<close> is the log as its writer sees it.
\<close>

section \<open>Reading\<close>

text \<open>What a transaction of a given type sees: a writer its own dirty pages, a reader the files.\<close>

definition view_page :: "phys \<Rightarrow> cache \<Rightarrow> trtype \<Rightarrow> int \<Rightarrow> int \<Rightarrow> byte list" where
  "view_page p c ty f pg = (case ty of UBIK_WRITETRANS \<Rightarrow> trans_page p c f pg | UBIK_READTRANS \<Rightarrow> disk_page p f pg)"

definition view_byte :: "phys \<Rightarrow> cache \<Rightarrow> trtype \<Rightarrow> store" where
  "view_byte p c ty = (case ty of UBIK_WRITETRANS \<Rightarrow> trans_byte p c | UBIK_READTRANS \<Rightarrow> disk_byte p)"

lemma view_byte_page:
  "view_byte p c ty f k = view_page p c ty f (int (k div UBIK_PAGESIZE)) ! (k mod UBIK_PAGESIZE)"
  by (cases ty) (simp_all add: view_byte_def view_page_def trans_byte_page disk_page_nth)

lemma length_view_page [simp]: "struct_ok c \<Longrightarrow> length (view_page p c ty f pg) = UBIK_PAGESIZE"
  by (cases ty) (simp_all add: view_page_def length_trans_page)

lemma view_page_same:
  "struct_ok c \<Longrightarrow> struct_ok c' \<Longrightarrow> dirty_same c c' \<Longrightarrow> files p' = files p \<Longrightarrow>
   view_page p' c' ty f pg = view_page p c ty f pg"
  using trans_page_same[of c c' p' p f pg] by (cases ty) (simp_all add: view_page_def disk_page_def)

lemma view_byte_same:
  "struct_ok c \<Longrightarrow> struct_ok c' \<Longrightarrow> dirty_same c c' \<Longrightarrow> files p' = files p \<Longrightarrow>
   view_byte p' c' ty = view_byte p c ty"
proof (intro ext)
  fix f k
  assume "struct_ok c" "struct_ok c'" "dirty_same c c'" "files p' = files p"
  then have "view_page p' c' ty f (int (k div UBIK_PAGESIZE)) = view_page p c ty f (int (k div UBIK_PAGESIZE))"
    by (rule view_page_same)
  then show "view_byte p' c' ty f k = view_byte p c ty f k" unfolding view_byte_page by (rule arg_cong)
qed

lemma DRead_view:
  assumes ok: "cache_ok p c" and f: "0 \<le> f" and pg: "0 \<le> pg" and run: "DRead p c ty f pg = (Some i, p', c')"
  shows "bdata (Buffers c' ! i) = view_page p c ty f pg"
proof -
  note D = DRead_ok[OF ok f pg run]
  have s: "struct_ok c" "struct_ok c'" "coherent p' c'" using ok D by (auto simp: cache_ok_def)
  have i: "i < length (Buffers c')" "bfile (Buffers c' ! i) = f" "bpage (Buffers c' ! i) = pg" using D by auto
  have nb: "bfile (Buffers c' ! i) \<noteq> BADFID" using i f by auto
  have fs: "files p' = files p" using D by simp
  have v: "view_page p' c' ty f pg = view_page p c ty f pg"
    using s D by (intro view_page_same) auto
  have "bdata (Buffers c' ! i) = view_page p' c' ty f pg"
  proof (cases "dirty (Buffers c' ! i)")
    case True
    then have "ty = UBIK_WRITETRANS" using D by (cases ty) auto
    then show ?thesis using trans_page_dirty[OF s(2) i(1) True] i by (simp add: view_page_def)
  next
    case False
    have "bdata (Buffers c' ! i) = disk_page p' f pg" using coherent_nth[OF s(3) i(1) nb False] i by simp
    moreover have "ty = UBIK_WRITETRANS \<Longrightarrow> dirty_buf c' f pg = None" using D False by auto
    ultimately show ?thesis by (cases ty) (auto simp: view_page_def trans_page_def)
  qed
  with v show ?thesis by simp
qed

text \<open>The bytes of a page part.\<close>

lemma page_split:
  assumes "0 \<le> apos" and "j < nat (page_part apos alen)"
  shows "int ((nat apos + j) div UBIK_PAGESIZE) = apos div 1024"
    and "(nat apos + j) mod UBIK_PAGESIZE = nat (apos mod 1024) + j"
    and "nat (apos mod 1024) + j < UBIK_PAGESIZE"
proof -
  let ?q = "nat (apos div 1024)" and ?r = "nat (apos mod 1024)"
  have r: "int ?r = apos mod 1024" and q: "int ?q = apos div 1024" using assms(1) by auto
  have "apos = apos div 1024 * 1024 + apos mod 1024" by simp
  then have a: "nat apos = ?q * 1024 + ?r" using r q assms(1) by linarith
  show b: "?r + j < UBIK_PAGESIZE" using assms(2) r by (simp add: page_part_def)
  have "(?q * 1024 + (?r + j)) div 1024 = ?q" using b by simp
  moreover have "(?q * 1024 + (?r + j)) mod 1024 = ?r + j" using b by simp
  ultimately show "int ((nat apos + j) div UBIK_PAGESIZE) = apos div 1024"
    "(nat apos + j) mod UBIK_PAGESIZE = ?r + j" using a q by (simp_all add: add.assoc)
qed

lemma udisk_read_loop_ok:
  assumes "udisk_read_loop p c ty f apos alen = (code, bs, p', c')" and "cache_ok p c" and "0 \<le> f" and "0 \<le> apos"
  shows "cache_ok p' c' \<and> dirty_same c c' \<and> files p' = files p \<and> stable p' = stable p \<and> buf_stream p' = buf_stream p \<and>
    code \<in> {UOK, UERR UEOF} \<and>
    (code = UOK \<longrightarrow> length bs = nat alen \<and> (\<forall>j < nat alen. bs ! j = view_byte p c ty f (nat apos + j)))"
  using assms
proof (induction "nat alen" arbitrary: p c apos alen code bs p' c' rule: less_induct)
  case less
  show ?case
  proof (cases "alen \<le> 0")
    case True
    then show ?thesis using less(2-5) by (simp add: udisk_read_loop.simps)
  next
    case False
    let ?pg = "apos div 1024" and ?len = "page_part apos alen"
    have pg: "0 \<le> ?pg" using less(5) by simp
    obtain r p1 c1 where dr: "DRead p c ty f ?pg = (r, p1, c1)" by (metis prod_cases3)
    note DR = DRead_ok[OF less(3,4) pg dr]
    then have D: "cache_ok p1 c1" "dirty_same c c1" "files p1 = files p" "stable p1 = stable p"
      "buf_stream p1 = buf_stream p" by blast+
    show ?thesis
    proof (cases r)
      case None
      then have "code = UERR UEOF" "p' = p1" "c' = c1"
        using less(2) False dr by (subst (asm) udisk_read_loop.simps; simp)+
      then show ?thesis using D by simp
    next
      case (Some i)
      have i: "i < length (Buffers c1)" using DR Some by blast
      let ?c2 = "DRelease c1 i False"
      obtain code2 rest p2 c2 where lp: "udisk_read_loop p1 ?c2 ty f (apos + ?len) (alen - ?len) = (code2, rest, p2, c2)"
        by (metis prod_cases4)
      note R = DRelease_clean[OF D(1) i]
      have len: "0 < ?len" "?len \<le> alen" using page_part_pos[of alen apos] False by auto
      have IH: "cache_ok p2 c2 \<and> dirty_same ?c2 c2 \<and> files p2 = files p1 \<and> stable p2 = stable p1 \<and>
          buf_stream p2 = buf_stream p1 \<and> code2 \<in> {UOK, UERR UEOF} \<and>
          (code2 = UOK \<longrightarrow> length rest = nat (alen - ?len) \<and>
             (\<forall>j < nat (alen - ?len). rest ! j = view_byte p1 ?c2 ty f (nat (apos + ?len) + j)))"
        by (rule less(1)[OF _ lp R(1) less(4)]) (use less(5) len in auto)
      have view: "view_byte p1 ?c2 ty = view_byte p c ty"
        by (rule view_byte_same) (use R D less(3) dirty_same_trans[OF D(2) R(2)] in \<open>auto simp: cache_ok_def\<close>)
      define b where "b = take (nat ?len) (drop (nat (apos mod 1024)) (bdata (Buffers c1 ! i)))"
      have data: "bdata (Buffers c1 ! i) = view_page p c ty f ?pg" using DRead_view[OF less(3,4) pg, of ty i p1 c1] dr Some by simp
      have "udisk_read_loop p c ty f apos alen = (code2, b @ rest, p2, c2)"
        by (subst udisk_read_loop.simps) (simp add: False dr Some lp b_def Let_def)
      then have out: "code = code2" "bs = b @ rest" "p' = p2" "c' = c2" using less(2) by simp_all
      have lb: "length b = nat ?len"
        unfolding b_def using data less(3) page_split(3)[OF less(5), of "nat ?len - 1" alen] len by (simp add: cache_ok_def)
      have nth: "b ! j = view_byte p c ty f (nat apos + j)" if "j < nat ?len" for j
      proof -
        have "b ! j = view_page p c ty f ?pg ! (nat (apos mod 1024) + j)"
          using page_split(3)[OF less(5) that] that data less(3) by (simp add: b_def cache_ok_def)
        then show ?thesis by (simp only: view_byte_page page_split(1,2)[OF less(5) that])
      qed
      have tail: "nat (apos + ?len) + (j - nat ?len) = nat apos + j" if "\<not> j < nat ?len" for j
        using that len less(5) by linarith
      have "bs ! j = view_byte p c ty f (nat apos + j)" if "code = UOK" "j < nat alen" for j
      proof (cases "j < nat ?len")
        case True
        then show ?thesis using out(2) nth lb by (simp add: nth_append)
      next
        case False
        then have "j - nat ?len < nat (alen - ?len)" using that(2) len by linarith
        then show ?thesis using IH that(1) out view tail[OF False] lb False by (simp add: nth_append)
      qed
      moreover have "length bs = nat alen" if "code = UOK" using IH that out lb len by (simp add: nat_diff_distrib)
      moreover have "dirty_same c c'"
        using dirty_same_trans[OF dirty_same_trans[of c c1 ?c2], of c2] D R(2) IH out(4) by blast
      moreover have "cache_ok p' c'" "files p' = files p" "stable p' = stable p" "buf_stream p' = buf_stream p"
        "code \<in> {UOK, UERR UEOF}" using IH D(3-5) out by simp_all
      ultimately show ?thesis by blast
    qed
  qed
qed

section \<open>Writing\<close>

lemma DRead_quiet:
  assumes "faults p = []" and "0 \<le> pg" and "DRead p c ty f pg = (r, p1, c1)"
  shows "p1 = p" and "r = None \<Longrightarrow> c1 = c \<and> DNew c f pg = (None, c)"
  using assms newslot_None[of c f pg]
  by (auto simp: DRead_def DNew_def Let_def uphys_read_def split: if_splits option.splits prod.splits)

lemma apply_rec_append:
  "0 \<le> pos \<Longrightarrow> apply_rec (LData f (pos + int (length a)) b) (apply_rec (LData f pos a) D) = apply_rec (LData f pos (a @ b)) D"
  by (auto simp: fun_eq_iff nth_append nat_add_distrib)

lemma in_page_part:
  assumes "0 \<le> apos" and "nat (apos mod 1024) + n \<le> UBIK_PAGESIZE"
  shows "nat apos \<le> k \<and> k < nat apos + n \<longleftrightarrow>
    int (k div UBIK_PAGESIZE) = apos div 1024 \<and> nat (apos mod 1024) \<le> k mod UBIK_PAGESIZE \<and>
    k mod UBIK_PAGESIZE < nat (apos mod 1024) + n"
    and "int (k div UBIK_PAGESIZE) = apos div 1024 \<Longrightarrow> k - nat apos = k mod UBIK_PAGESIZE - nat (apos mod 1024)"
proof -
  define q where "q = nat (apos div 1024)"
  define r where "r = nat (apos mod 1024)"
  have "apos = apos div 1024 * 1024 + apos mod 1024" by simp
  then have a: "nat apos = q * 1024 + r" using assms(1) unfolding q_def r_def by linarith
  have n: "r + n \<le> 1024" using assms(2) by (simp add: r_def)
  obtain j m where k: "k div 1024 = j" "k mod 1024 = m" "k = j * 1024 + m" "m < 1024"
    by (metis div_mult_mod_eq mod_less_divisor zero_less_numeral)
  have q: "int j = apos div 1024 \<longleftrightarrow> j = q" using assms(1) by (auto simp: q_def)
  have "q * 1024 + r \<le> j * 1024 + m \<Longrightarrow> j * 1024 + m < q * 1024 + r + n \<Longrightarrow> j = q"
    using n k(4) by linarith
  then show "nat apos \<le> k \<and> k < nat apos + n \<longleftrightarrow>
    int (k div UBIK_PAGESIZE) = apos div 1024 \<and> nat (apos mod 1024) \<le> k mod UBIK_PAGESIZE \<and>
    k mod UBIK_PAGESIZE < nat (apos mod 1024) + n"
    unfolding k(1,2) q r_def[symmetric] unfolding a k(3) by auto
  show "int (k div UBIK_PAGESIZE) = apos div 1024 \<Longrightarrow> k - nat apos = k mod UBIK_PAGESIZE - nat (apos mod 1024)"
    unfolding k(1,2) q r_def[symmetric] unfolding a k(3) by simp
qed

lemma page_part_room: "0 \<le> apos \<Longrightarrow> 0 < n \<Longrightarrow> nat (apos mod 1024) + nat (page_part apos n) \<le> UBIK_PAGESIZE"
  by (auto simp: page_part_def min_def)

lemma page_write_view:
  assumes s: "struct_ok c" "struct_ok c'" and a: "0 \<le> apos" and n: "nat (apos mod 1024) + length bs \<le> UBIK_PAGESIZE"
    and tp: "\<And>g q. trans_page p c' g q = (if g = f \<and> q = apos div 1024
       then pwrite (trans_page p c f (apos div 1024)) (nat (apos mod 1024)) bs else trans_page p c g q)"
  shows "trans_byte p c' = apply_rec (LData f apos bs) (trans_byte p c)"
proof (intro ext)
  fix g k
  let ?pg = "int (k div UBIK_PAGESIZE)" and ?o = "k mod UBIK_PAGESIZE"
  have o: "?o < UBIK_PAGESIZE" by simp
  note ip = in_page_part[OF a n, of k]
  show "trans_byte p c' g k = apply_rec (LData f apos bs) (trans_byte p c) g k"
  proof (cases "g = f \<and> ?pg = apos div 1024")
    case True
    let ?d = "trans_page p c f (apos div 1024)"
    have len: "length (pwrite ?d (nat (apos mod 1024)) bs) = UBIK_PAGESIZE"
      using n length_trans_page[OF s(1), of p f] by (simp add: length_pwrite)
    have "trans_byte p c' g k = fbyte (pwrite ?d (nat (apos mod 1024)) bs) ?o"
      unfolding trans_byte_page tp fbyte_def len using True o by simp
    also have "\<dots> = (if nat (apos mod 1024) \<le> ?o \<and> ?o < nat (apos mod 1024) + length bs
        then bs ! (?o - nat (apos mod 1024)) else ?d ! ?o)"
      unfolding fbyte_pwrite using o length_trans_page[OF s(1), of p f] by (simp add: fbyte_def)
    finally show ?thesis using True ip by (auto simp: trans_byte_page)
  next
    case False
    then have "trans_page p c' g ?pg = trans_page p c g ?pg" by (simp only: tp[of g ?pg] if_False)
    then have "trans_byte p c' g k = trans_byte p c g k" unfolding trans_byte_page by simp
    moreover have "\<not> (g = f \<and> nat apos \<le> k \<and> k < nat apos + length bs)" using False ip by blast
    ultimately show ?thesis by auto
  qed
qed


text \<open>One page of a write.\<close>

lemma write_page:
  assumes ok: "cache_ok p c" and f: "0 \<le> f" and apos: "0 \<le> apos" and bs: "nat (apos mod 1024) + length bs \<le> UBIK_PAGESIZE"
    and dr: "DRead p c UBIK_WRITETRANS f (apos div 1024) = (Some i, p, c1)"
    and c3: "c3 = upd_buf c1 i (\<lambda>b. b\<lparr>bdata := pwrite (bdata b) (nat (apos mod 1024)) bs\<rparr>)"
  shows "cache_ok p (DRelease c3 i True)"
    and "trans_byte p (DRelease c3 i True) = apply_rec (LData f apos bs) (trans_byte p c)"
proof -
  let ?pg = "apos div 1024"
  have pg: "0 \<le> ?pg" using apos by simp
  note D = DRead_ok[OF ok f pg dr]
  have s1: "struct_ok c1" "coherent p c1" and i: "i < length (Buffers c1)" "bfile (Buffers c1 ! i) = f"
    "bpage (Buffers c1 ! i) = ?pg" "\<not> dirty (Buffers c1 ! i) \<Longrightarrow> dirty_buf c1 f ?pg = None"
    and same: "dirty_same c c1"
    using D by (auto simp: cache_ok_def)
  have s: "struct_ok c" using ok by (simp add: cache_ok_def)
  define d where "d = pwrite (bdata (Buffers c1 ! i)) (nat (apos mod 1024)) bs"
  have data: "bdata (Buffers c1 ! i) = trans_page p c f ?pg" using DRead_view[OF ok f pg dr] by (simp add: view_page_def)
  have d: "length d = UBIK_PAGESIZE" unfolding d_def data using bs length_trans_page[OF s, of p f] by (simp add: length_pwrite)
  have c3': "DRelease c3 i True = DRelease (upd_buf c1 i (\<lambda>b. b\<lparr>bdata := d\<rparr>)) i True"
    unfolding c3 d_def by (simp add: upd_buf_def)
  have coh: "coherent p c1 \<or> Buffers c1 = (Buffers c1)[i := b0] \<and> coherent p c1" for b0 using s1 by blast
  note S = store_page[OF s1(1) coh i(1,2) f i(3) d i(4) c3']
  show "cache_ok p (DRelease c3 i True)" by (rule S(1))
  have "trans_page p c1 g q = trans_page p c g q" for g q
    by (rule trans_page_same[OF s s1(1) same refl])
  then have tp: "trans_page p (DRelease c3 i True) g q = (if g = f \<and> q = ?pg
       then pwrite (trans_page p c f ?pg) (nat (apos mod 1024)) bs else trans_page p c g q)" for g q
    using S(2) data d_def by simp
  have "struct_ok (DRelease c3 i True)" using S(1) by (simp add: cache_ok_def)
  from page_write_view[OF s this apos bs tp]
  show "trans_byte p (DRelease c3 i True) = apply_rec (LData f apos bs) (trans_byte p c)" .
qed

lemma udisk_write_loop_ok:
  assumes "udisk_write_loop p c UBIK_WRITETRANS f apos buf = (code, p', c')" and "cache_ok p c" and "faults p = []"
    and "0 \<le> f" and "0 \<le> apos"
  shows "p' = p \<and> cache_ok p c' \<and> code \<in> {UOK, UERR UIOERROR} \<and>
    (code = UOK \<longrightarrow> trans_byte p c' = apply_rec (LData f apos buf) (trans_byte p c))"
  using assms
proof (induction "length buf" arbitrary: c apos buf rule: less_induct)
  case less
  show ?case
  proof (cases "buf = []")
    case True
    then show ?thesis using less(2-) by (auto simp: udisk_write_loop.simps fun_eq_iff)
  next
    case False
    let ?pg = "apos div 1024" and ?len = "page_part apos (int (length buf))"
    have pg: "0 \<le> ?pg" using less(6) by simp
    obtain r p1 c1 where dr: "DRead p c UBIK_WRITETRANS f ?pg = (r, p1, c1)" by (metis prod_cases3)
    have p1: "p1 = p" and none: "r = None \<Longrightarrow> c1 = c \<and> DNew c f ?pg = (None, c)"
      using DRead_quiet[OF less(4) pg dr] by auto
    show ?thesis
    proof (cases r)
      case None
      then have "udisk_write_loop p c UBIK_WRITETRANS f apos buf = (UERR UIOERROR, p, c)"
        using False dr p1 none by (subst udisk_write_loop.simps) simp
      then show ?thesis using less(2,3) by simp
    next
      case (Some i)
      define n where "n = nat ?len"
      have n: "0 < n" "n \<le> length buf" "?len = int n"
        using page_part_pos[of "int (length buf)" apos] False by (auto simp: n_def)
      have "nat (apos mod 1024) + n \<le> UBIK_PAGESIZE"
        unfolding n_def using page_part_room[OF less(6), of "int (length buf)"] False by simp
      then have room: "nat (apos mod 1024) + length (take n buf) \<le> UBIK_PAGESIZE"
        using n(2) by (simp add: min_absorb2)
      define c3 where "c3 = upd_buf c1 i (\<lambda>b. b\<lparr>bdata := pwrite (bdata b) (nat (apos mod 1024)) (take n buf)\<rparr>)"
      note W = write_page[OF less(3,5,6) room dr[unfolded p1 Some] c3_def]
      have "udisk_write_loop p c UBIK_WRITETRANS f apos buf =
          udisk_write_loop p (DRelease c3 i True) UBIK_WRITETRANS f (apos + int n) (drop n buf)"
        using False dr p1 Some by (subst udisk_write_loop.simps) (simp add: c3_def n(3) Let_def)
      then have lp: "udisk_write_loop p (DRelease c3 i True) UBIK_WRITETRANS f (apos + int n) (drop n buf) = (code, p', c')"
        using less(2) by simp
      have sm: "length (drop n buf) < length buf" using n by simp
      have pos: "0 \<le> apos + int n" using less(6) by simp
      note IH = less(1)[OF sm lp W(1) less(4,5) pos]
      moreover have "apply_rec (LData f (apos + int n) (drop n buf)) (apply_rec (LData f apos (take n buf)) (trans_byte p c)) =
          apply_rec (LData f apos buf) (trans_byte p c)"
        using apply_rec_append[OF less(6), of f "take n buf" "drop n buf"] n by simp
      ultimately show ?thesis unfolding W(2) by simp
    qed
  qed
qed

section \<open>The log as a stream\<close>

definition logstream :: "phys \<Rightarrow> byte list" where
  "logstream p = files p LOGFILE @ (case buf_stream p of Some (f, bs) \<Rightarrow> if f = LOGFILE then bs else [] | None \<Rightarrow> [])"

text \<open>The operation leaves the data files alone and adds to the log at most what is said.\<close>

definition data_same :: "phys \<Rightarrow> phys \<Rightarrow> bool" where
  "data_same p q \<longleftrightarrow> (\<forall>f. f \<noteq> LOGFILE \<longrightarrow> files q f = files p f \<and> stable q f = stable p f)"

lemma data_same_refl [simp]: "data_same p p"
  by (simp add: data_same_def)

lemma data_same_trans: "data_same p q \<Longrightarrow> data_same q r \<Longrightarrow> data_same p r"
  by (simp add: data_same_def)

lemma io_step_frame:
  assumes "io_step p = (b, p1)"
  shows "files p1 = files p" and "stable p1 = stable p" and "buf_stream p1 = buf_stream p"
  using assms by (auto simp: io_step_def split: list.splits)

lemma stream_log_cases:
  assumes "stream_log p"
  obtains "buf_stream p = None" "logstream p = files p LOGFILE" "stream_flush p = p"
  | cs where "buf_stream p = Some (LOGFILE, cs)" "logstream p = files p LOGFILE @ cs"
      "stream_flush p = (set_file p LOGFILE (files p LOGFILE @ cs))\<lparr>buf_stream := Some (LOGFILE, [])\<rparr>"
proof (cases "buf_stream p")
  case None
  then show thesis by (intro that(1)) (simp_all add: logstream_def stream_flush_def)
next
  case (Some a)
  obtain f cs where "a = (f, cs)" by fastforce
  with Some have "buf_stream p = Some (f, cs)" by simp
  moreover have "f = LOGFILE" using assms calculation by (simp add: stream_log_def)
  ultimately show thesis by (intro that(2)) (simp_all add: logstream_def stream_flush_def)
qed

lemma append_open_log:
  assumes run: "uphys_buf_append_open p LOGFILE = (ok, p1)" and sl: "stream_log p"
  shows "files p1 = files p" and "stable p1 = stable p" and "stream_log p1" and "logstream p1 = logstream p"
    and "ok \<Longrightarrow> \<exists>cs. buf_stream p1 = Some (LOGFILE, cs)" and "faults p = [] \<Longrightarrow> ok \<and> faults p1 = []"
proof -
  have "files p1 = files p \<and> stable p1 = stable p \<and> stream_log p1 \<and> logstream p1 = logstream p \<and>
      (ok \<longrightarrow> (\<exists>cs. buf_stream p1 = Some (LOGFILE, cs))) \<and> (faults p = [] \<longrightarrow> ok \<and> faults p1 = [])"
    using sl
  proof (cases rule: stream_log_cases)
    case 1
    obtain bad q where io: "io_step p = (bad, q)" by fastforce
    note I = io_step_frame[OF io]
    have r: "ok = (\<not> bad)" "p1 = q\<lparr>buf_stream := if bad then None else Some (LOGFILE, [])\<rparr>"
      using run 1(1,3) io by (auto simp: uphys_buf_append_open_def split: if_splits)
    have "faults p = [] \<Longrightarrow> \<not> bad \<and> faults q = []" using io by simp
    then show ?thesis unfolding r using I(1,2) 1(2) by (simp add: stream_log_def logstream_def)
  next
    case (2 cs)
    then have "ok \<and> p1 = p" using run by (simp add: uphys_buf_append_open_def)
    then show ?thesis using sl 2 by simp
  qed
  then show "files p1 = files p" "stable p1 = stable p" "stream_log p1" "logstream p1 = logstream p"
    "ok \<Longrightarrow> \<exists>cs. buf_stream p1 = Some (LOGFILE, cs)" "faults p = [] \<Longrightarrow> ok \<and> faults p1 = []" by auto
qed

lemma append_log:
  assumes run: "uphys_buf_append p LOGFILE bs = (n, p')" and sl: "stream_log p"
  shows "data_same p p'" and "stable p' = stable p" and "stream_log p'" and "files p' = files p"
    and "n = int (length bs) \<Longrightarrow> bs \<noteq> [] \<Longrightarrow> logstream p' = logstream p @ bs"
    and "n \<noteq> int (length bs) \<Longrightarrow> logstream p' = logstream p"
    and "faults p = [] \<Longrightarrow> bs \<noteq> [] \<Longrightarrow> n = int (length bs) \<and> faults p' = []"
proof -
  obtain ok p1 where op: "uphys_buf_append_open p LOGFILE = (ok, p1)" by fastforce
  note P1 = append_open_log[OF op sl]
  obtain bad p2 where io: "io_step p1 = (bad, p2)" by fastforce
  note I = io_step_frame[OF io]
  have "stable p' = stable p \<and> stream_log p' \<and> files p' = files p \<and>
    (n = int (length bs) \<longrightarrow> bs \<noteq> [] \<longrightarrow> logstream p' = logstream p @ bs) \<and>
    (n \<noteq> int (length bs) \<longrightarrow> logstream p' = logstream p) \<and>
    (faults p = [] \<longrightarrow> bs \<noteq> [] \<longrightarrow> n = int (length bs) \<and> faults p' = [])"
  proof (cases "ok \<and> \<not> bad \<and> bs \<noteq> []")
    case True
    then obtain cs where cs: "buf_stream p1 = Some (LOGFILE, cs)" using P1(5) by blast
    have "n = int (length bs)" "p' = p2\<lparr>buf_stream := Some (LOGFILE, cs @ bs)\<rparr>"
      using run op io True cs I(3) by (simp_all add: uphys_buf_append_def)
    then show ?thesis using P1 I cs io True by (auto simp: stream_log_def logstream_def)
  next
    case False
    have "n = - 1" "p' = (if ok then p2 else p1)"
      using run op io False by (auto simp: uphys_buf_append_def split: if_splits)
    moreover have "logstream p2 = logstream p1" "stream_log p2 = stream_log p1"
      using I by (simp_all add: logstream_def stream_log_def)
    moreover have "faults p = [] \<Longrightarrow> bs = []" using P1(6) io False by auto
    ultimately show ?thesis using P1 I by auto
  qed
  then show "data_same p p'" "stable p' = stable p" "stream_log p'" "files p' = files p"
    "n = int (length bs) \<Longrightarrow> bs \<noteq> [] \<Longrightarrow> logstream p' = logstream p @ bs"
    "n \<noteq> int (length bs) \<Longrightarrow> logstream p' = logstream p"
    "faults p = [] \<Longrightarrow> bs \<noteq> [] \<Longrightarrow> n = int (length bs) \<and> faults p' = []"
    by (auto simp: data_same_def)
qed

lemma LogWriteData_ok:
  assumes "udisk_LogWriteData p f bs pos = (code, p')" and "stream_log p" and "faults p = []" and "bs \<noteq> []"
  shows "code = UOK" and "faults p' = []" and "files p' = files p" and "stable p' = stable p" and "stream_log p'"
    and "logstream p' = logstream p @ enc (LData f pos bs)"
proof -
  let ?h = "htonl_bytes LOGDATA @ htonl_bytes f @ htonl_bytes pos @ htonl_bytes (int (length bs))"
  obtain n1 p1 where a: "uphys_buf_append p LOGFILE ?h = (n1, p1)" by fastforce
  obtain n2 p2 where b: "uphys_buf_append p1 LOGFILE bs = (n2, p2)" by fastforce
  have h: "?h \<noteq> []" "length ?h = 16" by (auto simp: htonl_bytes_def)
  note A = append_log[OF a assms(2)]
  have A7: "n1 = 16" "faults p1 = []" using A(7)[OF assms(3) h(1)] h(2) by auto
  note B = append_log[OF b A(3)]
  have B7: "n2 = int (length bs)" "faults p2 = []" using B(7)[OF A7(2) assms(4)] by auto
  have r: "code = UOK" "p' = p2" using assms(1) a b A7 B7 by (auto simp: udisk_LogWriteData_def Let_def)
  show "code = UOK" "faults p' = []" "files p' = files p" "stable p' = stable p" "stream_log p'"
    using r B7 A B by auto
  have "logstream p1 = logstream p @ ?h" using A(5)[OF _ h(1)] A7(1) h(2) by simp
  then show "logstream p' = logstream p @ enc (LData f pos bs)" using r B(5)[OF B7(1) assms(4)] by simp
qed

lemma LogOpcode_ok:
  assumes "udisk_LogOpcode p opc False = (code, p')" and "stream_log p"
  shows "files p' = files p" and "stable p' = stable p" and "stream_log p'" and "code \<noteq> UPANIC"
    and "code = UOK \<Longrightarrow> logstream p' = logstream p @ htonl_bytes opc"
    and "code \<noteq> UOK \<Longrightarrow> logstream p' = logstream p"
    and "faults p = [] \<Longrightarrow> code = UOK \<and> faults p' = []"
proof -
  obtain n p1 where a: "uphys_buf_append p LOGFILE (htonl_bytes opc) = (n, p1)" by fastforce
  note A = append_log[OF a assms(2)]
  have h: "htonl_bytes opc \<noteq> []" by (simp add: htonl_bytes_def)
  have r: "p' = p1" "code = (if n = 4 then UOK else UERR UIOERROR)"
    using assms(1) a by (auto simp: udisk_LogOpcode_def split: if_splits)
  show "files p' = files p" "stable p' = stable p" "stream_log p'" "code \<noteq> UPANIC"
    "code = UOK \<Longrightarrow> logstream p' = logstream p @ htonl_bytes opc"
    "code \<noteq> UOK \<Longrightarrow> logstream p' = logstream p" "faults p = [] \<Longrightarrow> code = UOK \<and> faults p' = []"
    using r A h by (auto split: if_splits)
qed

lemma flush_log:
  assumes run: "uphys_buf_flush p LOGFILE = (n, p1)" and sl: "stream_log p"
  shows "f \<noteq> LOGFILE \<Longrightarrow> files p1 f = files p f" and "stable p1 = stable p" and "stream_log p1"
    and "logstream p1 = logstream p" and "\<not> n < 0 \<Longrightarrow> files p1 LOGFILE = logstream p"
proof -
  have "(\<forall>f. f \<noteq> LOGFILE \<longrightarrow> files p1 f = files p f) \<and> stable p1 = stable p \<and> stream_log p1 \<and>
      logstream p1 = logstream p \<and> (\<not> n < 0 \<longrightarrow> files p1 LOGFILE = logstream p)"
    using sl
  proof (cases rule: stream_log_cases)
    case 1
    then show ?thesis using run sl by (simp add: uphys_buf_flush_def)
  next
    case (2 cs)
    obtain bad q where io: "io_step p = (bad, q)" by fastforce
    note I = io_step_frame[OF io]
    have sf: "stream_flush q = (set_file q LOGFILE (files p LOGFILE @ cs))\<lparr>buf_stream := Some (LOGFILE, [])\<rparr>"
      using 2(1) I by (simp add: stream_flush_def)
    have "(n, p1) = (if bad then (- 1, q) else (0, stream_flush q))"
      using run 2(1) io by (simp add: uphys_buf_flush_def)
    then show ?thesis using 2 I sf by (cases bad) (auto simp: stream_log_def logstream_def set_file_def)
  qed
  then show "f \<noteq> LOGFILE \<Longrightarrow> files p1 f = files p f" "stable p1 = stable p" "stream_log p1"
    "logstream p1 = logstream p" "\<not> n < 0 \<Longrightarrow> files p1 LOGFILE = logstream p" by auto
qed

lemma sync_log:
  assumes run: "uphys_sync p LOGFILE = (code, p')" and sl: "stream_log p"
  shows "\<forall>f. f \<noteq> LOGFILE \<longrightarrow> files p' f = files p f \<and> stable p' f = stable p f"
    and "stream_log p'" and "logstream p' = logstream p" and "code \<noteq> UPANIC"
    and "code = UOK \<Longrightarrow> stable p' LOGFILE = logstream p \<and> files p' LOGFILE = logstream p"
    and "code \<noteq> UOK \<Longrightarrow> stable p' = stable p"
proof -
  obtain n p1 where f: "uphys_buf_flush p LOGFILE = (n, p1)" by fastforce
  note P1 = flush_log[OF f sl]
  obtain bad p2 where io: "io_step p1 = (bad, p2)" by fastforce
  note I = io_step_frame[OF io]
  have r: "(code, p') = (if n < 0 then (UERR ESYSCALL, p1) else if bad then (UERR ESYSCALL, p2) else (UOK, fsync p2 LOGFILE))"
    using run f io by (auto simp: uphys_sync_def split: if_splits)
  show "\<forall>f. f \<noteq> LOGFILE \<longrightarrow> files p' f = files p f \<and> stable p' f = stable p f"
    "stream_log p'" "logstream p' = logstream p" "code \<noteq> UPANIC"
    "code = UOK \<Longrightarrow> stable p' LOGFILE = logstream p \<and> files p' LOGFILE = logstream p"
    "code \<noteq> UOK \<Longrightarrow> stable p' = stable p"
    using r P1 I by (auto simp: fsync_def logstream_def stream_log_def split: if_splits)
qed

lemma LogEnd_cases:
  assumes run: "udisk_LogEnd p v = (code, p')" and sl: "stream_log p"
  shows "data_same p p'" and "stream_log p'" and "code \<noteq> UPANIC"
    and "code = UOK \<Longrightarrow> stable p' LOGFILE = logstream p @ enc (LEnd v) \<and> files p' LOGFILE = logstream p @ enc (LEnd v)
       \<and> logstream p' = logstream p @ enc (LEnd v)"
    and "code \<noteq> UOK \<Longrightarrow> stable p' = stable p \<and> (logstream p' = logstream p \<or> logstream p' = logstream p @ enc (LEnd v))"
proof -
  have len: "length (enc (LEnd v)) = 12" "enc (LEnd v) \<noteq> []" by (auto simp: htonl_bytes_def)
  obtain n p1 where a: "uphys_buf_append p LOGFILE (enc (LEnd v)) = (n, p1)" by fastforce
  note A = append_log[OF a sl]
  obtain c2 p2 where s: "uphys_sync p1 LOGFILE = (c2, p2)" by fastforce
  note S = sync_log[OF s A(3)]
  have r: "(code, p') = (if n \<noteq> 12 then (UERR UIOERROR, p1) else (c2, p2))"
    using run a s by (auto simp: udisk_LogEnd_def split: if_splits)
  show "data_same p p'" "stream_log p'" "code \<noteq> UPANIC"
    using r A(1-3) S(1,2,4) by (auto simp: data_same_def split: if_splits)
  show "code = UOK \<Longrightarrow> stable p' LOGFILE = logstream p @ enc (LEnd v) \<and> files p' LOGFILE = logstream p @ enc (LEnd v)
       \<and> logstream p' = logstream p @ enc (LEnd v)"
    using r A(5) S(3,5) len by (auto split: if_splits simp del: enc.simps)
  show "code \<noteq> UOK \<Longrightarrow> stable p' = stable p \<and> (logstream p' = logstream p \<or> logstream p' = logstream p @ enc (LEnd v))"
    using r A(2,5,6) S(3,6) len by (auto split: if_splits simp del: enc.simps)
qed

end
