(* ===== verification/Ubik_Site.thy ===== *)
theory Ubik_Site
  imports Ubik_Disk
begin

text \<open>
  The state of one Ubik server process, and the beacon module
  (\<^verbatim>\<open>src/src/ubik/beacon.c\<close>): the list of servers, collecting votes, and knowing
  whether this site is the sync site.

  \<open>site\<close> holds the globals of the process (\<^verbatim>\<open>vote_globals\<close>, \<^verbatim>\<open>beacon_globals\<close>,
  \<^verbatim>\<open>version_globals\<close>, \<^verbatim>\<open>ubik_servers\<close>, \<^verbatim>\<open>urecovery_state\<close>, the database).  The clock
  \<^verbatim>\<open>FT_ApproxTime()\<close> is an argument.  The replies to remote calls are arguments too.
  A zero-terminated array of addresses is the list of its entries up to the zero.
\<close>

section \<open>State\<close>

abbreviation MAXSKEW :: int where "MAXSKEW \<equiv> 10"
abbreviation BIGTIME :: int where "BIGTIME \<equiv> 75"
abbreviation SMALLTIME :: int where "SMALLTIME \<equiv> 60"
abbreviation MAXSERVERS :: nat where "MAXSERVERS \<equiv> 20"
abbreviation MAXTIME :: int where "MAXTIME \<equiv> 0x7fffffff"

record ubik_server =
  addr :: "u32 list"
  lastVoteTime :: int
  lastBeaconSent :: int
  sversion :: ubik_version
  lastVote :: bool
  up :: bool
  beaconSinceDown :: bool
  currentDB :: bool
  magic :: bool
  isClone :: bool

datatype recflag = RECSYNCSITE | RECFOUNDDB | RECHAVEDB | RECLABELDB | RECSENTDB

record site =
  ubik_host :: "u32 list"
  servers :: "ubik_server list"
  nServers :: int
  amIMagic :: bool
  amIClone :: bool
  singleServer :: bool
  ubik_quorum :: int
  ubik_amSyncSite :: bool
  syncSiteUntil :: int
  syncSiteAdvertised :: bool
  dbVersion :: ubik_version
  dbTid :: ubik_tid
  lastYesTime :: int
  lastYesHost :: u32
  lastYesClaim :: int
  lastYesState :: bool
  lowestTime :: int
  lowestHost :: u32
  syncTime :: int
  syncHost :: u32
  urecovery_state :: "recflag set"
  epochTime :: int
  db :: ubik_dbase
  currentTrans :: "nat option"

text \<open>The globals before anything has been set up.\<close>

definition blank_site :: "u32 \<Rightarrow> ubik_dbase \<Rightarrow> site" where
  "blank_site h d =
     \<lparr>ubik_host = [h], servers = [], nServers = 0, amIMagic = False, amIClone = False,
      singleServer = False, ubik_quorum = 0, ubik_amSyncSite = False, syncSiteUntil = 0,
      syncSiteAdvertised = False, dbVersion = \<lparr>epoch = 0, counter = 0\<rparr>,
      dbTid = \<lparr>tepoch = 0, tcounter = 0\<rparr>, lastYesTime = 0, lastYesHost = 0, lastYesClaim = 0,
      lastYesState = False, lowestTime = 0, lowestHost = 0, syncTime = 0, syncHost = 0,
      urecovery_state = {}, epochTime = 0, db = d, currentTrans = None\<rparr>"

definition upd_server :: "site \<Rightarrow> nat \<Rightarrow> (ubik_server \<Rightarrow> ubik_server) \<Rightarrow> site" where
  "upd_server s i f = s\<lparr>servers := (servers s)[i := f (servers s ! i)]\<rparr>"

definition vcmp :: "ubik_version \<Rightarrow> ubik_version \<Rightarrow> int" where
  "vcmp a b = (if epoch a = epoch b then counter a - counter b else epoch a - epoch b)"

section \<open>Am I the sync site?\<close>

definition urecovery_ResetState :: "site \<Rightarrow> site" where
  "urecovery_ResetState s = s\<lparr>urecovery_state := {}\<rparr>"

definition amSyncSite :: "site \<Rightarrow> int \<Rightarrow> bool \<times> site" where
  "amSyncSite s now =
     (if nServers s = 1 \<and> \<not> amIClone s then (True, s)
      else if \<not> ubik_amSyncSite s \<or> amIClone s then (False, s)
      else if syncSiteUntil s \<le> now
           then (False, s\<lparr>ubik_amSyncSite := False, syncSiteAdvertised := False\<rparr>)
      else (True, s))"

definition ubeacon_AmSyncSite :: "site \<Rightarrow> int \<Rightarrow> bool \<times> site" where
  "ubeacon_AmSyncSite s now =
     (let (rcode, s1) = amSyncSite s now in if \<not> rcode then (rcode, urecovery_ResetState s1) else (rcode, s1))"

definition ubeacon_SyncSiteAdvertised :: "site \<Rightarrow> bool" where
  "ubeacon_SyncSiteAdvertised s = syncSiteAdvertised s"

definition ubeacon_Debug :: "site \<Rightarrow> int \<times> int" where
  "ubeacon_Debug s = (syncSiteUntil s, nServers s)"

section \<open>Setting up the list of servers\<close>

definition new_server :: "u32 \<Rightarrow> bool \<Rightarrow> ubik_server" where
  "new_server a cl =
     \<lparr>addr = [a], lastVoteTime = 0, lastBeaconSent = 0, sversion = \<lparr>epoch = 0, counter = 0\<rparr>,
      lastVote = False, up = True, beaconSinceDown = False, currentDB = False, magic = False,
      isClone = cl\<rparr>"

text \<open>
  The loops over the configured hosts: the list of servers built so far (the newest
  first), \<^verbatim>\<open>magicHost\<close>, how many servers were on the list before \<^verbatim>\<open>magicServer\<close>, and the
  number of voting remotes.
\<close>

fun init_info :: "(u32 \<times> bool) list \<Rightarrow> nat \<Rightarrow> nat option \<Rightarrow>
    ubik_server list \<times> u32 \<times> nat option \<times> int \<Rightarrow> ubik_server list \<times> u32 \<times> nat option \<times> int" where
  "init_info [] i me acc = acc"
| "init_info ((h, cl) # hs) i me (srvs, magicHost, magicServer, n) =
     (if me = Some i then init_info hs (i + 1) me (srvs, magicHost, magicServer, n)
      else if cl then init_info hs (i + 1) me (new_server h True # srvs, magicHost, magicServer, n)
      else if magicHost = 0 \<or> ntohl h < magicHost
           then init_info hs (i + 1) me (new_server h False # srvs, ntohl h, Some (length srvs), n + 1)
      else init_info hs (i + 1) me (new_server h False # srvs, magicHost, magicServer, n + 1))"

fun init_list :: "u32 list \<Rightarrow> nat \<Rightarrow>
    ubik_server list \<times> u32 \<times> nat option \<Rightarrow> (ubik_server list \<times> u32 \<times> nat option) option" where
  "init_list [] i acc = Some acc"
| "init_list (h # hs) i (srvs, magicHost, magicServer) =
     (if MAXSERVERS \<le> i then None
      else if ntohl h < magicHost
           then init_list hs (i + 1) (new_server h False # srvs, ntohl h, Some (length srvs))
      else init_list hs (i + 1) (new_server h False # srvs, magicHost, magicServer))"

definition set_magic :: "ubik_server list \<Rightarrow> nat option \<Rightarrow> ubik_server list" where
  "set_magic srvs m =
     (case m of None \<Rightarrow> srvs
      | Some k \<Rightarrow> srvs[length srvs - 1 - k := (srvs ! (length srvs - 1 - k))\<lparr>magic := True\<rparr>])"

text \<open>The index of the last configured host with my address.\<close>

definition find_me :: "(u32 \<times> bool) list \<Rightarrow> u32 \<Rightarrow> nat option" where
  "find_me hs ame = (case filter (\<lambda>i. ntohl (fst (hs ! i)) = ntohl ame) [0..<length hs] of
     [] \<Rightarrow> None | is \<Rightarrow> Some (last is))"

definition become_single :: "site \<Rightarrow> site" where
  "become_single s = s\<lparr>ubik_amSyncSite := True, syncSiteUntil := MAXTIME, syncSiteAdvertised := True\<rparr>"

definition ubeacon_InitServerListByInfo :: "site \<Rightarrow> int \<Rightarrow> u32 \<Rightarrow> (u32 \<times> bool) list \<Rightarrow> ucode \<times> site" where
  "ubeacon_InitServerListByInfo s now ame hs =
     (let me = find_me hs ame;
          clone = (case me of None \<Rightarrow> False | Some i \<Rightarrow> \<exists>j \<in> set [0..<length hs].
                     ntohl (fst (hs ! j)) = ntohl ame \<and> snd (hs ! j));
          magicHost = (if clone then 0 else ntohl ame);
          (srvs, _, magicServer, n) = init_info hs 0 me (servers s, magicHost, None, 0);
          n' = (if clone then n else n + 1);
          s1 = s\<lparr>servers := set_magic srvs magicServer, amIClone := clone,
                 amIMagic := (\<not> clone \<and> magicServer = None), nServers := n',
                 ubik_quorum := n' div 2 + 1, singleServer := (srvs = [])\<rparr>;
          s2 = (if n' = 1 \<and> \<not> clone then (become_single s1)\<lparr>epochTime := now\<rparr> else s1);
          s3 = (if singleServer s2
                then become_single (if ubik_amSyncSite s2 then s2 else s2\<lparr>epochTime := now\<rparr>)
                else s2)
      in (UOK, s3))"

definition ubeacon_InitServerList :: "site \<Rightarrow> int \<Rightarrow> u32 \<Rightarrow> u32 list \<Rightarrow> ucode \<times> site" where
  "ubeacon_InitServerList s now ame hs =
     (case init_list hs 0 (servers s, ntohl ame, None) of
        None \<Rightarrow> (UERR UNHOSTS, s)
      | Some (srvs, _, magicServer) \<Rightarrow>
          let n = int (length hs) + 1;
              s1 = s\<lparr>servers := set_magic srvs magicServer, amIMagic := (magicServer = None),
                     nServers := n, ubik_quorum := n div 2 + 1, singleServer := (n = 1)\<rparr>
          in (UOK, if singleServer s1
                   then become_single (if ubik_amSyncSite s1 then s1 else s1\<lparr>epochTime := now\<rparr>)
                   else s1))"

section \<open>Collecting votes\<close>

abbreviation ERROR_TABLE_BASE_RXK :: int where "ERROR_TABLE_BASE_RXK \<equiv> 19270400"

text \<open>The servers a beacon is sent to.\<close>

definition beacon_targets :: "site \<Rightarrow> nat list" where
  "beacon_targets s = filter (\<lambda>i. up (servers s ! i) \<and> hd (addr (servers s ! i)) \<noteq> hd (ubik_host s))
     [0..<length (servers s)]"

text \<open>What the beacon carries: the transaction id and the database version.\<close>

definition beacon_tid :: "site \<Rightarrow> ubik_tid" where
  "beacon_tid s = \<lparr>tepoch = epochTime s,
     tcounter = (if dbWriting (db s) then writeTidCounter (db s) else tidCounter (db s) + 1)\<rparr>"

text \<open>
  The reply of one server: its index, the time it arrived, the code of the call and
  whether the connection has an error.
\<close>

definition beacon_code :: "int \<Rightarrow> int \<Rightarrow> bool \<Rightarrow> int" where
  "beacon_code temp code connerr =
     (let c1 = (if 0 < code \<and> (code < temp \<and> code < temp - 3600 \<or> temp < code \<and> temp + 3600 < code)
                then - 1 else code)
      in if 0 < c1 \<and> connerr then - 1 else c1)"

definition beacon_reply :: "nat \<times> int \<times> int \<times> bool \<Rightarrow> site \<times> int \<times> int \<Rightarrow> site \<times> int \<times> int" where
  "beacon_reply r acc =
     (let (i, temp, reply, connerr) = r;
          (s, yesVotes, oldestYesVote) = acc;
          s0 = upd_server s i (\<lambda>ts. ts\<lparr>lastBeaconSent := temp\<rparr>);
          code = beacon_code temp reply connerr;
          ts = servers s0 ! i
      in if 0 < code
         then if code - code mod 256 = ERROR_TABLE_BASE_RXK
              then (upd_server s0 i (\<lambda>ts. ts\<lparr>up := False, beaconSinceDown := False\<rparr>), yesVotes, oldestYesVote)
              else (upd_server s0 i (\<lambda>ts. ts\<lparr>lastVoteTime := code, lastVote := True, up := True,
                                              beaconSinceDown := True\<rparr>),
                    yesVotes + (if isClone ts then 0 else 2) + (if magic ts then 1 else 0),
                    if code < oldestYesVote then code else oldestYesVote)
         else if code = 0
         then (upd_server s0 i (\<lambda>ts. ts\<lparr>lastVoteTime := temp, lastVote := False, beaconSinceDown := True\<rparr>),
               yesVotes, oldestYesVote)
         else (upd_server s0 i (\<lambda>ts. ts\<lparr>up := False, beaconSinceDown := False\<rparr>), yesVotes, oldestYesVote))"

text \<open>Adding our own vote \<open>i\<close> and deciding.\<close>

definition beacon_decide :: "site \<Rightarrow> int \<Rightarrow> int \<Rightarrow> int \<Rightarrow> int \<Rightarrow> site" where
  "beacon_decide s now i yesVotes oldestYesVote =
     (let yes = (if i \<noteq> 0 then yesVotes + 2 + (if amIMagic s then 1 else 0) else yesVotes);
          oldest = (if i \<noteq> 0 \<and> i < oldestYesVote then i else oldestYesVote)
      in if nServers s < yes
         then if \<not> ubik_amSyncSite s
              then s\<lparr>epochTime := now, ubik_amSyncSite := True, syncSiteUntil := oldest + SMALLTIME\<rparr>
              else s\<lparr>syncSiteUntil := oldest + SMALLTIME, syncSiteAdvertised := True\<rparr>
         else urecovery_ResetState (s\<lparr>ubik_amSyncSite := False, syncSiteAdvertised := False\<rparr>))"

end
