(* ===== verification/Ubik_Vote.thy ===== *)
theory Ubik_Vote
  imports Ubik_Site
begin

text \<open>
  The vote module (\<^verbatim>\<open>src/src/ubik/vote.c\<close>), the parts of recovery it calls
  (\<^verbatim>\<open>urecovery_CheckTid\<close>, \<^verbatim>\<open>urecovery_AllBetter\<close>, \<^verbatim>\<open>urecovery_AbortAll\<close> of
  \<^verbatim>\<open>src/src/ubik/recovery.c\<close>), and one round of \<^verbatim>\<open>ubeacon_Interact\<close>.
\<close>

section \<open>Voting\<close>

definition uvote_Init :: "site \<Rightarrow> int \<Rightarrow> site" where
  "uvote_Init s now =
     s\<lparr>lastYesTime := now, lastYesHost := 0xffffffff, lastYesClaim := 0, lastYesState := False,
       lowestTime := 0, lowestHost := 0xffffffff, syncTime := 0, syncHost := 0\<rparr>"

definition uvote_ShouldIRun :: "site \<Rightarrow> int \<Rightarrow> bool" where
  "uvote_ShouldIRun s now =
     (if amIClone s then False
      else if BIGTIME + lastYesTime s < now then True
      else if lastYesState s \<and> lastYesHost s \<noteq> hd (ubik_host s) then False
      else if ntohl (lastYesHost s) < ntohl (hd (ubik_host s)) then False
      else True)"

definition uvote_GetSyncSite :: "site \<Rightarrow> int \<Rightarrow> u32" where
  "uvote_GetSyncSite s now =
     (if \<not> lastYesState s then 0
      else if SMALLTIME + lastYesClaim s < now then 0
      else lastYesHost s)"

definition SVOTE_GetSyncSite :: "site \<Rightarrow> int \<Rightarrow> u32" where
  "SVOTE_GetSyncSite s now = ntohl (uvote_GetSyncSite s now)"

definition uvote_set_dbVersion :: "site \<Rightarrow> ubik_version \<Rightarrow> site" where
  "uvote_set_dbVersion s v = s\<lparr>dbVersion := v\<rparr>"

definition uvote_eq_dbVersion :: "site \<Rightarrow> ubik_version \<Rightarrow> bool" where
  "uvote_eq_dbVersion s v \<longleftrightarrow> epoch (dbVersion s) = epoch v \<and> counter (dbVersion s) = counter v"

definition uvote_HaveSyncAndVersion :: "site \<Rightarrow> int \<Rightarrow> ubik_version \<Rightarrow> bool" where
  "uvote_HaveSyncAndVersion s now v =
     (if \<not> lastYesState s \<or> SMALLTIME + lastYesClaim s < now \<or>
         epoch (dbVersion s) \<noteq> epoch v \<or> counter (dbVersion s) \<noteq> counter v
      then False else True)"

text \<open>The address a server is known by.  The array of 256 addresses is zero after those in use.\<close>

definition ubikGetPrimaryInterfaceAddr :: "site \<Rightarrow> u32 \<Rightarrow> u32" where
  "ubikGetPrimaryInterfaceAddr s a =
     (case List.find (\<lambda>ts. a \<in> set (addr ts) \<or> a = 0 \<and> length (addr ts) < 256) (servers s) of
        None \<Rightarrow> 0 | Some ts \<Rightarrow> hd (addr ts))"

section \<open>Recovery's part\<close>

text \<open>
  \<^verbatim>\<open>urecovery_CheckTid\<close> ends the remote transaction when the sync site has gone on to
  another one; a transaction whose thread waits for the lock is left to that thread.
\<close>

definition urecovery_CheckTid :: "site \<Rightarrow> ubik_tid \<Rightarrow> bool \<Rightarrow> ucode \<times> site" where
  "urecovery_CheckTid s atid abortalways =
     (case currentTrans s of
        None \<Rightarrow> (UOK, s)
      | Some t \<Rightarrow>
          let tt = tr (db s) t in
          if tepoch atid \<noteq> tepoch (tid tt) \<or> tcounter (tid tt) < tcounter atid \<or> abortalways
          then let (code, d) = (if locktype tt \<noteq> LOCKWAIT then udisk_end (db s) t else (UOK, db s))
               in if code = UPANIC then (UPANIC, s\<lparr>db := d\<rparr>)
                  else (UOK, s\<lparr>db := d, currentTrans := None\<rparr>)
          else (UOK, s))"

definition urecovery_AllBetter :: "site \<Rightarrow> int \<Rightarrow> bool \<Rightarrow> bool \<times> site" where
  "urecovery_AllBetter s now areadAny =
     (if areadAny then (1 < epoch (version (db s)), s)
      else let (am, s1) = ubeacon_AmSyncSite s now in
        if am \<and> RECHAVEDB \<in> urecovery_state s1 then (True, s1)
        else (uvote_HaveSyncAndVersion s1 now (version (db s1)), s1))"

fun abort_all :: "nat list \<Rightarrow> ubik_dbase \<Rightarrow> ucode \<times> ubik_dbase" where
  "abort_all [] d = (UOK, d)"
| "abort_all (t # ts) d =
     (let (code, d1) = udisk_abort d t in if code = UPANIC then (UPANIC, d1) else abort_all ts d1)"

definition urecovery_AbortAll :: "ubik_dbase \<Rightarrow> ucode \<times> ubik_dbase" where
  "urecovery_AbortAll d = abort_all (activeTrans d) d"

section \<open>The vote\<close>

text \<open>Who is asking: the primary address and whether it is a clone; 0 for an unknown host.\<close>

definition beacon_caller :: "site \<Rightarrow> u32 option \<Rightarrow> u32 \<times> bool" where
  "beacon_caller s rxcall =
     (case rxcall of
        None \<Rightarrow> (hd (ubik_host s), amIClone s)
      | Some a \<Rightarrow>
          let h = ubikGetPrimaryInterfaceAddr s a in
          (h, case List.find (\<lambda>ts. hd (addr ts) = h) (servers s) of
                None \<Rightarrow> False | Some ts \<Rightarrow> isClone ts))"

definition note_lowest :: "site \<Rightarrow> int \<Rightarrow> bool \<Rightarrow> u32 \<Rightarrow> site" where
  "note_lowest s now clone h =
     (if \<not> clone \<and> (ntohl h \<le> ntohl (lowestHost s) \<or> lowestTime s + BIGTIME < now)
      then s\<lparr>lowestTime := now, lowestHost := h\<rparr> else s)"

definition note_sync :: "site \<Rightarrow> int \<Rightarrow> bool \<Rightarrow> u32 \<Rightarrow> site" where
  "note_sync s now astate h =
     (if astate then s\<lparr>syncHost := h, syncTime := now\<rparr>
      else if syncTime s + BIGTIME < now then s\<lparr>syncHost := 0\<rparr> else s)"

definition fast_startup :: "site \<Rightarrow> bool \<Rightarrow> u32 \<Rightarrow> site" where
  "fast_startup s astate h =
     (if astate \<and> lastYesHost s = 0xffffffff \<and> h = hd (ubik_host s)
         \<and> filter (\<lambda>ts. hd (addr ts) \<noteq> h \<and> \<not> isClone ts) (servers s) = []
      then s\<lparr>lastYesHost := h\<rparr> else s)"

definition SVOTE_Beacon ::
  "site \<Rightarrow> int \<Rightarrow> u32 option \<Rightarrow> bool \<Rightarrow> int \<Rightarrow> ubik_version \<Rightarrow> ubik_tid \<Rightarrow> int \<times> ucode \<times> site" where
  "SVOTE_Beacon s now rxcall astate astart avers atid =
     (let (otherHost, clone) = beacon_caller s rxcall in
      if rxcall \<noteq> None \<and> otherHost = 0 then (0, UOK, s)
      else
        let s1 = note_lowest s now clone otherHost;
            s2 = note_lowest s1 now (amIClone s1) (hd (ubik_host s1));
            s3 = note_sync s2 now astate otherHost
        in if \<not> astate \<and> ntohl (lowestHost s3) \<noteq> ntohl otherHost then (0, UOK, s3)
           else if \<not> astate \<and> syncHost s3 \<noteq> 0 \<and> syncHost s3 \<noteq> otherHost then (0, UOK, s3)
           else
             let s4 = fast_startup s3 astate otherHost in
             if clone then (0, UOK, s4)
             else if lastYesTime s4 + BIGTIME < now \<or> otherHost = lastYesHost s4
             then let s5 = s4\<lparr>lastYesTime := now, lastYesClaim := astart, lastYesHost := otherHost,
                              lastYesState := astate, dbVersion := avers, dbTid := atid\<rparr>;
                      (code, s6) = urecovery_CheckTid s5 atid False
                  in (now, code, s6)
             else (0, UOK, s4))"

section \<open>One round of the beacon loop\<close>

text \<open>
  From the moment the site has decided to run: \<open>start\<close> is \<^verbatim>\<open>startTime\<close>, the replies are
  those of the servers in \<open>beacon_targets\<close>, \<open>now\<close> is the time the site votes for itself
  and decides.  A vote of 0 is a refusal.
\<close>

definition beacon_round ::
  "site \<Rightarrow> int \<Rightarrow> (nat \<times> int \<times> int \<times> bool) list \<Rightarrow> int \<Rightarrow> ucode \<times> site" where
  "beacon_round s start replies now =
     (let ttid = beacon_tid s;
          tversion = version (db s);
          (syncsite, s1) = amSyncSite s start;
          s2 = (if \<not> syncsite then urecovery_ResetState s1 else s1);
          (s3, yesVotes, oldest) = fold beacon_reply replies (s2, 0, MAXTIME);
          (am, s4) = ubeacon_AmSyncSite s3 now;
          (i, code, s5) = SVOTE_Beacon s4 now None am start tversion ttid
      in if code = UPANIC then (UPANIC, s5) else (UOK, beacon_decide s5 now i yesVotes oldest))"

definition ubeacon_Interact ::
  "site \<Rightarrow> int \<Rightarrow> int \<Rightarrow> (nat \<times> int \<times> int \<times> bool) list \<Rightarrow> int \<Rightarrow> ucode \<times> site" where
  "ubeacon_Interact s wakeup start replies now =
     (if singleServer s then (UOK, s)
      else if \<not> uvote_ShouldIRun s wakeup then (UOK, s)
      else beacon_round s start replies now)"

end
