(* ===== verification/Ubik_Quorum.thy ===== *)
theory Ubik_Quorum
  imports Ubik_Vote
begin

text \<open>
  Calls to the other servers of the cell (\<^verbatim>\<open>src/src/ubik/ubik.c\<close>, the \<^verbatim>\<open>ContactQuorum\<close>
  routines) and the commit of a transaction at one site (\<^verbatim>\<open>udisk_commit\<close> of
  \<^verbatim>\<open>src/src/ubik/disk.c\<close>).

  The remote calls are values of \<open>disk_rpc\<close>; what the servers answer is a parameter
  \<open>rpc\<close>, from the call and the index of the server to the code it returns.  The
  database lock is dropped around each call; here nothing else runs meanwhile.
\<close>

section \<open>Remote calls\<close>

datatype disk_rpc =
  DISK_Begin ubik_tid
| DISK_Commit ubik_tid
| DISK_Abort ubik_tid
| DISK_ReleaseLocks ubik_tid
| DISK_Lock ubik_tid int int int locktype
| DISK_WriteV ubik_tid "ubik_iovec list" "byte list"
| DISK_Write ubik_tid int int "byte list"
| DISK_Truncate ubik_tid int int
| DISK_SetVersion ubik_tid ubik_version ubik_version

type_synonym replies = "disk_rpc \<Rightarrow> nat \<Rightarrow> ucode"

text \<open>
  One server's turn: skipped unless it is up and current (and, for the first call of a
  transaction, has heard that this site is sync site); marked down if the call fails.
  \<open>stamp\<close> is \<^verbatim>\<open>CStampVersion\<close>, \<open>advertised\<close> is \<^verbatim>\<open>CCheckSyncAdvertised\<close>.
\<close>

definition ContactQuorum_iterate ::
  "bool \<Rightarrow> bool \<Rightarrow> (nat \<Rightarrow> ucode) \<Rightarrow> nat \<Rightarrow> site \<times> ucode \<times> int \<Rightarrow> site \<times> ucode \<times> int" where
  "ContactQuorum_iterate stamp advertised call i acc =
     (let (s, rcode, okcalls) = acc; ts = servers s ! i in
      if \<not> up ts \<or> \<not> currentDB ts \<or> advertised \<and> \<not> (beaconSinceDown ts \<and> lastVote ts)
      then (upd_server s i (\<lambda>ts. ts\<lparr>currentDB := False\<rparr>), rcode, okcalls)
      else if call i \<noteq> UOK
      then (upd_server s i (\<lambda>ts. ts\<lparr>up := False, beaconSinceDown := False, currentDB := False\<rparr>), call i, okcalls)
      else (if stamp then upd_server s i (\<lambda>ts. ts\<lparr>sversion := version (db s)\<rparr>) else s, rcode,
            if isClone ts then okcalls else okcalls + 1))"

definition ContactQuorum_rcode :: "site \<Rightarrow> int \<Rightarrow> ucode \<Rightarrow> ucode" where
  "ContactQuorum_rcode s okcalls rcode =
     (if ubik_quorum s \<le> okcalls + 1 then UOK else if rcode \<noteq> UOK then rcode else UERR UNOQUORUM)"

definition ContactQuorum :: "site \<Rightarrow> bool \<Rightarrow> bool \<Rightarrow> (nat \<Rightarrow> ucode) \<Rightarrow> ucode \<times> site" where
  "ContactQuorum s stamp advertised call =
     (let (s1, rcode, okcalls) =
        fold (ContactQuorum_iterate stamp advertised call) [0..<length (servers s)] (s, UOK, 0)
      in (ContactQuorum_rcode s1 okcalls rcode, s1))"

definition ContactQuorum_NoArguments ::
  "(ubik_tid \<Rightarrow> disk_rpc) \<Rightarrow> replies \<Rightarrow> site \<Rightarrow> nat \<Rightarrow> bool \<Rightarrow> bool \<Rightarrow> ucode \<times> site" where
  "ContactQuorum_NoArguments proc rpc s t stamp advertised =
     ContactQuorum s stamp advertised (rpc (proc (tid (tr (db s) t))))"

definition ContactQuorum_DISK_Lock ::
  "replies \<Rightarrow> site \<Rightarrow> nat \<Rightarrow> int \<Rightarrow> int \<Rightarrow> int \<Rightarrow> locktype \<Rightarrow> ucode \<times> site" where
  "ContactQuorum_DISK_Lock rpc s t f position len ty =
     ContactQuorum s False False (rpc (DISK_Lock (tid (tr (db s) t)) f position len ty))"

definition ContactQuorum_DISK_Truncate :: "replies \<Rightarrow> site \<Rightarrow> nat \<Rightarrow> int \<Rightarrow> int \<Rightarrow> ucode \<times> site" where
  "ContactQuorum_DISK_Truncate rpc s t f len =
     ContactQuorum s False False (rpc (DISK_Truncate (tid (tr (db s) t)) f len))"

definition ContactQuorum_DISK_SetVersion ::
  "replies \<Rightarrow> site \<Rightarrow> nat \<Rightarrow> bool \<Rightarrow> ubik_version \<Rightarrow> ubik_version \<Rightarrow> ucode \<times> site" where
  "ContactQuorum_DISK_SetVersion rpc s t stamp oldv newv =
     ContactQuorum s stamp False (rpc (DISK_SetVersion (tid (tr (db s) t)) oldv newv))"

text \<open>A server that does not know \<^verbatim>\<open>DISK_WriteV\<close> is sent the writes one by one.\<close>

definition rpc_mismatch :: "ucode \<Rightarrow> bool" where
  "rpc_mismatch code = (case code of UERR (ECODE n) \<Rightarrow> n \<le> - 450 \<and> - 500 < n | _ \<Rightarrow> False)"

fun unbulk :: "replies \<Rightarrow> ubik_tid \<Rightarrow> nat \<Rightarrow> ubik_iovec list \<Rightarrow> byte list \<Rightarrow> int \<Rightarrow> ucode \<Rightarrow> ucode" where
  "unbulk rpc td i [] buf offset code = code"
| "unbulk rpc td i (v # vs) buf offset code =
     (if int (length buf) < offset + iolength v then UERR UINTERNAL
      else let c = rpc (DISK_Write td (iofile v) (ioposition v)
                          (take (nat (iolength v)) (drop (nat offset) buf))) i
           in if c \<noteq> UOK then c else unbulk rpc td i vs buf (offset + iolength v) c)"

definition write_call :: "replies \<Rightarrow> ubik_tid \<Rightarrow> ubik_iovec list \<Rightarrow> byte list \<Rightarrow> nat \<Rightarrow> ucode" where
  "write_call rpc td vs buf i =
     (let code = rpc (DISK_WriteV td vs buf) i
      in if rpc_mismatch code then unbulk rpc td i vs buf 0 code else code)"

definition ContactQuorum_DISK_WriteV ::
  "replies \<Rightarrow> site \<Rightarrow> nat \<Rightarrow> ubik_iovec list \<Rightarrow> byte list \<Rightarrow> ucode \<times> site" where
  "ContactQuorum_DISK_WriteV rpc s t vs buf =
     ContactQuorum s False False (write_call rpc (tid (tr (db s) t)) vs buf)"

section \<open>Commit\<close>

abbreviation UBIK_MILESTONE :: int where "UBIK_MILESTONE \<equiv> 1497987403"

text \<open>The first write after an election gives the database a new label.\<close>

definition commit_label :: "replies \<Rightarrow> site \<Rightarrow> nat \<Rightarrow> int \<Rightarrow> ucode \<times> site" where
  "commit_label rpc s t now =
     (let (am, s1) = ubeacon_AmSyncSite s now in
      if am \<and> RECLABELDB \<notin> urecovery_state s1
      then if epochTime s1 < UBIK_MILESTONE \<or> now < epochTime s1 then (UPANIC, s1)
           else let oldversion = version (db s1);
                    newversion = \<lparr>epoch = epochTime s1, counter = 1\<rparr>;
                    (code, p) = uphys_setlabel (dphys (db s1)) 0 newversion;
                    s2 = s1\<lparr>db := (db s1)\<lparr>dphys := p\<rparr>\<rparr>
                in if code \<noteq> UOK then (code, s2)
                   else let s3 = s2\<lparr>db := (db s2)\<lparr>version := newversion\<rparr>,
                                    urecovery_state := insert RECLABELDB (urecovery_state s2)\<rparr>
                        in (UOK, snd (ContactQuorum_DISK_SetVersion rpc s3 t True oldversion newversion))
      else (UOK, s1))"

text \<open>The commit record, the pages, the truncations, the label, and the end of the log.\<close>

definition commit_local :: "ubik_dbase \<Rightarrow> nat \<Rightarrow> ucode \<times> ubik_dbase" where
  "commit_local d t =
     (let v = (version d)\<lparr>counter := counter (version d) + 1\<rparr>;
          (code, p1) = udisk_LogEnd (dphys d) v in
      if code \<noteq> UOK then (code, d\<lparr>dphys := p1\<rparr>)
      else let (code, p2) = DFlush p1 (dcache d) in
      if code \<noteq> UOK then (UPANIC, d\<lparr>dphys := p2, version := v\<rparr>)
      else let (code, p3, c3) = DSync p2 (dcache d);
               d3 = d\<lparr>dphys := p3, dcache := c3, version := v\<rparr> in
      if code \<noteq> UOK then (UPANIC, d3)
      else let (code, d4) = DoTruncs d3 t in
      if code \<noteq> UOK then (UPANIC, d4)
      else let (code, p5) = uphys_setlabel (dphys d4) 0 v in
      if code \<noteq> UOK then (UPANIC, d4\<lparr>dphys := p5\<rparr>)
      else let (code, p6) = uphys_truncate p5 LOGFILE 0
           in (if code \<noteq> UOK then UPANIC else UOK, d4\<lparr>dphys := p6\<rparr>))"

definition udisk_commit :: "replies \<Rightarrow> site \<Rightarrow> nat \<Rightarrow> int \<Rightarrow> ucode \<times> site" where
  "udisk_commit rpc s t now =
     (if trDone (tr (db s) t) then (UERR UTWOENDS, s)
      else let (code, s1) =
        (if ttype (tr (db s) t) = UBIK_WRITETRANS
         then let (code, s1) = commit_label rpc s t now in
              if code \<noteq> UOK then (code, s1)
              else let (code2, d) = commit_local (db s1) t in (code2, s1\<lparr>db := d\<rparr>)
         else (UOK, s)) in
      if code \<noteq> UOK then (code, s1)
      else (UOK, s1\<lparr>db := upd_trans (db s1) t (\<lambda>tt. tt\<lparr>trDone := True\<rparr>)\<rparr>))"

section \<open>What a quorum call promises\<close>

text \<open>The servers that answered: those whose entry is still current and up afterwards.\<close>

lemma upd_server_sel [simp]:
  "length (servers (upd_server s i f)) = length (servers s)"
  "ubik_quorum (upd_server s i f) = ubik_quorum s" "db (upd_server s i f) = db s"
  by (simp_all add: upd_server_def)

definition asked :: "bool \<Rightarrow> ubik_server \<Rightarrow> bool" where
  "asked advertised ts \<longleftrightarrow> up ts \<and> currentDB ts \<and> (advertised \<longrightarrow> beaconSinceDown ts \<and> lastVote ts)"

definition answered :: "bool \<Rightarrow> (nat \<Rightarrow> ucode) \<Rightarrow> ubik_server list \<Rightarrow> nat set" where
  "answered advertised call srvs = {i. i < length srvs \<and> asked advertised (srvs ! i) \<and> call i = UOK}"

lemma ContactQuorum_fold:
  assumes "fold (ContactQuorum_iterate stamp adv call) [0..<n] (s, UOK, 0) = (s', rcode, ok)"
    and "n \<le> length (servers s)"
  shows "ok = int (card {i \<in> answered adv call (servers s). i < n \<and> \<not> isClone (servers s ! i)}) \<and>
    length (servers s') = length (servers s) \<and> ubik_quorum s' = ubik_quorum s \<and> db s' = db s \<and>
    (\<forall>i. n \<le> i \<longrightarrow> servers s' ! i = servers s ! i) \<and>
    (\<forall>i < n. i \<notin> answered adv call (servers s) \<longrightarrow> \<not> currentDB (servers s' ! i)) \<and>
    (\<forall>i < n. i \<in> answered adv call (servers s) \<longrightarrow> servers s' ! i =
       (if stamp then (servers s ! i)\<lparr>sversion := version (db s)\<rparr> else servers s ! i))"
  using assms
proof (induction n arbitrary: s' rcode ok)
  case 0
  then show ?case by simp
next
  case (Suc n)
  obtain s1 r1 o1 where f: "fold (ContactQuorum_iterate stamp adv call) [0..<n] (s, UOK, 0) = (s1, r1, o1)"
    by (metis prod_cases3)
  have n: "n < length (servers s)" "n \<le> length (servers s)" using Suc.prems(2) by auto
  note IH = Suc.IH[OF f n(2)]
  let ?A = "answered adv call (servers s)"
  have it: "ContactQuorum_iterate stamp adv call n (s1, r1, o1) = (s', rcode, ok)" using Suc.prems(1) f by simp
  have same: "servers s1 ! n = servers s ! n" and len: "n < length (servers s1)" and db: "db s1 = db s"
    using IH n by auto
  have nth: "servers (upd_server s1 n g) ! i = (if i = n then g (servers s1 ! n) else servers s1 ! i)" for g i
    using len by (simp add: upd_server_def nth_list_update)
  have A: "n \<in> ?A \<longleftrightarrow> asked adv (servers s ! n) \<and> call n = UOK" using n by (simp add: answered_def)
  have card: "card {i \<in> ?A. i < Suc n \<and> \<not> isClone (servers s ! i)} =
      card {i \<in> ?A. i < n \<and> \<not> isClone (servers s ! i)} + (if n \<in> ?A \<and> \<not> isClone (servers s ! n) then 1 else 0)"
  proof -
    have e: "{i \<in> ?A. i < Suc n \<and> \<not> isClone (servers s ! i)} = {i \<in> ?A. i < n \<and> \<not> isClone (servers s ! i)} \<union>
        (if n \<in> ?A \<and> \<not> isClone (servers s ! n) then {n} else {})" by (auto simp: less_Suc_eq)
    show ?thesis unfolding e by (subst card_Un_disjoint) auto
  qed
  have s': "s' = (if n \<in> ?A then (if stamp then upd_server s1 n (\<lambda>ts. ts\<lparr>sversion := version (db s)\<rparr>) else s1)
      else if asked adv (servers s ! n)
      then upd_server s1 n (\<lambda>ts. ts\<lparr>up := False, beaconSinceDown := False, currentDB := False\<rparr>)
      else upd_server s1 n (\<lambda>ts. ts\<lparr>currentDB := False\<rparr>))"
    and ok: "ok = (if n \<in> ?A \<and> \<not> isClone (servers s ! n) then o1 + 1 else o1)"
    using it same db A by (auto simp: ContactQuorum_iterate_def asked_def Let_def split: if_splits)
  have "length (servers s') = length (servers s) \<and> ubik_quorum s' = ubik_quorum s \<and> db s' = db s"
    using s' IH by (auto split: if_splits)
  moreover have "servers s' ! i = servers s1 ! i" if "i \<noteq> n" for i using s' nth that by (auto split: if_splits)
  moreover have "n \<notin> ?A \<Longrightarrow> \<not> currentDB (servers s' ! n)" using s' nth by (auto split: if_splits)
  moreover have "n \<in> ?A \<Longrightarrow> servers s' ! n = (if stamp then (servers s ! n)\<lparr>sversion := version (db s)\<rparr> else servers s ! n)"
    using s' nth same by auto
  ultimately show ?case using IH ok card by (auto simp: less_Suc_eq)
qed

lemma ContactQuorum_code:
  "(fst (ContactQuorum s stamp adv call) = UOK \<longleftrightarrow>
     ubik_quorum s \<le> int (card {i \<in> answered adv call (servers s). \<not> isClone (servers s ! i)}) + 1) \<and>
   {i. i < length (servers s) \<and> currentDB (servers (snd (ContactQuorum s stamp adv call)) ! i)} = answered adv call (servers s)"
proof -
  obtain s1 rcode ok where f: "fold (ContactQuorum_iterate stamp adv call) [0..<length (servers s)] (s, UOK, 0) = (s1, rcode, ok)"
    by (metis prod_cases3)
  note F = ContactQuorum_fold[OF f le_refl]
  have "{i \<in> answered adv call (servers s). i < length (servers s) \<and> \<not> isClone (servers s ! i)} =
      {i \<in> answered adv call (servers s). \<not> isClone (servers s ! i)}" by (auto simp: answered_def)
  then have "ok = int (card {i \<in> answered adv call (servers s). \<not> isClone (servers s ! i)})" using F by simp
  moreover have "{i. i < length (servers s) \<and> currentDB (servers s1 ! i)} = answered adv call (servers s)"
  proof (intro set_eqI iffI)
    fix i
    assume i: "i \<in> answered adv call (servers s)"
    then have "i < length (servers s)" "currentDB (servers s ! i)" by (auto simp: answered_def asked_def)
    then show "i \<in> {i. i < length (servers s) \<and> currentDB (servers s1 ! i)}" using F i by auto
  qed (use F in blast)
  ultimately show ?thesis using F f by (auto simp: ContactQuorum_def ContactQuorum_rcode_def)
qed

text \<open>
  C21: a quorum call succeeds exactly when the servers that are up, current and answer
  without error, clones not counted, make a majority together with the caller; and
  afterwards those that answered are the ones still held to be current, so that no other
  server is sent the rest of the transaction.
\<close>

theorem ContactQuorum_majority:
  "(fst (ContactQuorum s stamp adv call) = UOK \<longleftrightarrow>
     ubik_quorum s \<le> int (card {i \<in> answered adv call (servers s). \<not> isClone (servers s ! i)}) + 1) \<and>
   {i. i < length (servers s) \<and> currentDB (servers (snd (ContactQuorum s stamp adv call)) ! i)} = answered adv call (servers s)"
  by (rule ContactQuorum_code)

end
