(* ===== verification/Ubik_Crash.thy ===== *)
theory Ubik_Crash
  imports Ubik_Store Ubik_Quorum
begin

text \<open>
  Crash safety of one server's database: what the files, the log and the page cache
  hold in the middle of a write transaction, what a crash may leave of them, and what
  \<^verbatim>\<open>ReplayLog\<close> makes of that.  The models of the operations are those of Ubik_Disk,
  Ubik_Replay and Ubik_Quorum; this theory holds what they keep of one another:
  \<open>in_trans\<close> (a transaction is open and its log holds the records \<open>R\<close>), \<open>idle\<close> (none is),
  \<open>sealed\<close> (the commit record is on the medium), and for each operation from which of them to
  which it leads.
\<close>

section \<open>Replaying twice\<close>

text \<open>A log overwrites a byte with a value of its own or leaves it alone.\<close>

lemma apply_recs_byte: "(\<exists>w. \<forall>D. apply_recs rs D f k = w) \<or> (\<forall>D. apply_recs rs D f k = D f k)"
proof (induction rs rule: rev_induct)
  case (snoc r rs)
  show ?case
  proof (cases r)
    case (LData g pos bs)
    show ?thesis
    proof (cases "f = g \<and> nat pos \<le> k \<and> k < nat pos + length bs")
      case True
      then show ?thesis using LData by auto
    next
      case False
      then have "apply_recs (rs @ [r]) D f k = apply_recs rs D f k" for D using LData by auto
      then show ?thesis using snoc by simp
    qed
  qed (use snoc in auto)
qed simp

lemma apply_recs_torn:
  assumes "E f k = D f k \<or> E f k = apply_recs rs D f k"
  shows "apply_recs rs E f k = apply_recs rs D f k"
  using apply_recs_byte[of rs f k] assms by metis

lemma apply_recs_twice: "apply_recs rs (apply_recs rs D) = apply_recs rs D"
  by (intro ext apply_recs_torn) simp

section \<open>What is on the medium\<close>

definition stable_byte :: "phys \<Rightarrow> store" where
  "stable_byte p f k = fbyte (stable p f) (k + 64)"

lemma stable_byte_files: "stable p f = files p f \<Longrightarrow> stable_byte p f = disk_byte p f"
  by (simp add: stable_byte_def disk_byte_def fun_eq_iff)

definition relabel :: "ubik_version \<Rightarrow> phys \<Rightarrow> phys" where
  "relabel v p = fsync (set_file p 0 (pwrite (files p 0) 0
     (hdr_bytes \<lparr>epoch = int32 (epoch v), counter = int32 (counter v)\<rparr>))) 0"

definition replay_done :: "phys \<Rightarrow> lrec list \<Rightarrow> ubik_version \<Rightarrow> phys" where
  "replay_done p rs v =
     (let (p1, sf) = replay_recs p (- 1) rs in log_cut (if 0 \<le> sf then fsync (relabel v p1) sf else relabel v p1))"

lemma ReplayLog_tail:
  assumes q: "quiet p" and ok: "\<forall>r \<in> set rs. rec_ok r" and lg: "logbytes p = encs rs @ enc (LEnd v) @ tail"
    and sz: "length (encs rs) < 2147483648"
  shows "ReplayLog p = Some (UOK, replay_done p rs v)"
proof -
  obtain p1 sf where r: "replay_recs p (- 1) rs = (p1, sf)" by fastforce
  note F = replay_recs_frame[OF r ok]
  have lg': "logbytes p = encs rs @ htonl_bytes LOGEND @ (htonl_bytes (epoch v) @ htonl_bytes (counter v) @ tail)"
    using lg by simp
  have "replay_pass1 p 0 = replay_pass1 p (int (length (encs rs)))"
    using pass1_records[of p rs "[]" "length (encs rs) + length (enc (LEnd v) @ tail)" "enc (LEnd v) @ tail"] assms by simp
  then have g: "replay_pass1 p 0 = Some (True, p)" using pass1_end[OF q lg'] by simp
  have p2: "replay_pass2 p 0 (- 1) = replay_pass2 p1 (int (length (encs rs))) sf"
    using pass2_records[OF q ok _ r, of "[]"] lg by simp
  have "logbytes p1 = encs rs @ enc (LEnd v) @ tail" using lg F(2) by simp
  from pass2_end[OF _ this, of sf] F(1) q p2
  have p2': "replay_pass2 p 0 (- 1) = Some (None, True, sf, relabel v p1)" by (simp add: relabel_def)
  have "quiet (relabel v p1)" using F(1) q by (simp add: relabel_def)
  then show ?thesis
    using g p2' r by (simp add: ReplayLog_def quiet_sync replay_done_def)
qed

lemma ReplayLog_complete:
  "quiet p \<Longrightarrow> \<forall>r \<in> set rs. rec_ok r \<Longrightarrow> logbytes p = encs rs @ enc (LEnd v) \<Longrightarrow> length (encs rs) < 2147483648 \<Longrightarrow>
   ReplayLog p = Some (UOK, replay_done p rs v)"
  using ReplayLog_tail[of p rs v "[]"] by simp

lemma stable_fsync: "stable (fsync p f) g = (if g = f then files p f else stable p g)"
  by (simp add: fsync_def)

lemma stable_set_file [simp]: "stable (set_file p f a) = stable p"
  by (simp add: set_file_def)

text \<open>All data files are on the medium, but for one that is still to be synced.\<close>

definition synced_but :: "int \<Rightarrow> phys \<Rightarrow> bool" where
  "synced_but sf p \<longleftrightarrow> (\<forall>f \<ge> 0. f \<noteq> sf \<longrightarrow> stable_byte p f = disk_byte p f)"

lemma stable_byte_fsync: "stable_byte (fsync p f) g = (if g = f then disk_byte p f else stable_byte p g)"
  by (simp add: stable_byte_def disk_byte_def stable_fsync fun_eq_iff)

lemma disk_byte_set_file: "g \<noteq> f \<Longrightarrow> disk_byte (set_file p f a) g = disk_byte p g"
  by (simp add: disk_byte_def fun_eq_iff)

lemma stable_byte_set_file [simp]: "stable_byte (set_file p f a) = stable_byte p"
  by (simp add: stable_byte_def fun_eq_iff)

lemma replay_data_stable:
  assumes "synced_but sf p" and "0 \<le> f"
  shows "synced_but f (replay_data p sf f pos bs)"
    and "stable (replay_data p sf f pos bs) LOGFILE = stable p LOGFILE"
  using assms
  by (auto simp: replay_data_def Let_def synced_but_def stable_byte_fsync disk_byte_set_file stable_fsync)

lemma replay_recs_stable:
  assumes "replay_recs p sf rs = (p', sf')" and "\<forall>r \<in> set rs. rec_ok r" and "synced_but sf p"
  shows "synced_but sf' p' \<and> stable p' LOGFILE = stable p LOGFILE"
  using assms
proof (induction p sf rs rule: replay_recs.induct)
  case (2 p sf f pos bs rs)
  then show ?case using replay_data_stable[OF 2(4), of f pos bs] by simp
qed auto

text \<open>A database after recovery: its contents, on the medium, and an empty log.\<close>

definition recovered :: "phys \<Rightarrow> store \<Rightarrow> phys \<Rightarrow> bool" where
  "recovered q D q' \<longleftrightarrow> quiet q' \<and> (\<forall>f \<ge> 0. disk_byte q' f = D f \<and> stable_byte q' f = D f) \<and>
     length (files q' LOGFILE) = 64 \<and> stable q' LOGFILE = stable q LOGFILE"

lemma disk_byte_relabel [simp]: "disk_byte (relabel v p) = disk_byte p"
  by (simp add: relabel_def)

lemma log_cut_stable [simp]: "stable (log_cut p) = stable p" "stable_byte (log_cut p) = stable_byte p"
  "quiet (log_cut p) = quiet p" "length (files (log_cut p) LOGFILE) = 64"
  by (simp_all add: log_cut_def)

lemma replay_done_recovered:
  assumes q: "quiet p" and ok: "\<forall>r \<in> set rs. rec_ok r" and sy: "synced_but (- 1) p"
    and D: "\<And>f k. 0 \<le> f \<Longrightarrow> disk_byte p f k = D f k \<or> disk_byte p f k = apply_recs rs D f k"
  shows "recovered p (apply_recs rs D) (replay_done p rs v)"
proof -
  obtain p1 sf where r: "replay_recs p (- 1) rs = (p1, sf)" by fastforce
  note F = replay_recs_frame[OF r ok]
  note S = replay_recs_stable[OF r ok sy]
  let ?p2 = "relabel v p1"
  let ?p3 = "if 0 \<le> sf then fsync ?p2 sf else ?p2"
  have fin: "replay_done p rs v = log_cut ?p3" using r by (simp add: replay_done_def)
  have view: "disk_byte ?p3 = apply_recs rs (disk_byte p)" using F(4) by simp
  have new: "apply_recs rs (disk_byte p) f = apply_recs rs D f" if "0 \<le> f" for f
    using D[OF that] by (intro ext apply_recs_torn)
  have s2: "stable_byte ?p2 f = disk_byte p1 f" if "0 \<le> f" "f \<noteq> sf" for f
    using S that unfolding relabel_def stable_byte_fsync by (auto simp: synced_but_def)
  have s3: "stable_byte ?p3 f = disk_byte ?p3 f" if "0 \<le> f" for f
    using s2[OF that] that by (auto simp: stable_byte_fsync)
  have "stable ?p3 LOGFILE = stable p LOGFILE" using S by (auto simp: relabel_def stable_fsync)
  moreover have "quiet ?p3" using F(1) q by (simp add: relabel_def)
  ultimately show ?thesis
    unfolding recovered_def fin using view new s3 by (auto simp: disk_byte_log_cut)
qed

lemma log_cut_recovered:
  assumes "quiet q" and "\<forall>f \<ge> 0. disk_byte q f = D f \<and> stable_byte q f = D f"
  shows "recovered q D (log_cut q)"
  using assms by (auto simp: recovered_def disk_byte_log_cut)

section \<open>Harmless logs\<close>

text \<open>Replaying such a log over the contents \<open>D\<close> gives \<open>D\<close>.\<close>

definition harmless :: "byte list \<Rightarrow> store \<Rightarrow> bool" where
  "harmless L D \<longleftrightarrow> (\<forall>q. quiet q \<longrightarrow> files q LOGFILE = L \<longrightarrow>
     (\<forall>f \<ge> 0. disk_byte q f = D f \<and> stable_byte q f = D f) \<longrightarrow>
     (\<exists>q'. ReplayLog q = Some (UOK, q') \<and> recovered q D q'))"

lemma harmless_committed:
  assumes "length H = 64" and "\<forall>r \<in> set rs. rec_ok r" and "length (encs rs) < 2147483648"
  shows "harmless (H @ encs rs @ enc (LEnd v)) (apply_recs rs D)"
  unfolding harmless_def
proof (intro allI impI)
  fix q
  assume q: "quiet q" "files q LOGFILE = H @ encs rs @ enc (LEnd v)"
    and d: "\<forall>f \<ge> 0. disk_byte q f = apply_recs rs D f \<and> stable_byte q f = apply_recs rs D f"
  have lg: "logbytes q = encs rs @ enc (LEnd v)" using q(2) assms(1) by (simp add: logbytes_def)
  have "recovered q (apply_recs rs D) (replay_done q rs v)"
    by (rule replay_done_recovered[OF q(1) assms(2)]) (use d in \<open>auto simp: synced_but_def\<close>)
  then show "\<exists>q'. ReplayLog q = Some (UOK, q') \<and> recovered q (apply_recs rs D) q'"
    using ReplayLog_complete[OF q(1) assms(2) lg assms(3)] by blast
qed

lemma drop_header: "length H = 64 \<Longrightarrow> drop 64 (take n (H @ X)) = take (n - 64) X"
  by (subst drop_take) simp

lemma harmless_cut:
  assumes "length H = 64" and "\<forall>r \<in> set rs. rec_ok r" and "length (encs rs) < 2147483648"
    and "L = take n (H @ encs rs @ tail)"
    and "tail = enc (LEnd v) \<and> n < 64 + length (encs rs) + 4 \<or> tail = enc LAbort"
  shows "harmless L D"
  unfolding harmless_def
proof (intro allI impI)
  fix q
  assume q: "quiet q" "files q LOGFILE = L" and d: "\<forall>f \<ge> 0. disk_byte q f = D f \<and> stable_byte q f = D f"
  have lg: "logbytes q = take (n - 64) (encs rs @ tail)"
    unfolding logbytes_def q(2) assms(4) by (rule drop_header[OF assms(1)])
  have "ReplayLog q = Some (UOK, log_cut q)"
    by (rule ReplayLog_uncommitted[OF q(1) assms(2) lg assms(3), of v]) (use assms(5) in auto)
  then show "\<exists>q'. ReplayLog q = Some (UOK, q') \<and> recovered q D q'" using log_cut_recovered[OF q(1) d] by blast
qed

lemma harmless_prefix:
  assumes "length H = 64" and "\<forall>r \<in> set rs. rec_ok r" and "length (encs rs) < 2147483648"
  shows "harmless (take n (H @ encs rs)) D"
proof (rule harmless_cut[OF assms, of _ "min n (64 + length (encs rs))" "enc (LEnd undefined)" undefined])
  show "take n (H @ encs rs) = take (min n (64 + length (encs rs))) (H @ encs rs @ enc (LEnd undefined))"
    using assms(1) by (cases "n \<le> 64 + length (encs rs)") auto
qed (simp add: min_less_iff_disj)

section \<open>A database in the middle of a write transaction\<close>

text \<open>
  The committed contents are \<open>D\<close> and the transaction has logged the records \<open>R\<close>: the files
  and the medium hold \<open>D\<close>, the dirty pages over them what \<open>R\<close> makes of \<open>D\<close>, the log
  is a header followed by \<open>R\<close>, and the log on the medium does no harm.
\<close>

definition log_holds :: "phys \<Rightarrow> lrec list \<Rightarrow> bool" where
  "log_holds p R \<longleftrightarrow> (\<exists>H. length H = 64 \<and> logstream p = H @ encs R) \<and>
     (\<forall>r \<in> set R. rec_ok r) \<and> length (encs R) < 2147483648"

definition in_trans :: "store \<Rightarrow> lrec list \<Rightarrow> ubik_dbase \<Rightarrow> bool" where
  "in_trans D R d \<longleftrightarrow> cache_ok (dphys d) (dcache d) \<and> stream_log (dphys d) \<and> log_holds (dphys d) R \<and>
     (\<forall>f \<ge> 0. disk_byte (dphys d) f = D f \<and> stable_byte (dphys d) f = D f \<and>
        trans_byte (dphys d) (dcache d) f = apply_recs R D f) \<and>
     harmless (stable (dphys d) LOGFILE) D"

text \<open>Between transactions.\<close>

definition idle :: "store \<Rightarrow> ubik_dbase \<Rightarrow> bool" where
  "idle D d \<longleftrightarrow> in_trans D [] d \<and> no_dirty (dcache d)"

section \<open>Crashes\<close>

text \<open>
  What a crash leaves.  Of a data file each byte is the one last synced or the current
  one.  Of the log it is the synced file, or a prefix of the current one with the bytes
  still buffered in memory; bytes of the log that are synced and still there stay.
\<close>

definition log_image :: "phys \<Rightarrow> byte list \<Rightarrow> bool" where
  "log_image p l \<longleftrightarrow> l = stable p LOGFILE \<or>
     (\<exists>n \<ge> 64. l = take n (logstream p) \<and>
        (take (length (stable p LOGFILE)) (logstream p) = stable p LOGFILE \<longrightarrow> length (stable p LOGFILE) \<le> n))"

definition crash :: "phys \<Rightarrow> phys \<Rightarrow> bool" where
  "crash p q \<longleftrightarrow> quiet q \<and> stable q = files q \<and> log_image p (files q LOGFILE) \<and>
     (\<forall>f \<ge> 0. \<forall>k. disk_byte q f k = stable_byte p f k \<or> disk_byte q f k = disk_byte p f k)"

lemma crash_view:
  assumes "crash p q" and "\<forall>f \<ge> 0. disk_byte p f = D f \<and> stable_byte p f = D f"
  shows "\<forall>f \<ge> 0. disk_byte q f = D f \<and> stable_byte q f = D f"
proof (intro allI impI conjI ext)
  fix f :: int and k
  assume "0 \<le> f"
  then show d: "disk_byte q f k = D f k" using assms by (metis crash_def)
  have "stable q f = files q f" using assms(1) by (simp add: crash_def)
  then show "stable_byte q f k = D f k" using d stable_byte_files by metis
qed

lemma crash_synced: "crash p q \<Longrightarrow> synced_but sf q"
  by (simp add: crash_def synced_but_def stable_byte_files)

lemma harmlessD:
  assumes "harmless L D" and "quiet q" and "files q LOGFILE = L"
    and "\<forall>f \<ge> 0. disk_byte q f = D f \<and> stable_byte q f = D f"
  shows "\<exists>q'. ReplayLog q = Some (UOK, q') \<and> recovered q D q'"
  using assms by (simp add: harmless_def)

text \<open>Before the commit record is written a crash loses the transaction and nothing else.\<close>

lemma crash_in_trans:
  assumes t: "in_trans D R d" and c: "crash (dphys d) q"
  shows "\<exists>q'. ReplayLog q = Some (UOK, q') \<and> recovered q D q'" and "harmless (stable q LOGFILE) D"
proof -
  have q: "quiet q" and li: "log_image (dphys d) (files q LOGFILE)" using c by (auto simp: crash_def)
  have v: "\<forall>f \<ge> 0. disk_byte q f = D f \<and> stable_byte q f = D f"
    using crash_view[OF c] t by (simp add: in_trans_def)
  obtain H where H: "length H = 64" "logstream (dphys d) = H @ encs R" "\<forall>r \<in> set R. rec_ok r"
    "length (encs R) < 2147483648"
    using t by (auto simp: in_trans_def log_holds_def)
  have h: "harmless (files q LOGFILE) D"
    using li t harmless_prefix[OF H(1,3,4)] H(2) by (auto simp: log_image_def in_trans_def)
  from harmlessD[OF h q refl v] show "\<exists>q'. ReplayLog q = Some (UOK, q') \<and> recovered q D q'" .
  show "harmless (stable q LOGFILE) D" using h c by (simp add: crash_def)
qed

section \<open>Commit\<close>

lemma disk_byte_page: "disk_byte p f k = disk_page p f (int (k div UBIK_PAGESIZE)) ! (k mod UBIK_PAGESIZE)"
  by (simp add: disk_page_nth)

lemma data_same_bytes:
  assumes "data_same p q" and "0 \<le> f"
  shows "disk_byte q f = disk_byte p f" and "stable_byte q f = stable_byte p f" and "disk_page q f pg = disk_page p f pg"
  using assms by (simp_all add: data_same_def disk_byte_def stable_byte_def disk_page_def fun_eq_iff)

lemma data_same_cache:
  assumes "data_same p q" and "cache_ok p c"
  shows "cache_ok q c" and "0 \<le> f \<Longrightarrow> trans_byte q c f = trans_byte p c f"
proof -
  have "bdata b = disk_page q (bfile b) (bpage b)"
    if b: "b \<in> set (Buffers c)" "bfile b \<noteq> BADFID" "\<not> dirty b" for b
  proof -
    have "buf_ok b" using assms(2) b(1) by (simp add: cache_ok_def struct_ok_def)
    then have "0 \<le> bfile b" using b(2) by (simp add: buf_ok_def)
    from data_same_bytes(3)[OF assms(1) this] show ?thesis
      using assms(2) b by (simp add: cache_ok_def coherent_def)
  qed
  then show "cache_ok q c" using assms(2) by (simp add: cache_ok_def coherent_def)
  show "0 \<le> f \<Longrightarrow> trans_byte q c f = trans_byte p c f"
    using data_same_bytes(1)[OF assms(1), of f] by (simp add: trans_byte_def fun_eq_iff split: option.splits)
qed

text \<open>Flushing the dirty pages, byte by byte.\<close>

lemma DFlush_bytes:
  assumes run: "DFlush p c = (code, p')" and s: "struct_ok c"
  shows "disk_byte p' f k = disk_byte p f k \<or> disk_byte p' f k = trans_byte p c f k"
    and "code = UOK \<Longrightarrow> disk_byte p' f = trans_byte p c f"
proof -
  show "disk_byte p' f k = disk_byte p f k \<or> disk_byte p' f k = trans_byte p c f k"
    unfolding disk_byte_page trans_byte_page
    using DFlush_old_or_new[OF run s, of "int (k div UBIK_PAGESIZE)" f] by auto
  show "code = UOK \<Longrightarrow> disk_byte p' f = trans_byte p c f"
    unfolding fun_eq_iff disk_byte_page trans_byte_page using DFlush_new[OF _ s] run by auto
qed

lemma setlabel_frame:
  assumes "uphys_setlabel p 0 v = (code, p')"
  shows "disk_byte p' = disk_byte p" and "files p' LOGFILE = files p LOGFILE" and "stable p' LOGFILE = stable p LOGFILE"
    and "buf_stream p' = buf_stream p" and "stable_byte p' f = stable_byte p f \<or> stable_byte p' f = disk_byte p f"
    and "0 \<le> pg \<Longrightarrow> disk_page p' g pg = disk_page p g pg" and "code \<noteq> UPANIC"
proof -
  obtain bad p1 where a: "io_step p = (bad, p1)" by fastforce
  note A = io_step_frame[OF a]
  define p2 where "p2 = (if bad then p1 else set_file p1 0 (pwrite (files p1 0) 0 (hdr_bytes v)))"
  obtain bad2 p3 where b: "io_step p2 = (bad2, p3)" by fastforce
  note B = io_step_frame[OF b]
  have p': "p' = (if bad2 then p3 else fsync p3 0)" and code: "code \<noteq> UPANIC"
    using assms a b unfolding p2_def[symmetric] by (auto simp: uphys_setlabel_def p2_def Let_def split: if_splits)
  have fl: "files p' = files p2" "buf_stream p' = buf_stream p"
    using p' A B by (auto simp: fsync_def p2_def set_file_def)
  have st: "stable p' = stable p \<or> stable p' = (stable p)(0 := files p2 0)"
    using p' A B by (auto simp: fsync_def p2_def set_file_def)
  have d2: "disk_byte p2 = disk_byte p" using A by (auto simp: p2_def disk_byte_def fun_eq_iff fbyte_pwrite)
  show db: "disk_byte p' = disk_byte p" using d2 fl by (simp add: disk_byte_def fun_eq_iff)
  show "files p' LOGFILE = files p LOGFILE" using fl A by (simp add: p2_def)
  show "stable p' LOGFILE = stable p LOGFILE" using st by auto
  show "stable_byte p' f = stable_byte p f \<or> stable_byte p' f = disk_byte p f"
    using st d2 by (cases "f = 0") (auto simp: stable_byte_def disk_byte_def fun_eq_iff)
  show "0 \<le> pg \<Longrightarrow> disk_page p' g pg = disk_page p g pg"
    using db by (intro nth_equalityI) (simp_all add: disk_page_nth)
  show "buf_stream p' = buf_stream p" "code \<noteq> UPANIC" by (fact fl(2), fact code)
qed

lemma truncate_log:
  assumes run: "uphys_truncate p LOGFILE 0 = (code, p')" and sl: "stream_log p"
  shows "data_same p p'" and "stable p' = stable p" and "stream_log p'"
    and "code = UOK \<Longrightarrow> logstream p' = ftruncate (logstream p) 64"
    and "code \<noteq> UOK \<Longrightarrow> logstream p' = logstream p"
proof -
  obtain n p1 where f: "uphys_buf_flush p LOGFILE = (n, p1)" by fastforce
  note F = flush_log[OF f sl]
  obtain bad p2 where io: "io_step p1 = (bad, p2)" by fastforce
  note I = io_step_frame[OF io]
  have r: "(code, p') = (if n < 0 then (UERR UIOERROR, p1) else if bad then (UERR ESYSCALL, p2)
      else (UOK, set_file p2 LOGFILE (ftruncate (files p2 LOGFILE) 64)))"
    using run f io by (auto simp: uphys_truncate_def split: if_splits)
  have ls: "\<not> n < 0 \<Longrightarrow> buf_stream p1 = None \<or> buf_stream p1 = Some (LOGFILE, [])"
    using F(3-5) by (elim stream_log_cases[of p1]) (auto simp: logstream_def stream_log_def split: option.splits)
  show "data_same p p'" "stable p' = stable p" "stream_log p'"
    using r F(1-3) I by (auto simp: data_same_def stream_log_def set_file_def split: if_splits)
  show "code \<noteq> UOK \<Longrightarrow> logstream p' = logstream p"
    using r F(4) I by (auto simp: logstream_def split: if_splits)
  show "code = UOK \<Longrightarrow> logstream p' = ftruncate (logstream p) 64"
    using r F(5) I ls by (auto simp: logstream_def set_file_def split: if_splits)
qed

text \<open>The commit record is on the medium: every byte is old or new, and replay makes it new.\<close>

definition torn :: "store \<Rightarrow> store \<Rightarrow> store \<Rightarrow> bool" where
  "torn D E X \<longleftrightarrow> (\<forall>f \<ge> 0. \<forall>k. X f k = D f k \<or> X f k = E f k)"

definition sealed :: "store \<Rightarrow> lrec list \<Rightarrow> ubik_version \<Rightarrow> phys \<Rightarrow> bool" where
  "sealed D R v p \<longleftrightarrow> stream_log p \<and> logstream p = stable p LOGFILE \<and>
     (\<exists>H. length H = 64 \<and> stable p LOGFILE = H @ encs R @ enc (LEnd v)) \<and>
     torn D (apply_recs R D) (disk_byte p) \<and> torn D (apply_recs R D) (stable_byte p)"

lemma sealed_crash:
  assumes s: "sealed D R v p" and ok: "\<forall>r \<in> set R. rec_ok r" "length (encs R) < 2147483648" and c: "crash p q"
  shows "\<exists>q'. ReplayLog q = Some (UOK, q') \<and> recovered q (apply_recs R D) q'"
    and "harmless (stable q LOGFILE) (apply_recs R D)"
proof -
  obtain H where H: "length H = 64" "stable p LOGFILE = H @ encs R @ enc (LEnd v)" "logstream p = stable p LOGFILE"
    using s by (auto simp: sealed_def)
  have q: "quiet q" and li: "log_image p (files q LOGFILE)" using c by (auto simp: crash_def)
  have fl: "files q LOGFILE = stable p LOGFILE" using li unfolding log_image_def H(3) by auto
  then have lg: "logbytes q = encs R @ enc (LEnd v)" using H by (simp add: logbytes_def)
  have t: "disk_byte q f k = D f k \<or> disk_byte q f k = apply_recs R D f k" if "0 \<le> f" for f k
  proof -
    have "disk_byte q f k = stable_byte p f k \<or> disk_byte q f k = disk_byte p f k"
      using c that by (simp add: crash_def)
    moreover have "disk_byte p f k = D f k \<or> disk_byte p f k = apply_recs R D f k"
      "stable_byte p f k = D f k \<or> stable_byte p f k = apply_recs R D f k"
      using s that unfolding sealed_def torn_def by blast+
    ultimately show ?thesis by auto
  qed
  show "harmless (stable q LOGFILE) (apply_recs R D)"
    using harmless_committed[OF H(1) ok, of v D] fl H(2) c by (simp add: crash_def)
  show "\<exists>q'. ReplayLog q = Some (UOK, q') \<and> recovered q (apply_recs R D) q'"
    using ReplayLog_complete[OF q ok(1) lg ok(2)] replay_done_recovered[OF q ok(1) crash_synced[OF c] t] by blast
qed

lemma sealed_frame:
  assumes s: "sealed D R v p" and "stable p' LOGFILE = stable p LOGFILE" and "logstream p' = logstream p" and "stream_log p'"
    and d: "torn D (apply_recs R D) (disk_byte p')"
    and st: "\<And>f. 0 \<le> f \<Longrightarrow> stable_byte p' f = stable_byte p f \<or> stable_byte p' f = disk_byte p' f"
  shows "sealed D R v p'"
proof -
  have "torn D (apply_recs R D) (stable_byte p')"
    unfolding torn_def
  proof (intro allI impI)
    fix f :: int and k
    assume f: "0 \<le> f"
    have "disk_byte p' f k = D f k \<or> disk_byte p' f k = apply_recs R D f k"
      "stable_byte p f k = D f k \<or> stable_byte p f k = apply_recs R D f k"
      using s d f unfolding sealed_def torn_def by blast+
    then show "stable_byte p' f k = D f k \<or> stable_byte p' f k = apply_recs R D f k" using st[OF f] by metis
  qed
  then show ?thesis using assms by (simp add: sealed_def)
qed

lemma LogEnd_sealed:
  assumes t: "in_trans D R d" and run: "udisk_LogEnd (dphys d) v = (UOK, p1)"
  shows "sealed D R v p1" and "cache_ok p1 (dcache d)" and "stream_log p1"
    and "0 \<le> f \<Longrightarrow> disk_byte p1 f = D f \<and> stable_byte p1 f = D f \<and> trans_byte p1 (dcache d) f = apply_recs R D f"
proof -
  have sl: "stream_log (dphys d)" and co: "cache_ok (dphys d) (dcache d)" using t by (auto simp: in_trans_def)
  note L = LogEnd_cases[OF run sl]
  show b: "disk_byte p1 f = D f \<and> stable_byte p1 f = D f \<and> trans_byte p1 (dcache d) f = apply_recs R D f" if "0 \<le> f" for f
    using data_same_bytes(1,2)[OF L(1) that] data_same_cache(2)[OF L(1) co that] t that by (simp add: in_trans_def)
  obtain H where H: "length H = 64" "logstream (dphys d) = H @ encs R" using t by (auto simp: in_trans_def log_holds_def)
  show "cache_ok p1 (dcache d)" "stream_log p1" using data_same_cache(1)[OF L(1) co] L(2) by auto
  have "torn D (apply_recs R D) (disk_byte p1)" "torn D (apply_recs R D) (stable_byte p1)"
    unfolding torn_def using b by auto
  then show "sealed D R v p1" using L(2) L(4)[OF refl] H unfolding sealed_def by auto
qed

lemma DFlush_sealed:
  assumes s: "sealed D R v p" and c: "struct_ok c" and run: "DFlush p c = (code, p')"
    and d: "\<And>f. 0 \<le> f \<Longrightarrow> disk_byte p f = D f \<and> trans_byte p c f = apply_recs R D f"
  shows "sealed D R v p'" and "0 \<le> f \<Longrightarrow> stable_byte p' f = stable_byte p f"
    and "code = UOK \<Longrightarrow> 0 \<le> f \<Longrightarrow> disk_byte p' f = apply_recs R D f"
proof -
  note F = DFlush_frame[OF run c]
  have ls: "logstream p' = logstream p" "stream_log p'" using F s by (auto simp: logstream_def stream_log_def sealed_def)
  have sb: "stable_byte p' = stable_byte p" using F(1) by (simp add: stable_byte_def fun_eq_iff)
  have "torn D (apply_recs R D) (disk_byte p')"
    unfolding torn_def using DFlush_bytes(1)[OF run c] d by metis
  then show "sealed D R v p'" using sealed_frame[OF s _ ls] F(1) sb by simp
  show "0 \<le> f \<Longrightarrow> stable_byte p' f = stable_byte p f" using sb by simp
  show "code = UOK \<Longrightarrow> 0 \<le> f \<Longrightarrow> disk_byte p' f = apply_recs R D f"
    using DFlush_bytes(2)[OF run c] d by simp
qed

lemma DSync_sealed:
  assumes s: "sealed D R v p" and fl: "flushed p c" and run: "DSync p c = (code, p', c')"
  shows "sealed D R v p'" and "cache_ok p' c'" and "no_dirty c'" and "disk_byte p' = disk_byte p"
proof -
  have sl: "stream_log p" using s by (simp add: sealed_def)
  note S = DSync_ok[OF run fl sl]
  have ls: "logstream p' = logstream p" "stream_log p'" using S(3,4) sl by (simp_all add: logstream_def stream_log_def)
  show db: "disk_byte p' = disk_byte p" using S(3) by (simp add: disk_byte_def fun_eq_iff)
  have "torn D (apply_recs R D) (disk_byte p')" using s db by (simp add: sealed_def)
  moreover have "stable_byte p' f = stable_byte p f \<or> stable_byte p' f = disk_byte p' f" for f
    using S(6)[of f] db by (auto simp: stable_byte_def disk_byte_def fun_eq_iff)
  ultimately show "sealed D R v p'" using sealed_frame[OF s S(5) ls] by blast
  show "cache_ok p' c'" "no_dirty c'" by (fact S)+
qed

lemma DSync_all_stable:
  assumes fl: "flushed p c" and sl: "stream_log p" and run: "DSync p c = (UOK, p', c')" and f: "0 \<le> f"
    and old: "disk_byte p0 f = D f" "stable_byte p f = D f" and c0: "trans_byte p0 c f = E f" "disk_byte p f = E f"
  shows "stable_byte p' f = E f"
proof (cases "\<exists>b \<in> set (Buffers c). dirty b \<and> bfile b = f")
  case True
  then obtain b where "b \<in> set (Buffers c)" "dirty b" "bfile b = f" by blast
  then have "stable p' f = files p f" using DSync_ok(7)[OF run fl sl refl] by blast
  then show ?thesis using c0(2) by (simp add: stable_byte_def disk_byte_def fun_eq_iff)
next
  case False
  then have "dirty_buf c f pg = None" for pg unfolding dirty_buf_None by (metis nth_mem)
  then have "E f = D f" using c0(1) old(1) by (auto simp: trans_byte_def fun_eq_iff)
  moreover have "stable p' f = stable p f \<or> stable p' f = files p f" by (rule DSync_ok(6)[OF run fl sl])
  ultimately show ?thesis using old(2) c0(2) by (auto simp: stable_byte_def disk_byte_def fun_eq_iff)
qed

definition next_version :: "ubik_dbase \<Rightarrow> ubik_version" where
  "next_version d = (version d)\<lparr>counter := counter (version d) + 1\<rparr>"

text \<open>The end of a commit: the label and the log.\<close>

lemma label_sealed:
  assumes s: "sealed D R v p" and run: "uphys_setlabel p 0 w = (code, p')"
  shows "sealed D R v p'" and "disk_byte p' = disk_byte p"
    and "\<And>f. stable_byte p f = disk_byte p f \<Longrightarrow> stable_byte p' f = disk_byte p' f"
    and "cache_ok p c \<Longrightarrow> cache_ok p' c"
proof -
  note L = setlabel_frame[OF run]
  have ls: "logstream p' = logstream p" "stream_log p'"
    using L(2,4) s by (simp_all add: logstream_def stream_log_def sealed_def)
  have "torn D (apply_recs R D) (disk_byte p')" using s L(1) by (simp add: sealed_def)
  then show "sealed D R v p'" using sealed_frame[OF s L(3) ls] L(5) unfolding L(1) by blast
  show "disk_byte p' = disk_byte p" by (fact L(1))
  show "stable_byte p' f = disk_byte p' f" if "stable_byte p f = disk_byte p f" for f
    using L(5)[of f] that unfolding L(1) by metis
  show "cache_ok p' c" if "cache_ok p c"
  proof -
    have "bdata b = disk_page p' (bfile b) (bpage b)"
      if b: "b \<in> set (Buffers c)" "bfile b \<noteq> BADFID" "\<not> dirty b" for b
    proof -
      have "buf_ok b" using \<open>cache_ok p c\<close> b(1) by (simp add: cache_ok_def struct_ok_def)
      then have "0 \<le> bpage b" using b(2) by (simp add: buf_ok_def)
      then show ?thesis using L(6) \<open>cache_ok p c\<close> b by (simp add: cache_ok_def coherent_def)
    qed
    then show ?thesis using that by (simp add: cache_ok_def coherent_def)
  qed
qed

lemma no_dirty_trans: "no_dirty c \<Longrightarrow> trans_byte p c = disk_byte p"
  by (intro ext) (simp add: trans_byte_page disk_byte_page no_dirty_trans_page)

lemma idle_after_commit:
  assumes s: "sealed D R v p" and ok: "\<forall>r \<in> set R. rec_ok r" "length (encs R) < 2147483648"
    and tr: "uphys_truncate p LOGFILE 0 = (UOK, p')" and c: "cache_ok p c" "no_dirty c"
    and d: "\<And>f. 0 \<le> f \<Longrightarrow> disk_byte p f = apply_recs R D f \<and> stable_byte p f = apply_recs R D f"
    and d': "dphys d' = p'" "dcache d' = c"
  shows "idle (apply_recs R D) d'"
proof -
  have sl: "stream_log p" using s by (simp add: sealed_def)
  note T = truncate_log[OF tr sl]
  obtain H where H: "length H = 64" "stable p LOGFILE = H @ encs R @ enc (LEnd v)" "logstream p = stable p LOGFILE"
    using s by (auto simp: sealed_def)
  have "logstream p' = H" using T(4)[OF refl] H by (simp add: ftruncate_def)
  then have "log_holds p' []" using H(1) by (simp add: log_holds_def)
  moreover have "harmless (stable p' LOGFILE) (apply_recs R D)"
    using harmless_committed[OF H(1) ok] T(2) H(2) by simp
  moreover have "disk_byte p' f = apply_recs R D f \<and> stable_byte p' f = apply_recs R D f \<and> trans_byte p' c f = apply_recs R D f"
    if "0 \<le> f" for f
    using data_same_bytes(1,2)[OF T(1) that] d[OF that] c(2) by (simp add: no_dirty_trans)
  ultimately show ?thesis
    unfolding idle_def in_trans_def d' using data_same_cache(1)[OF T(1) c(1)] c(2) T(3) by simp
qed

lemma truncate_sealed:
  assumes s: "sealed D R v p" and tr: "uphys_truncate p LOGFILE 0 = (code, p')" and "code \<noteq> UOK"
  shows "sealed D R v p'"
proof -
  have sl: "stream_log p" using s by (simp add: sealed_def)
  note T = truncate_log[OF tr sl]
  have "torn D (apply_recs R D) (disk_byte p')"
    using s data_same_bytes(1)[OF T(1)] by (simp add: sealed_def torn_def)
  then show ?thesis
    using sealed_frame[OF s _ T(5)[OF assms(3)] T(3)] T(2) data_same_bytes(2)[OF T(1)] by simp
qed

text \<open>The three ways a commit can end.\<close>

lemma commit_local_outcome:
  assumes t: "in_trans D R d" and tn: "activeTruncs (tr d t) = []" and run: "commit_local d t = (code, d')"
  shows "code \<noteq> UOK \<and> code \<noteq> UPANIC \<and> (\<exists>p1. udisk_LogEnd (dphys d) (next_version d) = (code, p1) \<and> d' = d\<lparr>dphys := p1\<rparr>)
    \<or> code = UPANIC \<and> sealed D R (next_version d) (dphys d')
    \<or> code = UOK \<and> idle (apply_recs R D) d' \<and> version d' = next_version d"
proof -
  let ?v = "next_version d" and ?c = "dcache d" and ?E = "apply_recs R D"
  have ok: "\<forall>r \<in> set R. rec_ok r" "length (encs R) < 2147483648" using t by (auto simp: in_trans_def log_holds_def)
  obtain c1 p1 where le: "udisk_LogEnd (dphys d) ?v = (c1, p1)" by fastforce
  show ?thesis
  proof (cases "c1 = UOK")
    case False
    have "stream_log (dphys d)" using t by (simp add: in_trans_def)
    then have "c1 \<noteq> UPANIC" using LogEnd_cases(3)[OF le] by simp
    moreover have "code = c1" "d' = d\<lparr>dphys := p1\<rparr>" using run le False by (simp_all add: commit_local_def next_version_def)
    ultimately show ?thesis using le False by blast
  next
    case True
    note L = LogEnd_sealed[OF t le[unfolded True]]
    have st: "struct_ok ?c" using L(2) by (simp add: cache_ok_def)
    obtain c2 p2 where df: "DFlush p1 ?c = (c2, p2)" by fastforce
    note F = DFlush_sealed[OF L(1) st df]
    obtain c3 p3 ch3 where ds: "DSync p2 ?c = (c3, p3, ch3)" by (metis prod_cases3)
    obtain c5 p5 where sl: "uphys_setlabel p3 0 ?v = (c5, p5)" by fastforce
    obtain c6 p6 where tr: "uphys_truncate p5 LOGFILE 0 = (c6, p6)" by fastforce
    define d4 where "d4 = upd_trans (d\<lparr>dphys := p3, dcache := ch3, version := ?v\<rparr>) t (\<lambda>tt. tt\<lparr>activeTruncs := []\<rparr>)"
    have d4: "DoTruncs (d\<lparr>dphys := p3, dcache := ch3, version := ?v\<rparr>) t = (UOK, d4)"
      using tn by (simp add: DoTruncs_def d4_def upd_trans_def)
    have d4s: "dphys d4 = p3" "dcache d4 = ch3" "version d4 = ?v" by (simp_all add: d4_def upd_trans_def)
    have "commit_local d t = (if c2 \<noteq> UOK then (UPANIC, d\<lparr>dphys := p2, version := ?v\<rparr>)
        else if c3 \<noteq> UOK then (UPANIC, d\<lparr>dphys := p3, dcache := ch3, version := ?v\<rparr>)
        else if c5 \<noteq> UOK then (UPANIC, d4\<lparr>dphys := p5\<rparr>)
        else (if c6 \<noteq> UOK then UPANIC else UOK, d4\<lparr>dphys := p6\<rparr>))"
      unfolding commit_local_def next_version_def[symmetric]
      by (simp add: le True df ds d4 sl tr d4s(1) Let_def)
    note res = this[unfolded run]
    have F': "sealed D R ?v p2" by (rule F(1)) (use L(4) in auto)
    show ?thesis
    proof (cases "c2 = UOK")
      case False
      then show ?thesis using res F' by simp
    next
      case True
      have fl: "flushed p2 ?c" using DFlush_flushed[OF df[unfolded True] L(2)] .
      have new2: "disk_byte p2 f = ?E f" if "0 \<le> f" for f by (rule F(3)[OF _ True that]) (use L(4) in auto)
      note S = DSync_sealed[OF F' fl ds]
      note B = label_sealed[OF S(1) sl]
      show ?thesis
      proof (cases "c3 = UOK \<and> c5 = UOK \<and> c6 = UOK")
        case False
        have "sealed D R ?v (dphys d')"
          using res True False S(1) B(1) truncate_sealed[OF B(1) tr] by (auto split: if_splits)
        moreover have "code = UPANIC" using res True False by (auto split: if_splits)
        ultimately show ?thesis by simp
      next
        case ok3: True
        have sl2: "stream_log p2" using F' by (simp add: sealed_def)
        have "stable_byte p3 f = ?E f" if f: "0 \<le> f" for f
        proof (rule DSync_all_stable[OF fl sl2 _ f, of p3 ch3 p1 D])
          show "stable_byte p2 f = D f" using F(2)[OF _ f] L(4)[OF f] L(4) by simp
        qed (use ds ok3 L(4)[OF f] new2[OF f] in auto)
        then have "disk_byte p5 f = ?E f \<and> stable_byte p5 f = ?E f" if "0 \<le> f" for f
          using B(2) B(3)[of f] S(4) new2[OF that] that by simp
        then have "idle ?E d'"
          by (intro idle_after_commit[OF B(1) ok tr[unfolded ok3[THEN conjunct2, THEN conjunct2]] B(4)[OF S(2)] S(3)])
            (use res True ok3 d4s in \<open>auto split: if_splits\<close>)
        moreover have "code = UOK" "version d' = ?v" using res True ok3 d4s by auto
        ultimately show ?thesis by simp
      qed
    qed
  qed
qed

section \<open>The other operations of a transaction\<close>

text \<open>A write transaction that may still be aborted: whatever its pages hold.\<close>

definition open_trans :: "store \<Rightarrow> lrec list \<Rightarrow> ubik_dbase \<Rightarrow> bool" where
  "open_trans D R d \<longleftrightarrow> cache_ok (dphys d) (dcache d) \<and> stream_log (dphys d) \<and> log_holds (dphys d) R \<and>
     (\<forall>f \<ge> 0. disk_byte (dphys d) f = D f \<and> stable_byte (dphys d) f = D f) \<and>
     harmless (stable (dphys d) LOGFILE) D"

lemma in_trans_open:
  "in_trans D R d \<longleftrightarrow> open_trans D R d \<and> (\<forall>f \<ge> 0. trans_byte (dphys d) (dcache d) f = apply_recs R D f)"
  by (auto simp: in_trans_def open_trans_def)

lemma log_append:
  assumes "log_holds p R" and "logstream p' = logstream p @ enc r" and "rec_ok r"
    and "length (encs R) + length (enc r) < 2147483648"
  shows "log_holds p' (R @ [r])"
  using assms by (auto simp: log_holds_def)

lemma begin_ok:
  assumes i: "idle D d" and run: "udisk_begin d UBIK_WRITETRANS = (code, r, d')"
  shows "code = UOK \<Longrightarrow> in_trans D [LNew] d' \<and> (\<exists>t. r = Some t \<and> transes d' t = Some (new_trans UBIK_WRITETRANS))"
    and "code \<noteq> UOK \<Longrightarrow> idle D d'" and "code \<noteq> UPANIC"
    and "faults (dphys d) = [] \<Longrightarrow> \<not> dbWriting d \<Longrightarrow> code = UOK \<and> faults (dphys d') = []"
proof -
  let ?p = "dphys d" and ?c = "dcache d"
  have sl: "stream_log ?p" using i by (simp add: idle_def in_trans_def)
  obtain c1 p1 where lo: "udisk_LogOpcode ?p LOGNEW False = (c1, p1)" by fastforce
  note L = LogOpcode_ok[OF lo sl]
  have ds: "data_same ?p p1" using L(1,2) by (simp add: data_same_def)
  have co: "cache_ok ?p ?c" using i by (simp add: idle_def in_trans_def)
  have view: "\<forall>f \<ge> 0. disk_byte p1 f = D f \<and> stable_byte p1 f = D f \<and> trans_byte p1 ?c f = D f"
    using i data_same_bytes(1,2)[OF ds] data_same_cache(2)[OF ds co] by (simp add: idle_def in_trans_def)
  have hs: "harmless (stable p1 LOGFILE) D" using i L(2) by (simp add: idle_def in_trans_def)
  have lh: "log_holds ?p []" using i by (simp add: idle_def in_trans_def)
  have "code = c1 \<and> dphys d' = p1 \<or> code = UERR USYNC \<and> d' = d \<and> dbWriting d"
    and dc: "dcache d' = ?c" and c: "code = UOK \<Longrightarrow> \<not> dbWriting d \<and> c1 = UOK"
    using run lo by (auto simp: udisk_begin_def Let_def split: if_splits)
  then consider "code = c1" "dphys d' = p1" | "code = UERR USYNC" "d' = d" "dbWriting d" by blast
  note cs = this
  show "code = UOK \<Longrightarrow> in_trans D [LNew] d' \<and> (\<exists>t. r = Some t \<and> transes d' t = Some (new_trans UBIK_WRITETRANS))"
  proof -
    assume u: "code = UOK"
    then have p': "dphys d' = p1" and u1: "c1 = UOK" using cs by auto
    have "log_holds p1 ([] @ [LNew])" by (rule log_append[OF lh]) (use L(5)[OF u1] in auto)
    then have "in_trans D [LNew] d'"
      unfolding in_trans_def p' dc using data_same_cache(1)[OF ds co] L(3) view hs by simp
    moreover have "\<exists>t. r = Some t \<and> transes d' t = Some (new_trans UBIK_WRITETRANS)"
      using run lo u c[OF u] by (auto simp: udisk_begin_def Let_def split: if_splits)
    ultimately show ?thesis by blast
  qed
  show "code \<noteq> UOK \<Longrightarrow> idle D d'"
  proof -
    assume u: "code \<noteq> UOK"
    show ?thesis using cs
    proof cases
      case 1
      have "log_holds p1 []" using lh L(6) u 1 by (simp add: log_holds_def)
      then show ?thesis
        unfolding idle_def in_trans_def 1(2) dc
        using data_same_cache(1)[OF ds co] L(3) view hs i by (simp add: idle_def)
    qed (use i in simp)
  qed
  show "code \<noteq> UPANIC" using cs L(4) by auto
  show "faults ?p = [] \<Longrightarrow> \<not> dbWriting d \<Longrightarrow> code = UOK \<and> faults (dphys d') = []" using cs L(7) by auto
qed

text \<open>Writing, when no system call fails.\<close>

definition write_ok :: "int \<Rightarrow> int \<Rightarrow> byte list \<Rightarrow> lrec list \<Rightarrow> bool" where
  "write_ok f pos bs R \<longleftrightarrow> rec_ok (LData f pos bs) \<and> bs \<noteq> [] \<and> length (encs R) + 16 + length bs < 2147483648"

lemma write_trans:
  assumes o: "open_trans D R d" and nf: "faults (dphys d) = []" and w: "write_ok f pos bs R"
    and t: "\<not> trDone (tr d t)" "ttype (tr d t) = UBIK_WRITETRANS" and run: "udisk_write d t f bs pos = (code, d')"
  shows "open_trans D (R @ [LData f pos bs]) d'" and "faults (dphys d') = []" and "code \<in> {UOK, UERR UIOERROR}"
    and "code = UOK \<Longrightarrow> in_trans D R d \<Longrightarrow> in_trans D (R @ [LData f pos bs]) d'"
proof -
  let ?p = "dphys d" and ?c = "dcache d"
  have rec: "rec_ok (LData f pos bs)" "bs \<noteq> []" using w by (auto simp: write_ok_def)
  have f: "0 \<le> f" "0 \<le> pos" using rec by auto
  have sl: "stream_log ?p" using o by (simp add: open_trans_def)
  obtain c1 p1 where lw: "udisk_LogWriteData ?p f bs pos = (c1, p1)" by fastforce
  note L = LogWriteData_ok[OF lw sl nf rec(2)]
  have ds: "data_same ?p p1" using L(3,4) by (simp add: data_same_def)
  have co: "cache_ok ?p ?c" using o by (simp add: open_trans_def)
  have co1: "cache_ok p1 ?c" using data_same_cache(1)[OF ds co] .
  obtain c2 p2 ch where wl: "udisk_write_loop p1 ?c UBIK_WRITETRANS f pos bs = (c2, p2, ch)" by (metis prod_cases3)
  note W = udisk_write_loop_ok[OF wl co1 L(2) f]
  have d': "code = c2" "dphys d' = p1" "dcache d' = ch"
    using run t lw L(1) wl W by (auto simp: udisk_write_def upd_trans_def Let_def)
  have "log_holds p1 (R @ [LData f pos bs])"
    by (rule log_append[OF _ L(6) rec(1)]) (use o w in \<open>auto simp: open_trans_def write_ok_def\<close>)
  then show o': "open_trans D (R @ [LData f pos bs]) d'"
    unfolding open_trans_def d'(2,3)
    using W L(4,5) o data_same_bytes(1,2)[OF ds] by (simp add: open_trans_def)
  show "faults (dphys d') = []" using d' L(2) by simp
  show "code \<in> {UOK, UERR UIOERROR}" using d' W by simp
  show "in_trans D (R @ [LData f pos bs]) d'" if "code = UOK" "in_trans D R d"
  proof -
    have v: "trans_byte p1 ch = apply_rec (LData f pos bs) (trans_byte p1 ?c)" using W d' that(1) by simp
    have "trans_byte p1 ?c g = apply_recs R D g" if "0 \<le> g" for g
      using data_same_cache(2)[OF ds co that] \<open>in_trans D R d\<close> that by (simp add: in_trans_def)
    then have "trans_byte p1 ch g = apply_recs (R @ [LData f pos bs]) D g" if "0 \<le> g" for g
      unfolding v using that f(1) by (auto simp: fun_eq_iff)
    then show ?thesis unfolding in_trans_open using o' d' by simp
  qed
qed

text \<open>Reading changes nothing that matters.\<close>

lemma read_trans:
  assumes t: "in_trans D R d" and f: "0 \<le> f" "0 \<le> pos" and run: "udisk_read d t f pos len = (code, bs, d')"
  shows "in_trans D R d'"
    and "code = UOK \<Longrightarrow> length bs = nat len \<and> (\<forall>j < nat len. bs ! j =
      (if ttype (tr d t) = UBIK_WRITETRANS then apply_recs R D else D) f (nat pos + j))"
proof -
  let ?p = "dphys d" and ?c = "dcache d"
  have co: "cache_ok ?p ?c" using t by (simp add: in_trans_def)
  have "in_trans D R d' \<and> (code = UOK \<longrightarrow> length bs = nat len \<and> (\<forall>j < nat len. bs ! j =
      (if ttype (tr d t) = UBIK_WRITETRANS then apply_recs R D else D) f (nat pos + j)))"
  proof (cases "trDone (tr d t)")
    case True
    then show ?thesis using run t by (auto simp: udisk_read_def)
  next
    case False
    obtain c1 b1 p1 ch where rl: "udisk_read_loop ?p ?c (ttype (tr d t)) f pos len = (c1, b1, p1, ch)" by (metis prod_cases4)
    note R = udisk_read_loop_ok[OF rl co f]
    have d': "code = c1" "bs = b1" "dphys d' = p1" "dcache d' = ch" using run False rl by (auto simp: udisk_read_def)
    have so: "struct_ok ?c" "struct_ok ch" using co R by (auto simp: cache_ok_def)
    have tv: "view_byte p1 ch ty = view_byte ?p ?c ty" for ty by (rule view_byte_same[OF so]) (use R in auto)
    have "trans_byte p1 ch = trans_byte ?p ?c" using tv[of UBIK_WRITETRANS] by (simp add: view_byte_def)
    moreover have "disk_byte p1 = disk_byte ?p" "stable_byte p1 = stable_byte ?p" "logstream p1 = logstream ?p"
      "stream_log p1 = stream_log ?p" "stable p1 = stable ?p"
      using R by (simp_all add: disk_byte_def stable_byte_def logstream_def stream_log_def fun_eq_iff)
    ultimately have "in_trans D R d'" using t R unfolding in_trans_def d' log_holds_def by simp
    moreover have "view_byte ?p ?c (ttype (tr d t)) f = (if ttype (tr d t) = UBIK_WRITETRANS then apply_recs R D else D) f"
      using t f(1) by (cases "ttype (tr d t)") (auto simp: view_byte_def in_trans_def)
    ultimately show ?thesis using R d' by simp
  qed
  then show "in_trans D R d'" "code = UOK \<Longrightarrow> length bs = nat len \<and> (\<forall>j < nat len. bs ! j =
      (if ttype (tr d t) = UBIK_WRITETRANS then apply_recs R D else D) f (nat pos + j))" by blast+
qed

section \<open>Abort\<close>

definition safe :: "store \<Rightarrow> phys \<Rightarrow> bool" where
  "safe D p \<longleftrightarrow> (\<forall>q. crash p q \<longrightarrow> (\<exists>q'. ReplayLog q = Some (UOK, q') \<and> recovered q D q') \<and> harmless (stable q LOGFILE) D)"

lemma LogAbort_cases:
  assumes run: "udisk_LogOpcode p LOGABORT True = (code, p')" and sl: "stream_log p"
  shows "data_same p p'" and "stream_log p'"
    and "logstream p' = logstream p \<or> logstream p' = logstream p @ enc LAbort"
    and "stable p' LOGFILE = stable p LOGFILE \<or> stable p' LOGFILE = logstream p @ enc LAbort"
proof -
  obtain n p1 where a: "uphys_buf_append p LOGFILE (enc LAbort) = (n, p1)" by fastforce
  note A = append_log[OF a sl]
  obtain c2 p2 where s: "uphys_sync p1 LOGFILE = (c2, p2)" by fastforce
  note S = sync_log[OF s A(3)]
  have len: "length (enc LAbort) = 4" "enc LAbort \<noteq> []" by (auto simp: htonl_bytes_def)
  have r: "p' = (if n \<noteq> 4 then p1 else p2)"
    using run a s by (auto simp: udisk_LogOpcode_def split: if_splits)
  have n: "n = 4 \<Longrightarrow> logstream p1 = logstream p @ enc LAbort" "n \<noteq> 4 \<Longrightarrow> logstream p1 = logstream p"
    using A(5,6) len by auto
  show "data_same p p'" "stream_log p'" using r A(1-3) S(1,2) by (auto simp: data_same_def)
  show "logstream p' = logstream p \<or> logstream p' = logstream p @ enc LAbort" using r n S(3) by (auto simp del: enc.simps)
  show "stable p' LOGFILE = stable p LOGFILE \<or> stable p' LOGFILE = logstream p @ enc LAbort"
    using r n S(5,6) A(2) by (cases "c2 = UOK") (auto simp del: enc.simps)
qed

lemma safe_log:
  assumes H: "length H = 64" and ok: "\<forall>r \<in> set R. rec_ok r" "length (encs R) < 2147483648"
    and ls: "logstream p = H @ encs R \<or> logstream p = H @ encs R @ enc LAbort"
    and st: "harmless (stable p LOGFILE) D"
    and d: "\<forall>f \<ge> 0. disk_byte p f = D f \<and> stable_byte p f = D f"
  shows "safe D p"
  unfolding safe_def
proof (intro allI impI)
  fix q
  assume c: "crash p q"
  have q: "quiet q" and li: "log_image p (files q LOGFILE)" using c by (auto simp: crash_def)
  have "harmless (take n (logstream p)) D" for n
    using ls harmless_prefix[OF H ok, of n D] harmless_cut[OF H ok, of "take n (logstream p)" n "enc LAbort" undefined D] by auto
  then have h: "harmless (files q LOGFILE) D" using li st by (auto simp: log_image_def)
  show "(\<exists>q'. ReplayLog q = Some (UOK, q') \<and> recovered q D q') \<and> harmless (stable q LOGFILE) D"
    using harmlessD[OF h q refl crash_view[OF c d]] h c by (simp add: crash_def)
qed

lemma open_trans_safe: "open_trans D R d \<Longrightarrow> safe D (dphys d)"
  unfolding open_trans_def log_holds_def by (metis safe_log)

lemma abort_ok:
  assumes o: "open_trans D R d" and w: "\<not> trDone (tr d t)" "ttype (tr d t) = UBIK_WRITETRANS" "dbWriting d"
    and run: "udisk_abort d t = (code, d')"
  shows "code = UOK \<Longrightarrow> idle D d' \<and> dbWriting d' \<and> rwlock d' = rwlock d \<and> ttype (tr d' t) = UBIK_WRITETRANS \<and> trDone (tr d' t)"
    and "code \<noteq> UOK \<Longrightarrow> code = UPANIC" and "safe D (dphys d')"
proof -
  let ?p = "dphys d"
  obtain H where H: "length H = 64" "logstream ?p = H @ encs R" "\<forall>r \<in> set R. rec_ok r" "length (encs R) < 2147483648"
    using o by (auto simp: open_trans_def log_holds_def)
  have sl: "stream_log ?p" and co: "cache_ok ?p (dcache d)" using o by (auto simp: open_trans_def)
  obtain c1 p1 where la: "udisk_LogOpcode ?p LOGABORT True = (c1, p1)" by fastforce
  note L = LogAbort_cases[OF la sl]
  obtain c2 p2 where tr: "uphys_truncate p1 LOGFILE 0 = (c2, p2)" by fastforce
  note T = truncate_log[OF tr L(2)]
  have ds: "data_same ?p p2" using data_same_trans[OF L(1) T(1)] .
  have view: "\<forall>f \<ge> 0. disk_byte p2 f = D f \<and> stable_byte p2 f = D f"
    using o data_same_bytes(1,2)[OF ds] by (simp add: open_trans_def)
  have ab: "harmless (H @ encs R @ enc LAbort) D"
    by (rule harmless_cut[OF H(1,3,4), of _ "64 + length (encs R) + 4" "enc LAbort" undefined]) (use H(1) in auto)
  have hs: "harmless (stable p2 LOGFILE) D"
    using L(4) T(2) ab H(2) o by (auto simp: open_trans_def simp del: enc.simps)
  have res: "c2 = UOK \<Longrightarrow> code = UOK \<and> d' = upd_trans (d\<lparr>dphys := p2, dcache := DAbort (dcache d)\<rparr>) t (\<lambda>tt. tt\<lparr>trAbort := True, trDone := True\<rparr>)"
    "c2 \<noteq> UOK \<Longrightarrow> code = UPANIC \<and> d' = d\<lparr>dphys := p2\<rparr>"
    using run w la tr by (simp_all add: udisk_abort_def)
  have lg: "logstream p1 = H @ encs R \<or> logstream p1 = H @ encs R @ enc LAbort" using L(3) H(2) by auto
  have lg2: "c2 = UOK \<Longrightarrow> logstream p2 = H" using T(4) lg H(1) by (auto simp: ftruncate_def)
  show "code \<noteq> UOK \<Longrightarrow> code = UPANIC" using res by (cases "c2 = UOK") auto
  show "code = UOK \<Longrightarrow> idle D d' \<and> dbWriting d' \<and> rwlock d' = rwlock d \<and> ttype (tr d' t) = UBIK_WRITETRANS \<and> trDone (tr d' t)"
  proof -
    assume "code = UOK"
    then have c2: "c2 = UOK" using res by (cases "c2 = UOK") auto
    have d': "dphys d' = p2" "dcache d' = DAbort (dcache d)" using res(1)[OF c2] by (auto simp: upd_trans_def)
    note A = DAbort_ok[OF data_same_cache(1)[OF ds co]]
    have "log_holds p2 []" using lg2[OF c2] H(1) by (simp add: log_holds_def)
    then have "idle D d'"
      unfolding idle_def in_trans_def d' using A T(3) view hs by (simp add: no_dirty_trans)
    then show ?thesis using res(1)[OF c2] w by (simp add: upd_trans_def)
  qed
  show "safe D (dphys d')"
  proof (cases "c2 = UOK")
    case True
    have "safe D p2" by (rule safe_log[OF H(1) _ _ _ hs view, of "[]"]) (use lg2[OF True] in auto)
    then show ?thesis using res(1)[OF True] by (simp add: upd_trans_def)
  next
    case False
    have "safe D p2" by (rule safe_log[OF H(1,3,4) _ hs view]) (use T(5)[OF False] lg in simp)
    then show ?thesis using res(2)[OF False] by simp
  qed
qed

section \<open>A crash during commit\<close>

text \<open>The log without, with a torn, or with a complete commit record.\<close>

lemma crash_unsealed:
  assumes t: "in_trans D R d" and le: "udisk_LogEnd (dphys d) v = (code, p1)" and err: "code \<noteq> UOK" and c: "crash p1 q"
  shows "\<exists>rc q'. ReplayLog q = Some (rc, q') \<and>
    (rc = UOK \<and> (recovered q D q' \<and> harmless (stable q LOGFILE) D \<or>
                  recovered q (apply_recs R D) q' \<and> harmless (stable q LOGFILE) (apply_recs R D)) \<or>
     rc = UERR UBADLOG \<and> (\<forall>f \<ge> 0. disk_byte q' f = apply_recs R D f))"
proof -
  have sl: "stream_log (dphys d)" using t by (simp add: in_trans_def)
  note L = LogEnd_cases[OF le sl]
  obtain H where H: "length H = 64" "logstream (dphys d) = H @ encs R" "\<forall>r \<in> set R. rec_ok r" "length (encs R) < 2147483648"
    using t by (auto simp: in_trans_def log_holds_def)
  have q: "quiet q" "stable q = files q" and li: "log_image p1 (files q LOGFILE)" using c by (auto simp: crash_def)
  have "\<forall>f \<ge> 0. disk_byte p1 f = D f \<and> stable_byte p1 f = D f"
    using t data_same_bytes(1,2)[OF L(1)] by (simp add: in_trans_def)
  note v = crash_view[OF c this]
  have old: ?thesis if h: "harmless (files q LOGFILE) D"
    using harmlessD[OF h q(1) refl v] h q(2) by auto
  have "files q LOGFILE = stable (dphys d) LOGFILE \<or> (\<exists>n \<ge> 64. files q LOGFILE = take n (H @ encs R @ enc (LEnd v)) \<or>
      files q LOGFILE = take n (H @ encs R))"
    using li L(5)[OF err] H(2) by (auto simp: log_image_def simp del: enc.simps)
  then consider "harmless (files q LOGFILE) D" | n where "64 \<le> n" "files q LOGFILE = take n (H @ encs R @ enc (LEnd v))"
    using t harmless_prefix[OF H(1,3,4)] by (auto simp: in_trans_def simp del: enc.simps)
  then show ?thesis
  proof cases
    case (2 n)
    have lg: "logbytes q = take (n - 64) (encs R @ enc (LEnd v))"
      unfolding logbytes_def 2(2) by (rule drop_header[OF H(1)])
    consider "n < 64 + length (encs R) + 4" | "64 + length (encs R) + 4 \<le> n" "n < 64 + length (encs R) + 12"
      | "64 + length (encs R) + 12 \<le> n" by linarith
    then show ?thesis
    proof cases
      case 1
      have "harmless (files q LOGFILE) D"
        by (rule harmless_cut[OF H(1,3,4) 2(2), of v]) (use 1 in simp)
      then show ?thesis by (rule old)
    next
      case b: 2
      have k: "length (encs R) + 4 \<le> n - 64" "\<not> length (encs R) + 12 \<le> n - 64" using b by auto
      obtain rc q' where r: "ReplayLog q = Some (rc, q')" "rc = UERR UBADLOG"
        "\<forall>f. f \<noteq> LOGFILE \<longrightarrow> disk_byte q' f = apply_recs R (disk_byte q) f"
        using ReplayLog_committed[OF q(1) H(3) lg H(4) k(1)] k(2) by auto
      have "disk_byte q' f = apply_recs R D f" if "0 \<le> f" for f
        using r(3) v that by (intro ext) (simp, metis apply_recs_torn)
      then show ?thesis using r by blast
    next
      case 3
      have full: "files q LOGFILE = H @ encs R @ enc (LEnd v)" using 2(2) 3 H(1) by simp
      then have lg: "logbytes q = encs R @ enc (LEnd v)" using H(1) by (simp add: logbytes_def)
      have "recovered q (apply_recs R D) (replay_done q R v)"
        by (rule replay_done_recovered[OF q(1) H(3) crash_synced[OF c]]) (use v in simp)
      then show ?thesis
        using ReplayLog_complete[OF q(1) H(3) lg H(4)] harmless_committed[OF H(1,3,4), of v D] full q(2) by auto
    qed
  qed (rule old)
qed

end
