(* ===== verification/Ubik_Wal.thy ===== *)
theory Ubik_Wal
  imports Ubik_Crash
begin

text \<open>
  The write-ahead log as a whole: the steps of a server's database (begin, write, read,
  commit, abort, crash and restart) refine an atomic store with one working copy.
\<close>

section \<open>The life of a database\<close>

text \<open>
  The contract: a committed store and, while a write transaction is open, its working
  copy.  Writing changes the copy, commit makes it the store, abort drops it; a crash
  drops it too, unless it comes during a commit, when either may be left.  A read transaction
  sees the committed store, the write transaction its copy.
\<close>

datatype label =
    Begin | Write int int "byte list" | Read trtype int int "byte list" | Abort | Commit | Crash | CommitCrash | Tau

type_synonym txn_state = "store \<times> store option"

definition substore :: "store \<Rightarrow> int \<Rightarrow> int \<Rightarrow> nat \<Rightarrow> byte list" where
  "substore D f pos n = map (\<lambda>j. D f (nat pos + j)) [0..<n]"

fun seen :: "trtype \<Rightarrow> txn_state \<Rightarrow> store" where
  "seen UBIK_WRITETRANS (D, Some W) = W"
| "seen _ (D, _) = D"

inductive astep :: "label \<Rightarrow> txn_state \<Rightarrow> txn_state \<Rightarrow> bool" where
  a_begin: "astep Begin (D, None) (D, Some D)"
| a_write: "astep (Write f pos bs) (D, Some W) (D, Some (apply_rec (LData f pos bs) W))"
| a_read: "bs = substore (seen ty s) f pos (length bs) \<Longrightarrow> astep (Read ty f pos bs) s s"
| a_abort: "astep Abort (D, Some W) (D, None)"
| a_commit: "astep Commit (D, Some W) (W, None)"
| a_crash: "astep Crash (D, w) (D, None)"
| a_torn: "D' \<in> {D, W} \<Longrightarrow> astep CommitCrash (D, Some W) (D', None)"
| a_tau: "astep Tau s s"

text \<open>
  The steps of one server's database.  The first rule lets any later system calls fail;
  writes are made while none does.  A write or a commit that reports an error is
  followed by the end of the transaction or by a crash; a crash may come at any system call
  of a commit or an abort, since each may be the first to fail.  A commit that fails to
  write its record and is then aborted is left out: see \<open>failed_commit_comes_back\<close>.
\<close>

definition writer :: "ubik_dbase \<Rightarrow> nat \<Rightarrow> bool" where
  "writer d t \<longleftrightarrow> dbWriting d \<and> transes d t \<noteq> None \<and> ttype (tr d t) = UBIK_WRITETRANS \<and>
     \<not> trDone (tr d t) \<and> activeTruncs (tr d t) = []"

definition can_write :: "ubik_dbase \<Rightarrow> nat \<Rightarrow> int \<Rightarrow> int \<Rightarrow> byte list \<Rightarrow> bool" where
  "can_write d t f pos bs \<longleftrightarrow> writer d t \<and> faults (dphys d) = [] \<and> rec_ok (LData f pos bs) \<and> bs \<noteq> [] \<and>
     length (logstream (dphys d)) + length bs < 2147483632"

definition halted :: "ubik_dbase \<Rightarrow> ubik_dbase \<Rightarrow> bool" where
  "halted d d1 \<longleftrightarrow> d1 = d \<or> (\<exists>t code. writer d t \<and> udisk_abort d t = (code, d1))"

definition restarted :: "phys \<Rightarrow> ubik_dbase \<Rightarrow> bool" where
  "restarted q d \<longleftrightarrow> dphys d = q \<and> (\<exists>n > 0. dcache d = udisk_Init n) \<and> \<not> dbWriting d"

inductive wstep :: "label \<Rightarrow> ubik_dbase \<Rightarrow> ubik_dbase \<Rightarrow> bool" where
  w_faults: "wstep Tau d (d\<lparr>dphys := (dphys d)\<lparr>faults := fs\<rparr>\<rparr>)"
| w_begin: "\<not> dbWriting d \<Longrightarrow> udisk_begin d UBIK_WRITETRANS = (code, r, d') \<Longrightarrow>
    wstep (if code = UOK then Begin else Tau) d d'"
| w_write: "can_write d t f pos bs \<Longrightarrow> udisk_write d t f bs pos = (UOK, d') \<Longrightarrow> wstep (Write f pos bs) d d'"
| w_write_fails: "can_write d t f pos bs \<Longrightarrow> udisk_write d t f bs pos = (code, d1) \<Longrightarrow> code \<noteq> UOK \<Longrightarrow>
    udisk_end d1 t = (UOK, d') \<Longrightarrow> wstep Abort d d'"
| w_read: "0 \<le> f \<Longrightarrow> 0 \<le> pos \<Longrightarrow> udisk_read d t f pos len = (code, bs, d') \<Longrightarrow>
    wstep (if code = UOK then Read (ttype (tr d t)) f pos bs else Tau) d d'"
| w_abort: "writer d t \<Longrightarrow> udisk_end d t = (UOK, d') \<Longrightarrow> wstep Abort d d'"
| w_commit: "writer d t \<Longrightarrow> commit_local d t = (UOK, d1) \<Longrightarrow>
    udisk_end (upd_trans d1 t (\<lambda>tt. tt\<lparr>trDone := True\<rparr>)) t = (UOK, d') \<Longrightarrow> wstep Commit d d'"
| w_crash: "halted d d1 \<Longrightarrow> crash (dphys d1) q \<Longrightarrow> ReplayLog q = Some (UOK, q') \<Longrightarrow> restarted q' d' \<Longrightarrow> wstep Crash d d'"
| w_torn: "writer d t \<Longrightarrow> commit_local d t = (code, d1) \<Longrightarrow> crash (dphys d1) q \<Longrightarrow> ReplayLog q = Some (UOK, q') \<Longrightarrow>
    restarted q' d' \<Longrightarrow> wstep CommitCrash d d'"

fun sim :: "txn_state \<Rightarrow> ubik_dbase \<Rightarrow> bool" where
  "sim (D, None) d \<longleftrightarrow> idle D d \<and> \<not> dbWriting d"
| "sim (D, Some W) d \<longleftrightarrow> dbWriting d \<and> (\<exists>R. in_trans D R d \<and> W = apply_recs R D)"

lemma in_trans_cong: "dphys d' = dphys d \<Longrightarrow> dcache d' = dcache d \<Longrightarrow> in_trans D R d' = in_trans D R d"
  by (simp add: in_trans_def)

lemma idle_cong: "dphys d' = dphys d \<Longrightarrow> dcache d' = dcache d \<Longrightarrow> idle D d' = idle D d"
  by (simp add: idle_def in_trans_def)

lemma in_trans_faults: "in_trans D R (d\<lparr>dphys := (dphys d)\<lparr>faults := fs\<rparr>\<rparr>) = in_trans D R d"
proof -
  let ?p = "(dphys d)\<lparr>faults := fs\<rparr>"
  have ds: "data_same (dphys d) ?p" "data_same ?p (dphys d)" by (simp_all add: data_same_def)
  have e: "disk_byte ?p = disk_byte (dphys d)" "stable_byte ?p = stable_byte (dphys d)" "logstream ?p = logstream (dphys d)"
    "stream_log ?p = stream_log (dphys d)" "trans_byte ?p = trans_byte (dphys d)"
    by (simp_all add: disk_byte_def stable_byte_def logstream_def stream_log_def trans_byte_def fun_eq_iff split: option.splits)
  have "cache_ok ?p c = cache_ok (dphys d) c" for c using data_same_cache(1) ds by blast
  then show ?thesis by (simp add: in_trans_def log_holds_def e)
qed

lemma udisk_end_done:
  assumes "udisk_end d t = (UOK, d')" and "trDone (tr d t)" and "ttype (tr d t) = UBIK_WRITETRANS" and "dbWriting d"
  shows "dphys d' = dphys d" and "dcache d' = dcache d" and "\<not> dbWriting d'"
  using assms by (auto simp: udisk_end_def ulock_relLock_def unthread_def upd_trans_def Let_def split: if_splits)

lemma udisk_end_abort:
  assumes e: "udisk_end d t = (UOK, d')" and w: "\<not> trDone (tr d t)" "ttype (tr d t) = UBIK_WRITETRANS" "dbWriting d"
    and o: "open_trans D R d"
  shows "idle D d' \<and> \<not> dbWriting d'"
proof -
  obtain c d1 where a: "udisk_abort d t = (c, d1)" by fastforce
  note A = abort_ok[OF o w a]
  have c: "c = UOK" using e w(1) a A(2) by (cases "c = UOK") (auto simp: udisk_end_def)
  note A1 = A(1)[OF c]
  have "udisk_end d1 t = (UOK, d')" using e w(1) a c A1 by (auto simp: udisk_end_def)
  from udisk_end_done[OF this] A1 show ?thesis using idle_cong[of d' d1] by auto
qed

lemma restart_idle:
  assumes "recovered q D q'" and "harmless (stable q LOGFILE) D" and "restarted q' d"
  shows "idle D d"
proof -
  obtain n where d: "dphys d = q'" "dcache d = udisk_Init n" "n > 0" using assms(3) by (auto simp: restarted_def)
  have nd: "no_dirty (udisk_Init n)" by (simp add: no_dirty_def udisk_Init_def)
  have q: "buf_stream q' = None" "length (files q' LOGFILE) = 64" using assms(1) by (auto simp: recovered_def quiet_def)
  have "log_holds q' []" "stream_log q'" using q by (simp_all add: log_holds_def logstream_def stream_log_def)
  then show ?thesis
    unfolding idle_def in_trans_def d using assms(1,2) cache_ok_Init[OF d(3)] nd
    by (simp add: recovered_def no_dirty_trans)
qed

lemma read_keeps:
  assumes "in_trans D R d" and "0 \<le> f" "0 \<le> pos" and "udisk_read d t f pos len = (code, bs, d')"
  shows "no_dirty (dcache d) \<Longrightarrow> no_dirty (dcache d')" and "dbWriting d' = dbWriting d"
proof -
  have co: "cache_ok (dphys d) (dcache d)" using assms(1) by (simp add: in_trans_def)
  obtain c1 b1 p1 ch where rl: "udisk_read_loop (dphys d) (dcache d) (ttype (tr d t)) f pos len = (c1, b1, p1, ch)"
    by (metis prod_cases4)
  have "d' = (if trDone (tr d t) then d else d\<lparr>dphys := p1, dcache := ch\<rparr>)"
    using assms(4) rl by (auto simp: udisk_read_def split: if_splits)
  moreover have "dirty_same (dcache d) ch" using udisk_read_loop_ok[OF rl co assms(2,3)] by blast
  ultimately show "no_dirty (dcache d) \<Longrightarrow> no_dirty (dcache d')" "dbWriting d' = dbWriting d"
    using no_dirty_same by auto
qed

lemma crash_halted:
  assumes t: "in_trans D R d" and h: "halted d d1" and c: "crash (dphys d1) q" and r: "ReplayLog q = Some (UOK, q')"
  shows "recovered q D q' \<and> harmless (stable q LOGFILE) D"
proof -
  have o: "open_trans D R d" using t in_trans_open by blast
  have "safe D (dphys d1)"
    using h open_trans_safe[OF o] abort_ok(3)[OF o] by (auto simp: halted_def writer_def)
  then show ?thesis using c r unfolding safe_def by auto
qed

text \<open>A crash anywhere in a commit leaves all of the transaction or none of it.\<close>

lemma crash_commit:
  assumes t: "in_trans D R d" and tn: "activeTruncs (tr d t) = []" and cl: "commit_local d t = (code, d1)"
    and c: "crash (dphys d1) q" and r: "ReplayLog q = Some (UOK, q')"
  shows "recovered q D q' \<and> harmless (stable q LOGFILE) D \<or>
    recovered q (apply_recs R D) q' \<and> harmless (stable q LOGFILE) (apply_recs R D)"
proof -
  have ok: "\<forall>r \<in> set R. rec_ok r" "length (encs R) < 2147483648" using t by (auto simp: in_trans_def log_holds_def)
  from commit_local_outcome[OF t tn cl] show ?thesis
  proof (elim disjE conjE exE)
    fix p1
    assume "code \<noteq> UOK" "udisk_LogEnd (dphys d) (next_version d) = (code, p1)" "d1 = d\<lparr>dphys := p1\<rparr>"
    then show ?thesis using crash_unsealed[OF t, of _ code p1 q] c r by auto
  next
    assume "sealed D R (next_version d) (dphys d1)"
    then show ?thesis using sealed_crash[OF _ ok c] r by auto
  next
    assume "idle (apply_recs R D) d1"
    then show ?thesis using crash_in_trans[OF _ c, of "apply_recs R D" "[]"] r by (auto simp: idle_def)
  qed
qed

lemma commit_local_frame:
  assumes "commit_local d t = (code, d1)"
  shows "dbWriting d1 = dbWriting d" and "transes d t \<noteq> None \<Longrightarrow> ttype (tr d1 t) = ttype (tr d t) \<and> transes d1 t \<noteq> None"
  using assms by (auto simp: commit_local_def DoTruncs_def upd_trans_def Let_def split: if_splits prod.splits option.splits)

lemma begin_frame:
  assumes "udisk_begin d UBIK_WRITETRANS = (code, r, d')"
  shows "dbWriting d' = (dbWriting d \<or> code = UOK)"
  using assms by (auto simp: udisk_begin_def Let_def split: if_splits prod.splits)

lemma write_frame:
  assumes "udisk_write d t f bs pos = (code, d')"
  shows "dbWriting d' = dbWriting d"
    and "transes d t \<noteq> None \<Longrightarrow> ttype (tr d' t) = ttype (tr d t) \<and> trDone (tr d' t) = trDone (tr d t)"
  using assms by (auto simp: udisk_write_def upd_trans_def set_trunc_def Let_def split: if_splits prod.splits option.splits)

lemma can_write_ok: "open_trans D R d \<Longrightarrow> can_write d t f pos bs \<Longrightarrow> write_ok f pos bs R"
  by (auto simp: write_ok_def can_write_def open_trans_def log_holds_def)

lemma sim_writer:
  assumes "sim (D, w) d" and "writer d t"
  obtains R where "w = Some (apply_recs R D)" and "in_trans D R d"
  using assms by (cases w) (auto simp: writer_def)

lemma sim_trans:
  assumes "sim (D, w) d"
  obtains R where "in_trans D R d" and "w = None \<Longrightarrow> R = [] \<and> no_dirty (dcache d)" and "w \<noteq> None \<Longrightarrow> w = Some (apply_recs R D)"
  using assms by (cases w) (auto simp: idle_def)

text \<open>The simulation, step by step.\<close>

lemma sim_begin:
  assumes "sim a d" and "\<not> dbWriting d" and run: "udisk_begin d UBIK_WRITETRANS = (code, r, d')"
  shows "\<exists>a'. astep (if code = UOK then Begin else Tau) a a' \<and> sim a' d'"
proof -
  obtain D where a: "a = (D, None)" "idle D d" using assms by (cases a; cases "snd a") auto
  note B = begin_ok[OF a(2) run] and F = begin_frame[OF run]
  show ?thesis
  proof (cases "code = UOK")
    case True
    then have "sim (D, Some D) d'" using B(1) F by (auto intro!: exI[of _ "[LNew]"])
    then show ?thesis unfolding a(1) if_P[OF True] using a_begin by blast
  next
    case False
    then have "sim a d'" using B(2) F assms(2) a(1) by simp
    then show ?thesis unfolding if_not_P[OF False] using a_tau by blast
  qed
qed

lemma sim_write:
  assumes s: "sim (D, w) d" and cw: "can_write d t f pos bs" and run: "udisk_write d t f bs pos = (UOK, d')"
  shows "\<exists>a'. astep (Write f pos bs) (D, w) a' \<and> sim a' d'"
proof -
  have wr: "writer d t" "faults (dphys d) = []" using cw by (auto simp: can_write_def)
  from sim_writer[OF s wr(1)] obtain R where R: "w = Some (apply_recs R D)" "in_trans D R d" .
  have o: "open_trans D R d" using R(2) in_trans_open by blast
  have "in_trans D (R @ [LData f pos bs]) d'"
    using write_trans(4)[OF o wr(2) can_write_ok[OF o cw] _ _ run] R(2) wr(1) by (simp add: writer_def)
  moreover have "dbWriting d'" using write_frame(1)[OF run] wr(1) by (simp add: writer_def)
  ultimately have "sim (D, Some (apply_rec (LData f pos bs) (apply_recs R D))) d'"
    by (auto intro!: exI[of _ "R @ [LData f pos bs]"])
  then show ?thesis unfolding R(1) using a_write by blast
qed

lemma sim_write_fails:
  assumes s: "sim (D, w) d" and cw: "can_write d t f pos bs" and run: "udisk_write d t f bs pos = (code, d1)"
    and e: "udisk_end d1 t = (UOK, d')"
  shows "\<exists>a'. astep Abort (D, w) a' \<and> sim a' d'"
proof -
  have wr: "writer d t" "faults (dphys d) = []" using cw by (auto simp: can_write_def)
  from sim_writer[OF s wr(1)] obtain R where R: "w = Some (apply_recs R D)" "in_trans D R d" .
  have o: "open_trans D R d" using R(2) in_trans_open by blast
  have "open_trans D (R @ [LData f pos bs]) d1"
    using write_trans(1)[OF o wr(2) can_write_ok[OF o cw] _ _ run] wr(1) by (simp add: writer_def)
  then have "sim (D, None) d'" using udisk_end_abort[OF e] write_frame[OF run] wr(1) by (auto simp: writer_def)
  then show ?thesis unfolding R(1) using a_abort by blast
qed

lemma sim_read:
  assumes s: "sim (D, w) d" and f: "0 \<le> f" "0 \<le> pos" and run: "udisk_read d t f pos len = (code, bs, d')"
  shows "\<exists>a'. astep (if code = UOK then Read (ttype (tr d t)) f pos bs else Tau) (D, w) a' \<and> sim a' d'"
proof -
  from sim_trans[OF s] obtain R where R: "in_trans D R d" "w = None \<Longrightarrow> R = [] \<and> no_dirty (dcache d)"
    "w \<noteq> None \<Longrightarrow> w = Some (apply_recs R D)" by blast
  note K = read_keeps[OF R(1) f run] and T = read_trans[OF R(1) f run]
  have "sim (D, w) d'" using s R K T(1) by (cases w) (auto simp: idle_def)
  moreover have "bs = substore (seen (ttype (tr d t)) (D, w)) f pos (length bs)" if "code = UOK"
    using T(2)[OF that] R(2,3) by (cases "ttype (tr d t)"; cases w) (auto simp: substore_def intro!: nth_equalityI)
  ultimately show ?thesis using a_read a_tau by (cases "code = UOK") (metis (full_types))+
qed

lemma sim_abort:
  assumes s: "sim (D, w) d" and wr: "writer d t" and e: "udisk_end d t = (UOK, d')"
  shows "\<exists>a'. astep Abort (D, w) a' \<and> sim a' d'"
proof -
  from sim_writer[OF s wr] obtain R where R: "w = Some (apply_recs R D)" "in_trans D R d" .
  then have o: "open_trans D R d" using in_trans_open by blast
  have "sim (D, None) d'" using udisk_end_abort[OF e _ _ _ o] wr by (simp add: writer_def)
  then show ?thesis unfolding R(1) using a_abort by blast
qed

lemma sim_commit:
  assumes s: "sim (D, w) d" and wr: "writer d t" and cl: "commit_local d t = (UOK, d1)"
    and e: "udisk_end (upd_trans d1 t (\<lambda>tt. tt\<lparr>trDone := True\<rparr>)) t = (UOK, d')"
  shows "\<exists>a'. astep Commit (D, w) a' \<and> sim a' d'"
proof -
  from sim_writer[OF s wr] obtain R where R: "w = Some (apply_recs R D)" "in_trans D R d" .
  have i: "idle (apply_recs R D) d1" using commit_local_outcome[OF R(2) _ cl] wr by (auto simp: writer_def)
  let ?d = "upd_trans d1 t (\<lambda>tt. tt\<lparr>trDone := True\<rparr>)"
  have d: "trDone (tr ?d t)" "ttype (tr ?d t) = UBIK_WRITETRANS" "dbWriting ?d" "dphys ?d = dphys d1" "dcache ?d = dcache d1"
    using commit_local_frame[OF cl] wr by (auto simp: upd_trans_def writer_def)
  have "sim (apply_recs R D, None) d'" using udisk_end_done[OF e d(1-3)] idle_cong[of d' d1] i d by simp
  then show ?thesis unfolding R(1) using a_commit by blast
qed

lemma sim_crash:
  assumes s: "sim (D, w) d" and "halted d d1" "crash (dphys d1) q" "ReplayLog q = Some (UOK, q')" and rs: "restarted q' d'"
  shows "\<exists>a'. astep Crash (D, w) a' \<and> sim a' d'"
proof -
  from sim_trans[OF s] obtain R where R: "in_trans D R d" by blast
  have "sim (D, None) d'" using crash_halted[OF R assms(2-4)] restart_idle[OF _ _ rs] rs by (auto simp: restarted_def)
  then show ?thesis using a_crash by blast
qed

lemma sim_torn:
  assumes s: "sim (D, w) d" and wr: "writer d t" and c: "commit_local d t = (code, d1)" "crash (dphys d1) q"
    "ReplayLog q = Some (UOK, q')" and rs: "restarted q' d'"
  shows "\<exists>a'. astep CommitCrash (D, w) a' \<and> sim a' d'"
proof -
  from sim_writer[OF s wr] obtain R where R: "w = Some (apply_recs R D)" "in_trans D R d" .
  obtain D' where "D' \<in> {D, apply_recs R D}" "recovered q D' q'" "harmless (stable q LOGFILE) D'"
    using crash_commit[OF R(2) _ c] wr by (auto simp: writer_def)
  moreover from this(2,3) have "sim (D', None) d'" using restart_idle[OF _ _ rs] rs by (auto simp: restarted_def)
  ultimately show ?thesis unfolding R(1) using a_torn by blast
qed

interpretation wal: forward_simulation wstep astep sim
proof
  fix a d l d'
  assume s: "sim a d" and st: "wstep l d d'"
  obtain D w where a: "a = (D, w)" by fastforce
  from st show "\<exists>a'. astep l a a' \<and> sim a' d'"
  proof cases
    case (w_faults fs)
    then have "sim a d'" using s unfolding a by (cases w) (auto simp: idle_def in_trans_faults)
    then show ?thesis using w_faults a_tau by blast
  next
    case (w_begin code r)
    then show ?thesis using sim_begin[OF s] by blast
  next
    case (w_write t f pos bs)
    then show ?thesis unfolding a using sim_write[OF s[unfolded a]] by blast
  next
    case (w_write_fails t f pos bs code d1)
    then show ?thesis unfolding a using sim_write_fails[OF s[unfolded a]] by blast
  next
    case (w_read f pos t len code bs)
    then show ?thesis unfolding a using sim_read[OF s[unfolded a]] by blast
  next
    case (w_abort t)
    then show ?thesis unfolding a using sim_abort[OF s[unfolded a]] by blast
  next
    case (w_commit t d1)
    then show ?thesis unfolding a using sim_commit[OF s[unfolded a]] by blast
  next
    case (w_crash d1 q q')
    then show ?thesis unfolding a using sim_crash[OF s[unfolded a]] by blast
  next
    case (w_torn t code d1 q q')
    then show ?thesis unfolding a using sim_torn[OF s[unfolded a]] by blast
  qed
qed

section \<open>A failed commit\<close>

definition power_loss :: "phys \<Rightarrow> phys" where
  "power_loss p = \<lparr>files = stable p, stable = stable p, buf_stream = None, faults = []\<rparr>"

lemma crash_power_loss: "crash p (power_loss p)"
  by (simp add: crash_def power_loss_def quiet_def log_image_def stable_byte_def disk_byte_def)

lemma flush_nf: "stream_log p \<Longrightarrow> faults p = [] \<Longrightarrow> uphys_buf_flush p LOGFILE = (n, p') \<Longrightarrow> n = 0 \<and> faults p' = []"
  by (auto simp: uphys_buf_flush_def stream_log_def io_step_def stream_flush_def set_file_def Let_def split: option.splits if_splits prod.splits)

lemma sync_nf:
  assumes "stream_log p" and "faults p = []" and "uphys_sync p LOGFILE = (code, p')"
  shows "code = UOK" and "faults p' = []"
proof -
  obtain n p1 where f: "uphys_buf_flush p LOGFILE = (n, p1)" by fastforce
  from flush_nf[OF assms(1,2) f] assms(3) f show "code = UOK" "faults p' = []"
    by (auto simp: uphys_sync_def io_step_def fsync_def)
qed

lemma LogAbort_nf:
  assumes sl: "stream_log p" and nf: "faults p = []" and run: "udisk_LogOpcode p LOGABORT True = (code, p')"
  shows "stable p' LOGFILE = logstream p @ enc LAbort" and "faults p' = []"
proof -
  obtain n p1 where a: "uphys_buf_append p LOGFILE (enc LAbort) = (n, p1)" by fastforce
  note A = append_log[OF a sl]
  have len: "length (enc LAbort) = 4" "enc LAbort \<noteq> []" by (auto simp: htonl_bytes_def)
  have n: "n = 4" "faults p1 = []" using A(7)[OF nf len(2)] len by auto
  obtain c2 p2 where s: "uphys_sync p1 LOGFILE = (c2, p2)" by fastforce
  note S = sync_nf[OF A(3) n(2) s]
  have "p' = p2" using run a s n by (auto simp: udisk_LogOpcode_def split: if_splits)
  moreover have "stable p2 LOGFILE = logstream p @ enc LAbort" using sync_log(5)[OF s A(3) S(1)] A(5) len n by simp
  ultimately show "stable p' LOGFILE = logstream p @ enc LAbort" "faults p' = []" using S by auto
qed


lemma commit_local_error:
  assumes "commit_local d t = (UERR e, d1)"
  obtains p1 where "udisk_LogEnd (dphys d) (next_version d) = (UERR e, p1)" and "d1 = d\<lparr>dphys := p1\<rparr>"
proof -
  obtain c p1 where le: "udisk_LogEnd (dphys d) (next_version d) = (c, p1)" by fastforce
  have "c \<noteq> UOK" using assms le by (auto simp: commit_local_def next_version_def Let_def split: if_splits prod.splits)
  with assms le have "c = UERR e" "d1 = d\<lparr>dphys := p1\<rparr>" by (auto simp: commit_local_def next_version_def Let_def)
  with le that show thesis by blast
qed

lemma replay_power_loss:
  assumes H: "length H = 64" "stable p LOGFILE = H @ encs R @ enc (LEnd v) @ tail"
    and ok: "\<forall>r \<in> set R. rec_ok r" "length (encs R) < 2147483648" and D: "\<forall>f \<ge> 0. stable_byte p f = D f"
  shows "\<exists>q'. ReplayLog (power_loss p) = Some (UOK, q') \<and> recovered (power_loss p) (apply_recs R D) q'"
proof -
  let ?q = "power_loss p"
  have q: "quiet ?q" "logbytes ?q = encs R @ enc (LEnd v) @ tail" using H by (simp_all add: power_loss_def quiet_def logbytes_def)
  have s: "synced_but (- 1) ?q" by (rule crash_synced[OF crash_power_loss])
  have "disk_byte ?q f = stable_byte p f" for f by (simp add: power_loss_def disk_byte_def stable_byte_def fun_eq_iff)
  then have "disk_byte ?q f k = D f k \<or> disk_byte ?q f k = apply_recs R D f k" if "0 \<le> f" for f k using D that by simp
  from ReplayLog_tail[OF q(1) ok(1) q(2) ok(2)] replay_done_recovered[OF q(1) ok(1) s this] show ?thesis by blast
qed

lemma abort_after_end:
  assumes t: "in_trans D R d" and w: "writer d t" and cl: "commit_local d t = (UERR e, d1)"
    and lg: "logstream (dphys d1) = logstream (dphys d) @ enc (LEnd (next_version d))" and nf: "faults (dphys d1) = []"
    and e: "udisk_end d1 t = (UOK, d')"
  shows "data_same (dphys d) (dphys d')" and "no_dirty (dcache d')"
    and "stable (dphys d') LOGFILE = logstream (dphys d) @ enc (LEnd (next_version d)) @ enc LAbort"
proof -
  from commit_local_error[OF cl] obtain p1 where p1: "udisk_LogEnd (dphys d) (next_version d) = (UERR e, p1)" "d1 = d\<lparr>dphys := p1\<rparr>" .
  have co: "cache_ok (dphys d) (dcache d)" "stream_log (dphys d)" using t by (auto simp: in_trans_def)
  note L = LogEnd_cases[OF p1(1) co(2)]
  obtain c2 p2 where la: "udisk_LogOpcode p1 LOGABORT True = (c2, p2)" by fastforce
  obtain c3 p3 where tr: "uphys_truncate p2 LOGFILE 0 = (c3, p3)" by fastforce
  note A = LogAbort_cases[OF la L(2)] and T = truncate_log[OF tr A(2)]
  have ab: "udisk_abort d1 t = (if c3 = UOK
      then (UOK, upd_trans (d1\<lparr>dphys := p3, dcache := DAbort (dcache d)\<rparr>) t (\<lambda>tt. tt\<lparr>trAbort := True, trDone := True\<rparr>))
      else (UPANIC, d1\<lparr>dphys := p3\<rparr>))"
    using w p1(2) la tr by (simp add: udisk_abort_def writer_def)
  have c3: "c3 = UOK" using e ab w p1(2) by (cases "c3 = UOK") (simp_all add: udisk_end_def writer_def)
  let ?d = "upd_trans (d1\<lparr>dphys := p3, dcache := DAbort (dcache d)\<rparr>) t (\<lambda>tt. tt\<lparr>trAbort := True, trDone := True\<rparr>)"
  have e2: "udisk_end ?d t = (UOK, d')" using e ab c3 w p1(2) by (simp add: udisk_end_def writer_def upd_trans_def)
  have E: "dphys d' = p3" "dcache d' = DAbort (dcache d)"
    using udisk_end_done[OF e2] w p1(2) by (auto simp: upd_trans_def writer_def)
  show "data_same (dphys d) (dphys d')" using L(1) A(1) T(1) E(1) data_same_trans by metis
  show "no_dirty (dcache d')" using DAbort_ok[OF co(1)] E(2) by simp
  show "stable (dphys d') LOGFILE = logstream (dphys d) @ enc (LEnd (next_version d)) @ enc LAbort"
    using LogAbort_nf(1)[OF L(2) _ la] nf lg p1(2) T(2) E(1) by (simp del: enc.simps)
qed

text \<open>
  C30: a transaction can come back from the dead.  When the commit record has been
  written but its \<^verbatim>\<open>fsync\<close> fails, \<^verbatim>\<open>udisk_commit\<close> returns the error and the transaction is
  aborted: the running server shows the old contents.  But \<^verbatim>\<open>udisk_abort\<close> puts its record
  behind the commit record, syncs both, and cuts the log without a sync; if power is
  lost now, \<^verbatim>\<open>ReplayLog\<close> stops at the commit record and installs the aborted transaction.
\<close>

theorem failed_commit_comes_back:
  assumes "in_trans D R d" and "writer d t" and "commit_local d t = (UERR e, d1)"
    and "logstream (dphys d1) = logstream (dphys d) @ enc (LEnd (next_version d))" and "faults (dphys d1) = []"
    and "udisk_end d1 t = (UOK, d')"
  shows "(\<forall>f \<ge> 0. disk_byte (dphys d') f = D f) \<and> no_dirty (dcache d') \<and>
    (\<exists>q'. ReplayLog (power_loss (dphys d')) = Some (UOK, q') \<and> (\<forall>f \<ge> 0. disk_byte q' f = apply_recs R D f))"
proof -
  note A = abort_after_end[OF assms]
  obtain H where H: "length H = 64" "logstream (dphys d) = H @ encs R" "\<forall>r \<in> set R. rec_ok r" "length (encs R) < 2147483648"
    using assms(1) by (auto simp: in_trans_def log_holds_def)
  have v: "\<forall>f \<ge> 0. disk_byte (dphys d') f = D f \<and> stable_byte (dphys d') f = D f"
    using assms(1) data_same_bytes(1,2)[OF A(1)] by (simp add: in_trans_def)
  have "stable (dphys d') LOGFILE = H @ encs R @ enc (LEnd (next_version d)) @ enc LAbort" using A(3) H(2) by simp
  from replay_power_loss[OF H(1) this H(3,4), of D] v A(2) show ?thesis by (auto simp: recovered_def)
qed


section \<open>A small database\<close>

text \<open>A database of zeros, and in it a transaction that writes 9 at byte 5.\<close>

definition demo_phys :: phys where
  "demo_phys = \<lparr>files = (\<lambda>_. replicate 64 0), stable = (\<lambda>_. replicate 64 0), buf_stream = None, faults = []\<rparr>"

definition demo_db :: ubik_dbase where
  "demo_db = \<lparr>dphys = demo_phys, dcache = udisk_Init 2, version = \<lparr>epoch = 5, counter = 7\<rparr>, tidCounter = 0,
     writeTidCounter = 0, dbWriting = False, readers = 0, activeTrans = [], transes = Map.empty, freshTrans = 0,
     rwlock = Lock_Init, cachedVersion = \<lparr>epoch = 0, counter = 0\<rparr>, cache_lock = Lock_Init\<rparr>"

definition demo_begun :: ubik_dbase where
  "demo_begun = snd (snd (udisk_begin demo_db UBIK_WRITETRANS))"

definition demo_written :: ubik_dbase where
  "demo_written = snd (udisk_write demo_begun 0 0 [9] 5)"

definition demo_recs :: "lrec list" where
  "demo_recs = [LNew, LData 0 5 [9]]"

abbreviation zeros :: store where
  "zeros \<equiv> \<lambda>_ _. 0"

lemma demo_idle: "idle zeros demo_db"
proof -
  have z: "fbyte (replicate 64 0) k = 0" for k by (simp add: fbyte_def)
  have nd: "no_dirty (udisk_Init 2)" by (simp add: no_dirty_def udisk_Init_def)
  have h: "harmless (replicate 64 0) zeros"
    using harmless_prefix[of "replicate 64 0" "[]" 64 zeros] by simp
  show ?thesis
    unfolding idle_def in_trans_def using cache_ok_Init[of 2] nd h
    by (simp add: demo_db_def demo_phys_def log_holds_def logstream_def stream_log_def no_dirty_trans disk_byte_def
        stable_byte_def z fun_eq_iff)
qed

lemma demo_runs: "fst (udisk_begin demo_db UBIK_WRITETRANS) = UOK" "fst (udisk_write demo_begun 0 0 [9] 5) = UOK"
  by code_simp+

lemma demo_begin: "udisk_begin demo_db UBIK_WRITETRANS = (UOK, Some 0, demo_begun)"
  and demo_begun_writer: "writer demo_begun 0" "faults (dphys demo_begun) = []"
proof -
  have "fst (snd (udisk_begin demo_db UBIK_WRITETRANS)) = Some 0" by code_simp
  then show "udisk_begin demo_db UBIK_WRITETRANS = (UOK, Some 0, demo_begun)"
    using demo_runs(1) by (metis demo_begun_def prod.collapse)
  show "writer demo_begun 0" "faults (dphys demo_begun) = []" by code_simp+
qed

lemma demo_write: "udisk_write demo_begun 0 0 [9] 5 = (UOK, demo_written)"
  using demo_runs(2) by (metis demo_written_def prod.collapse)

lemma demo_in_trans: "in_trans zeros demo_recs demo_written"
proof -
  have t: "in_trans zeros [LNew] demo_begun" using begin_ok(1)[OF demo_idle demo_begin] by simp
  then have o: "open_trans zeros [LNew] demo_begun" using in_trans_open by blast
  have "write_ok 0 5 [9] [LNew]" by (simp add: write_ok_def htonl_bytes_def fits32_def)
  from write_trans(4)[OF o demo_begun_writer(2) this _ _ demo_write _ t] demo_begun_writer(1)
  show ?thesis by (simp add: writer_def demo_recs_def)
qed

lemma demo_can_write: "can_write demo_begun 0 0 5 [9]"
proof -
  have "length (logstream (dphys demo_begun)) = 68" by code_simp
  then show ?thesis using demo_begun_writer by (simp add: can_write_def fits32_def)
qed

lemma demo_writer: "writer demo_written 0"
  by code_simp


lemma demo_commit_code: "fst (commit_local demo_written 0) = UOK"
  by code_simp

section \<open>What the log promises\<close>





text \<open>
  C5: in an open write transaction, what has just been written is what the transaction
  reads back, while a reader still gets the bytes that were committed.
\<close>

theorem write_then_read:
  assumes "in_trans D R d" and "can_write d t f pos bs" and "udisk_write d t f bs pos = (UOK, d1)"
    and "udisk_read d1 r f pos (int (length bs)) = (UOK, cs, d2)"
  shows "cs = (if ttype (tr d1 r) = UBIK_WRITETRANS then bs else substore D f pos (length bs))"
proof -
  have o: "open_trans D R d" using assms(1) in_trans_open by blast
  have w: "writer d t" "faults (dphys d) = []" "rec_ok (LData f pos bs)" using assms(2) by (auto simp: can_write_def)
  have "in_trans D (R @ [LData f pos bs]) d1"
    using write_trans(4)[OF o w(2) can_write_ok[OF o assms(2)] _ _ assms(3) _ assms(1)] w(1) by (simp add: writer_def)
  from read_trans(2)[OF this _ _ assms(4)] w(3) show ?thesis
    by (auto simp: substore_def intro!: nth_equalityI)
qed

theorem write_then_read_witness:
  "fst (snd (udisk_read demo_written 0 0 5 1)) = [9]"
proof -
  obtain cs d2 where r: "udisk_read demo_written 0 0 5 1 = (UOK, cs, d2)"
  proof -
    have "fst (udisk_read demo_written 0 0 5 1) = UOK" by code_simp
    then show thesis using that by (metis prod.collapse)
  qed
  have t: "in_trans zeros [LNew] demo_begun" using begin_ok(1)[OF demo_idle demo_begin] by simp
  from write_then_read[OF t demo_can_write demo_write, of 0 cs d2] r demo_writer show ?thesis by (simp add: writer_def)
qed

definition demo_fault :: ubik_dbase where
  "demo_fault = demo_written\<lparr>dphys := (dphys demo_written)\<lparr>faults := [False, False, True]\<rparr>\<rparr>"

theorem failed_commit_comes_back_witness:
  "\<exists>q'. ReplayLog (power_loss (dphys (snd (udisk_end (snd (commit_local demo_fault 0)) 0)))) = Some (UOK, q') \<and>
     disk_byte q' 0 5 = 9"
proof -
  let ?d1 = "snd (commit_local demo_fault 0)"
  let ?d2 = "snd (udisk_end ?d1 0)"
  have c: "commit_local demo_fault 0 = (UERR ESYSCALL, ?d1)"
  proof -
    have "fst (commit_local demo_fault 0) = UERR ESYSCALL" by code_simp
    then show ?thesis by (metis prod.collapse)
  qed
  have e: "udisk_end ?d1 0 = (UOK, ?d2)"
  proof -
    have "fst (udisk_end ?d1 0) = UOK" by code_simp
    then show ?thesis by (metis prod.collapse)
  qed
  have t: "in_trans zeros demo_recs demo_fault" using demo_in_trans in_trans_faults by (simp add: demo_fault_def)
  have w: "writer demo_fault 0" "faults (dphys ?d1) = []" by code_simp+
  have "logstream (dphys ?d1) = logstream (dphys demo_fault) @ enc (LEnd (next_version demo_fault))" by code_simp
  from failed_commit_comes_back[OF t w(1) c this w(2) e] show ?thesis by (auto simp: demo_recs_def)
qed

end
