(* ===== verification/Ubik_Election.thy ===== *)
theory Ubik_Election
  imports Ubik_Vote
begin

text \<open>
  The election of the sync site (\<^verbatim>\<open>src/src/ubik/beacon.c\<close>, \<^verbatim>\<open>src/src/ubik/vote.c\<close>) seen
  over all servers of a cell.  The list of servers that \<open>ubeacon_InitServerListByInfo\<close>
  sets up agrees with the configuration at every site, so all sites count the same
  weighted votes; a system of sites with skewed clocks, lost, late and repeated messages and restarts
  then never has two sync sites at once.
\<close>

section \<open>The configuration of a cell\<close>

text \<open>The hosts of a cell, each with its clone flag; the voters are those that are no clones.\<close>

type_synonym cell = "(u32 \<times> bool) list"

definition hosts :: "cell \<Rightarrow> u32 set" where
  "hosts cfg = fst ` set cfg"

definition voters :: "cell \<Rightarrow> u32 set" where
  "voters cfg = {h. (h, False) \<in> set cfg}"

definition is_magic :: "cell \<Rightarrow> u32 \<Rightarrow> bool" where
  "is_magic cfg h \<longleftrightarrow> h \<in> voters cfg \<and> (\<forall>v \<in> voters cfg. ntohl h \<le> ntohl v)"

definition cell_ok :: "cell \<Rightarrow> bool" where
  "cell_ok cfg \<longleftrightarrow> distinct (map fst cfg) \<and> 0 \<notin> hosts cfg \<and> 0xffffffff \<notin> hosts cfg"

text \<open>What a site knows of the cell.\<close>

definition site_ok :: "cell \<Rightarrow> u32 \<Rightarrow> site \<Rightarrow> bool" where
  "site_ok cfg h s \<longleftrightarrow>
     hd (ubik_host s) = h \<and> nServers s = int (card (voters cfg)) \<and>
     (amIClone s \<longleftrightarrow> h \<notin> voters cfg) \<and> (amIMagic s \<longleftrightarrow> is_magic cfg h) \<and>
     distinct (map (hd \<circ> addr) (servers s)) \<and> set (map (hd \<circ> addr) (servers s)) = hosts cfg - {h} \<and>
     (\<forall>ts \<in> set (servers s). (isClone ts \<longleftrightarrow> hd (addr ts) \<notin> voters cfg) \<and>
        (magic ts \<longleftrightarrow> is_magic cfg (hd (addr ts))))"

lemma is_magic_unique: "is_magic cfg a \<Longrightarrow> is_magic cfg b \<Longrightarrow> a = b"
  by (meson is_magic_def ntohl_inj order_antisym)

lemma voters_hosts: "voters cfg \<subseteq> hosts cfg"
  by (force simp: voters_def hosts_def)

lemma finite_voters [simp]: "finite (voters cfg)" "finite (hosts cfg)"
  using finite_subset[OF voters_hosts] by (auto simp: hosts_def)

section \<open>Setting it up\<close>

text \<open>The loop without the entry of the site itself.\<close>

definition mk_server :: "u32 \<times> bool \<Rightarrow> ubik_server" where
  "mk_server hc = new_server (fst hc) (snd hc)"

fun init_others :: "cell \<Rightarrow> ubik_server list \<times> u32 \<times> nat option \<times> int \<Rightarrow> ubik_server list \<times> u32 \<times> nat option \<times> int" where
  "init_others [] acc = acc"
| "init_others ((h, cl) # hs) (srvs, magicHost, magicServer, n) =
     (if cl then init_others hs (new_server h True # srvs, magicHost, magicServer, n)
      else if magicHost = 0 \<or> ntohl h < magicHost
           then init_others hs (new_server h False # srvs, ntohl h, Some (length srvs), n + 1)
      else init_others hs (new_server h False # srvs, magicHost, magicServer, n + 1))"

lemma init_info_others:
  assumes "\<forall>j < length hs. me = Some (i + j) \<longleftrightarrow> fst (hs ! j) = ame"
  shows "init_info hs i me acc = init_others (filter (\<lambda>hc. fst hc \<noteq> ame) hs) acc"
  using assms
proof (induction hs i me acc rule: init_info.induct)
  case (2 h cl hs i me srvs m ms n)
  have hd: "me = Some i \<longleftrightarrow> h = ame" using 2(5) by force
  have tl: "\<forall>j < length hs. me = Some (i + 1 + j) \<longleftrightarrow> fst (hs ! j) = ame"
  proof (intro allI impI)
    fix j assume "j < length hs"
    then have "Suc j < length ((h, cl) # hs)" by simp
    from 2(5)[rule_format, OF this] show "me = Some (i + 1 + j) \<longleftrightarrow> fst (hs ! j) = ame" by simp
  qed
  show ?case using 2(1)[OF _ tl] 2(2)[OF _ _ tl] 2(3)[OF _ _ _ tl] 2(4)[OF _ _ _ tl] hd by simp
qed simp

definition magic_inv :: "cell \<Rightarrow> u32 \<Rightarrow> u32 \<Rightarrow> nat option \<Rightarrow> bool" where
  "magic_inv L m0 mh ms \<longleftrightarrow>
     (case ms of
        None \<Rightarrow> mh = m0 \<and> (\<forall>h. (h, False) \<in> set L \<longrightarrow> m0 \<noteq> 0 \<and> m0 \<le> ntohl h)
      | Some k \<Rightarrow> k < length L \<and> \<not> snd (L ! k) \<and> mh = ntohl (fst (L ! k)) \<and> mh \<noteq> 0 \<and> (m0 = 0 \<or> mh < m0) \<and>
          (\<forall>h. (h, False) \<in> set L \<longrightarrow> mh \<le> ntohl h))"

lemma init_others_inv:
  assumes "init_others hs (rev (map mk_server L), mh, ms, int (card (voters L))) = (srvs, mh', ms', n)"
    and "magic_inv L m0 mh ms" and "distinct (map fst (L @ hs))" and "0 \<notin> hosts (L @ hs)"
  shows "srvs = rev (map mk_server (L @ hs)) \<and> magic_inv (L @ hs) m0 mh' ms' \<and> n = int (card (voters (L @ hs)))"
  using assms
proof (induction hs arbitrary: L mh ms)
  case Nil
  then show ?case by simp
next
  case (Cons hc hs)
  obtain h cl where hc: "hc = (h, cl)" by fastforce
  have h: "h \<notin> hosts L" "ntohl h \<noteq> 0"
    using Cons.prems(3,4) hc by (auto simp: hosts_def) (metis ntohl_0 ntohl_inj)
  have v: "voters (L @ [(h, cl)]) = (if cl then voters L else insert h (voters L))"
    by (auto simp: voters_def)
  have hv: "h \<notin> voters L" using h(1) voters_hosts by blast
  have card: "card (voters (L @ [(h, cl)])) = (if cl then card (voters L) else card (voters L) + 1)"
    using hv by (simp add: v)
  have D: "distinct (map fst ((L @ [(h, cl)]) @ hs))" "0 \<notin> hosts ((L @ [(h, cl)]) @ hs)"
    using Cons.prems(3,4) hc by auto
  consider (clone) "cl" | (new) "\<not> cl" "mh = 0 \<or> ntohl h < mh" | (old) "\<not> cl" "\<not> (mh = 0 \<or> ntohl h < mh)"
    by blast
  then show ?case
  proof cases
    case clone
    have "magic_inv (L @ [(h, cl)]) m0 mh ms"
      using Cons.prems(2) clone by (auto simp: magic_inv_def nth_append split: option.splits)
    from Cons.IH[OF _ this D] Cons.prems(1) clone hc card show ?thesis by (simp add: mk_server_def add.commute)
  next
    case new
    have "magic_inv (L @ [(h, cl)]) m0 (ntohl h) (Some (length L))"
      using Cons.prems(2) new h
      by (auto simp: magic_inv_def nth_append split: option.splits intro: less_imp_le order.trans)
    from Cons.IH[OF _ this D] Cons.prems(1) new hc card show ?thesis by (simp add: mk_server_def add.commute)
  next
    case old
    have "magic_inv (L @ [(h, cl)]) m0 mh ms"
      using Cons.prems(2) old by (auto simp: magic_inv_def nth_append split: option.splits)
    from Cons.IH[OF _ this D] Cons.prems(1) old hc card show ?thesis by (simp add: mk_server_def add.commute)
  qed
qed

lemma filter_upt_eq: "i < n \<Longrightarrow> filter (\<lambda>j. j = i) [0..<n] = [i :: nat]"
  by (induction n) (auto simp: less_Suc_eq filter_empty_conv)

lemma find_me_unique:
  assumes "distinct (map fst cfg)" and "ame \<in> hosts cfg"
  shows "\<exists>i < length cfg. find_me cfg ame = Some i \<and> (\<forall>j < length cfg. fst (cfg ! j) = ame \<longleftrightarrow> j = i)"
proof -
  obtain i where i: "i < length cfg" "fst (cfg ! i) = ame"
    using assms(2) by (auto simp: hosts_def in_set_conv_nth)
  have u: "fst (cfg ! j) = ame \<longleftrightarrow> j = i" if "j < length cfg" for j
    using assms(1) i that by (auto simp: distinct_conv_nth)
  have "filter (\<lambda>j. fst (cfg ! j) = ame) [0..<length cfg] = filter (\<lambda>j. j = i) [0..<length cfg]"
    by (rule filter_cong) (auto simp: u)
  also have "\<dots> = [i]" using filter_upt_eq[OF i(1)] .
  finally show ?thesis using i u by (auto simp: find_me_def)
qed

lemma filter_others:
  assumes "distinct (map fst cfg)"
  shows "hosts (filter (\<lambda>hc. fst hc \<noteq> ame) cfg) = hosts cfg - {ame}"
    and "voters (filter (\<lambda>hc. fst hc \<noteq> ame) cfg) = voters cfg - {ame}"
    and "distinct (map fst (filter (\<lambda>hc. fst hc \<noteq> ame) cfg))"
  using assms by (auto simp: hosts_def voters_def distinct_map_filter)

lemma set_magic_nth:
  assumes "k < length L" and "srvs = rev (map mk_server L)"
  shows "set_magic srvs (Some k) = rev (map (\<lambda>j. (mk_server (L ! j))\<lparr>magic := (j = k)\<rparr>) [0..<length L])"
proof (rule nth_equalityI)
  show "length (set_magic srvs (Some k)) = length (rev (map (\<lambda>j. (mk_server (L ! j))\<lparr>magic := (j = k)\<rparr>) [0..<length L]))"
    by (simp add: set_magic_def assms)
next
  fix i assume "i < length (set_magic srvs (Some k))"
  then have i: "i < length L" by (simp add: set_magic_def assms)
  have mk: "(mk_server hc)\<lparr>magic := False\<rparr> = mk_server hc" for hc by (simp add: mk_server_def new_server_def)
  have e: "length L - Suc k = i \<longleftrightarrow> length L - Suc i = k" using i assms(1) by auto
  show "set_magic srvs (Some k) ! i = rev (map (\<lambda>j. (mk_server (L ! j))\<lparr>magic := (j = k)\<rparr>) [0..<length L]) ! i"
    using i assms(1) e
    by (cases "length L - Suc k = i") (auto simp: set_magic_def assms(2) nth_list_update rev_nth mk)
qed

text \<open>The flags that \<open>magic_inv\<close> leads to.\<close>

lemma magic_inv_None:
  assumes "magic_inv L (if clone then 0 else ntohl ame) mh None" and "voters L = voters cfg - {ame}"
    and "clone \<longleftrightarrow> ame \<notin> voters cfg"
  shows "is_magic cfg h \<longleftrightarrow> \<not> clone \<and> h = ame"
proof (cases clone)
  case True
  then have "voters L = {}" using assms(1) by (auto simp: magic_inv_def voters_def)
  then show ?thesis using assms(2,3) True by (auto simp: is_magic_def)
next
  case False
  then have "\<forall>v \<in> voters L. ntohl ame \<le> ntohl v" using assms(1) by (auto simp: magic_inv_def voters_def)
  then have "is_magic cfg ame" using assms(2,3) False by (auto simp: is_magic_def)
  then show ?thesis using False is_magic_unique by blast
qed

lemma magic_inv_Some:
  assumes "magic_inv L (if clone then 0 else ntohl ame) mh (Some k)" and "voters L = voters cfg - {ame}"
    and "clone \<longleftrightarrow> ame \<notin> voters cfg" and "ame \<notin> hosts L" and "ntohl ame \<noteq> 0"
  shows "k < length L" and "is_magic cfg h \<longleftrightarrow> h = fst (L ! k)" and "fst (L ! k) \<noteq> ame"
proof -
  show k: "k < length L" using assms(1) by (simp add: magic_inv_def)
  have Lk: "L ! k \<in> set L" "\<not> snd (L ! k)" "clone \<or> ntohl (fst (L ! k)) < ntohl ame"
    using assms(1,5) k by (auto simp: magic_inv_def split: if_splits)
  show ne: "fst (L ! k) \<noteq> ame" using Lk(1) assms(4) by (auto simp: hosts_def)
  have "(fst (L ! k), False) = L ! k" using Lk(2) by (cases "L ! k") simp
  then have "(fst (L ! k), False) \<in> set L" using Lk(1) by simp
  then have v: "fst (L ! k) \<in> voters L" by (simp add: voters_def)
  have mn: "\<forall>v \<in> voters L. ntohl (fst (L ! k)) \<le> ntohl v"
    using assms(1) by (auto simp: magic_inv_def voters_def)
  have "is_magic cfg (fst (L ! k))"
    unfolding is_magic_def
  proof (intro conjI ballI)
    show "fst (L ! k) \<in> voters cfg" using v assms(2) by blast
    fix u assume "u \<in> voters cfg"
    then show "ntohl (fst (L ! k)) \<le> ntohl u"
      using mn assms(2,3) Lk(3) by (cases "u = ame") auto
  qed
  then show "is_magic cfg h \<longleftrightarrow> h = fst (L ! k)" using is_magic_unique by blast
qed

lemma servers_magic:
  assumes "magic_inv L (if clone then 0 else ntohl ame) mh ms" and "voters L = voters cfg - {ame}"
    and "clone \<longleftrightarrow> ame \<notin> voters cfg" and "ame \<notin> hosts L" and "distinct (map fst L)"
    and "srvs = rev (map mk_server L)" and "ntohl ame \<noteq> 0"
  shows "\<forall>ts \<in> set (set_magic srvs ms). magic ts \<longleftrightarrow> is_magic cfg (hd (addr ts))"
    and "(\<not> clone \<and> ms = None) \<longleftrightarrow> is_magic cfg ame"
    and "map (\<lambda>ts. (hd (addr ts), isClone ts)) (set_magic srvs ms) = rev L"
proof -
  have "(\<forall>ts \<in> set (set_magic srvs ms). magic ts \<longleftrightarrow> is_magic cfg (hd (addr ts))) \<and>
    ((\<not> clone \<and> ms = None) \<longleftrightarrow> is_magic cfg ame) \<and>
    map (\<lambda>ts. (hd (addr ts), isClone ts)) (set_magic srvs ms) = rev L"
  proof (cases ms)
    case None
    note M = magic_inv_None[OF assms(1)[unfolded None] assms(2,3)]
    have "fst hc \<noteq> ame" if "hc \<in> set L" for hc using assms(4) that by (auto simp: hosts_def)
    then show ?thesis using M None
      by (auto simp: set_magic_def assms(6) mk_server_def new_server_def rev_map map_idI)
  next
    case (Some k)
    note M = magic_inv_Some[OF assms(1)[unfolded Some] assms(2,3,4,7)]
    have u: "fst (L ! j) = fst (L ! k) \<longleftrightarrow> j = k" if "j < length L" for j
      using assms(5) that M(1) by (auto simp: distinct_conv_nth)
    have S: "set_magic srvs ms = rev (map (\<lambda>j. (mk_server (L ! j))\<lparr>magic := (j = k)\<rparr>) [0..<length L])"
      using set_magic_nth[OF M(1) assms(6)] Some by simp
    have "map (\<lambda>ts. (hd (addr ts), isClone ts)) (set_magic srvs ms) = rev (map (\<lambda>j. L ! j) [0..<length L])"
      unfolding S by (simp add: rev_map mk_server_def new_server_def)
    then show ?thesis using M u Some unfolding S by (auto simp: map_nth mk_server_def new_server_def)
  qed
  then show "\<forall>ts \<in> set (set_magic srvs ms). magic ts \<longleftrightarrow> is_magic cfg (hd (addr ts))"
    "(\<not> clone \<and> ms = None) \<longleftrightarrow> is_magic cfg ame"
    "map (\<lambda>ts. (hd (addr ts), isClone ts)) (set_magic srvs ms) = rev L" by auto
qed

lemma site_okI:
  assumes "map (\<lambda>ts. (hd (addr ts), isClone ts)) srvs = rev L" and "distinct (map fst L)"
    and "hosts L = hosts cfg - {h}" and "\<forall>hc \<in> set L. snd hc \<longleftrightarrow> fst hc \<notin> voters cfg"
    and "\<forall>ts \<in> set srvs. magic ts \<longleftrightarrow> is_magic cfg (hd (addr ts))"
    and "servers s = srvs" and "hd (ubik_host s) = h" and "nServers s = int (card (voters cfg))"
    and "amIClone s \<longleftrightarrow> h \<notin> voters cfg" and "amIMagic s \<longleftrightarrow> is_magic cfg h"
  shows "site_ok cfg h s"
proof -
  have m: "map (hd \<circ> addr) srvs = rev (map fst L)"
    using arg_cong[OF assms(1), of "map fst"] by (simp add: rev_map o_def)
  have "set (map (hd \<circ> addr) srvs) = hosts cfg - {h}" unfolding m using assms(3) by (simp add: hosts_def)
  moreover have "distinct (map (hd \<circ> addr) srvs)" unfolding m using assms(2) by simp
  moreover have "isClone ts \<longleftrightarrow> hd (addr ts) \<notin> voters cfg" if "ts \<in> set srvs" for ts
  proof -
    have "(hd (addr ts), isClone ts) \<in> set (map (\<lambda>ts. (hd (addr ts), isClone ts)) srvs)" using that by auto
    then have "(hd (addr ts), isClone ts) \<in> set L" unfolding assms(1) by simp
    with assms(4) show ?thesis by auto
  qed
  ultimately show ?thesis using assms(5-) unfolding site_ok_def by simp
qed

lemma init_site_ok:
  assumes cfg: "cell_ok cfg" and me: "ame \<in> hosts cfg" and s: "servers s = []" "hd (ubik_host s) = ame"
    and run: "ubeacon_InitServerListByInfo s now ame cfg = (code, s')"
  shows "site_ok cfg ame s' \<and> code = UOK"
proof -
  define L where "L = filter (\<lambda>hc. fst hc \<noteq> ame) cfg"
  have d: "distinct (map fst cfg)" "0 \<notin> hosts cfg" using cfg by (auto simp: cell_ok_def)
  note FL = filter_others[OF d(1), of ame, folded L_def]
  obtain i where i: "i < length cfg" "find_me cfg ame = Some i" "\<forall>j < length cfg. fst (cfg ! j) = ame \<longleftrightarrow> j = i"
    using find_me_unique[OF d(1) me] by blast
  define clone where "clone \<longleftrightarrow> (\<exists>j \<in> set [0..<length cfg]. ntohl (fst (cfg ! j)) = ntohl ame \<and> snd (cfg ! j))"
  have clone: "clone \<longleftrightarrow> ame \<notin> voters cfg"
  proof -
    have "(ame, False) \<in> set cfg \<longleftrightarrow> \<not> snd (cfg ! i)"
      using i by (auto simp: in_set_conv_nth) (metis fst_conv snd_conv, metis prod.collapse)
    then show ?thesis using i by (auto simp: clone_def voters_def)
  qed
  let ?m0 = "if clone then 0 else ntohl ame"
  obtain srvs mh ms n where run1: "init_info cfg 0 (Some i) ([], ?m0, None, 0) = (srvs, mh, ms, n)"
    by (metis prod_cases4)
  have "\<forall>j < length cfg. Some i = Some (0 + j) \<longleftrightarrow> fst (cfg ! j) = ame" using i by auto
  from init_info_others[OF this] run1
  have "init_others L (rev (map mk_server []), ?m0, None, int (card (voters []))) = (srvs, mh, ms, n)"
    by (simp add: L_def voters_def)
  from init_others_inv[OF this, of ?m0] FL d(2)
  have srvs: "srvs = rev (map mk_server L)" and mi: "magic_inv L ?m0 mh ms" and n: "n = int (card (voters cfg - {ame}))"
    by (auto simp: magic_inv_def)
  have ame: "ame \<notin> hosts L" using FL(1) by simp
  have "ntohl ame \<noteq> ntohl 0" using me d(2) by (metis ntohl_inj)
  then have "ntohl ame \<noteq> 0" by simp
  note M = servers_magic[OF mi FL(2) clone ame FL(3) srvs this]
  have cl: "snd hc \<longleftrightarrow> fst hc \<notin> voters cfg" if "hc \<in> set L" for hc
  proof -
    have hc: "hc \<in> set cfg" using that by (simp add: L_def)
    have "\<not> snd hc" if "(fst hc, False) \<in> set cfg"
      using d(1) hc that by (metis distinct_map fst_conv inj_onD snd_conv)
    moreover have "(fst hc, False) \<in> set cfg" if "\<not> snd hc" using hc that by (metis prod.collapse)
    ultimately show ?thesis by (simp add: voters_def) blast
  qed
  have n': "(if clone then n else n + 1) = int (card (voters cfg))"
    using clone n card_Suc_Diff1[OF finite_voters(1), of ame cfg] by auto
  have f: "servers s' = set_magic srvs ms \<and> hd (ubik_host s') = ame \<and>
      nServers s' = (if clone then n else n + 1) \<and> amIClone s' = clone \<and>
      amIMagic s' = (\<not> clone \<and> ms = None) \<and> code = UOK"
    using run[unfolded ubeacon_InitServerListByInfo_def i(2) Let_def option.case s(1), folded clone_def]
    by (simp add: run1 s(2) become_single_def split: if_splits) (auto simp: s(2))
  have "site_ok cfg ame s'"
    by (rule site_okI[OF M(3) FL(3,1) _ M(1)]) (use f M(2) clone n' cl in simp_all)
  then show ?thesis using f by simp
qed

text \<open>The hosts that a site takes for the magic one.\<close>

definition magic_hosts :: "site \<Rightarrow> u32 set" where
  "magic_hosts s = (if amIMagic s then {hd (ubik_host s)} else {}) \<union> (hd \<circ> addr) ` {ts \<in> set (servers s). magic ts}"

text \<open>
  C4: after reading the cell's configuration every site counts the same number of
  voters and takes the same host for the magic one, whose vote breaks ties: the voting
  host with the lowest address.\<close>
theorem magic_host_agreed:
  assumes "cell_ok cfg" and "ame \<in> hosts cfg" and "servers s = []" and "hd (ubik_host s) = ame"
    and "ubeacon_InitServerListByInfo s now ame cfg = (code, s')"
  shows "magic_hosts s' = {h. is_magic cfg h} \<and> nServers s' = int (card (voters cfg))"
proof -
  have ok: "site_ok cfg ame s'" using init_site_ok[OF assms] by simp
  have "h \<in> magic_hosts s' \<longleftrightarrow> is_magic cfg h" for h
  proof (cases "h = ame")
    case True
    have "ame \<notin> set (map (hd \<circ> addr) (servers s'))" using ok by (simp add: site_ok_def)
    then show ?thesis using ok True by (auto simp: magic_hosts_def site_ok_def)
  next
    case False
    have srv: "ts \<in> set (servers s') \<Longrightarrow> magic ts \<longleftrightarrow> is_magic cfg (hd (addr ts))" for ts
      using ok by (simp add: site_ok_def)
    have "\<exists>ts \<in> set (servers s'). hd (addr ts) = h" if "is_magic cfg h"
    proof -
      have "h \<in> set (map (hd \<circ> addr) (servers s'))"
        using ok False that voters_hosts by (auto simp: site_ok_def is_magic_def)
      then show ?thesis by auto
    qed
    moreover have "h \<in> magic_hosts s' \<longleftrightarrow> (\<exists>ts \<in> set (servers s'). magic ts \<and> hd (addr ts) = h)"
      using ok False by (auto simp: magic_hosts_def site_ok_def)
    ultimately show ?thesis using srv by metis
  qed
  then show ?thesis using ok by (auto simp: site_ok_def)
qed

theorem magic_host_agreed_witness:
  "magic_hosts (snd (ubeacon_InitServerListByInfo (blank_site 0x02000000 undefined) 5 0x02000000
      [(0x03000000, False), (0x02000000, False), (0x01000000, True)])) = {0x02000000}"
proof -
  let ?cfg = "[(0x03000000, False), (0x02000000, False), (0x01000000, True)] :: cell"
  have cfg: "cell_ok ?cfg" "0x02000000 \<in> hosts ?cfg" by (simp_all add: cell_ok_def hosts_def)
  have "voters ?cfg = {0x03000000, 0x02000000}" by (auto simp: voters_def)
  then have "{h. is_magic ?cfg h} = {0x02000000}" by (auto simp: is_magic_def ntohl_def)
  moreover obtain c s' where run: "ubeacon_InitServerListByInfo (blank_site 0x02000000 undefined) 5 0x02000000 ?cfg = (c, s')"
    by fastforce
  ultimately show ?thesis
    using magic_host_agreed[OF cfg _ _ run] by (simp add: blank_site_def)
qed

section \<open>What the handlers do to the election\<close>

text \<open>The configuration of a site, and its belief to be sync site, as one tuple.\<close>

definition econf :: "site \<Rightarrow> u32 list \<times> (u32 list \<times> bool \<times> bool) list \<times> int \<times> bool \<times> bool" where
  "econf s = (ubik_host s, map (\<lambda>ts. (addr ts, isClone ts, magic ts)) (servers s), nServers s, amIMagic s, amIClone s)"

definition ecand :: "site \<Rightarrow> bool \<times> int" where
  "ecand s = (ubik_amSyncSite s, syncSiteUntil s)"

definition evote :: "site \<Rightarrow> int \<times> u32" where
  "evote s = (lastYesTime s, lastYesHost s)"

lemma site_ok_econf: "econf s = econf s' \<Longrightarrow> site_ok cfg h s = site_ok cfg h s'"
proof -
  assume e: "econf s = econf s'"
  then have m: "map (\<lambda>ts. (addr ts, isClone ts, magic ts)) (servers s) = map (\<lambda>ts. (addr ts, isClone ts, magic ts)) (servers s')"
    by (simp add: econf_def)
  have "map (hd \<circ> addr) (servers s) = map (hd \<circ> addr) (servers s')"
    using arg_cong[OF m, of "map (hd \<circ> fst)"] by (simp add: o_def)
  moreover have "(\<forall>ts \<in> set (servers s). P (addr ts) (isClone ts) (magic ts)) \<longleftrightarrow>
      (\<forall>ts \<in> set (servers s'). P (addr ts) (isClone ts) (magic ts))" for P
    using arg_cong[OF m, of "list_all (\<lambda>(a, b, c). P a b c)"] by (simp add: list_all_iff)
  note this[of "\<lambda>a c m. (c \<longleftrightarrow> hd a \<notin> voters cfg) \<and> (m \<longleftrightarrow> is_magic cfg (hd a))"]
  ultimately show ?thesis using e unfolding site_ok_def econf_def by simp
qed

lemma CheckTid_frame:
  assumes "urecovery_CheckTid s atid ab = (code, s')"
  shows "econf s' = econf s" and "ecand s' = ecand s" and "evote s' = evote s"
  using assms
  by (auto simp: urecovery_CheckTid_def econf_def ecand_def evote_def Let_def
      split: option.splits if_splits prod.splits)

lemma note_frame [simp]:
  "econf (note_lowest s now cl h) = econf s" "ecand (note_lowest s now cl h) = ecand s"
  "evote (note_lowest s now cl h) = evote s" "servers (note_lowest s now cl h) = servers s"
  "econf (note_sync s now st h) = econf s" "ecand (note_sync s now st h) = ecand s"
  "evote (note_sync s now st h) = evote s" "servers (note_sync s now st h) = servers s"
  "econf (fast_startup s st h) = econf s" "ecand (fast_startup s st h) = ecand s"
  by (simp_all add: note_lowest_def note_sync_def fast_startup_def econf_def ecand_def evote_def)

text \<open>Another voter is configured: then there is no fast start-up.\<close>

definition other_voter :: "site \<Rightarrow> bool" where
  "other_voter s \<longleftrightarrow> (\<exists>ts \<in> set (servers s). hd (addr ts) \<noteq> hd (ubik_host s) \<and> \<not> isClone ts)"

lemma fast_startup_off: "other_voter s \<Longrightarrow> fast_startup s st h = s"
  by (auto simp: fast_startup_def other_voter_def filter_empty_conv)

text \<open>The ways through \<open>SVOTE_Beacon\<close>: the caller is unknown, refused, or voted for.\<close>

definition beacon_notes :: "site \<Rightarrow> int \<Rightarrow> bool \<Rightarrow> u32 \<Rightarrow> bool \<Rightarrow> site" where
  "beacon_notes s now st h cl =
     (let s1 = note_lowest s now cl h
      in note_sync (note_lowest s1 now (amIClone s1) (hd (ubik_host s1))) now st h)"

lemma beacon_notes_frame [simp]:
  "econf (beacon_notes s now st h cl) = econf s" "ecand (beacon_notes s now st h cl) = ecand s"
  "evote (beacon_notes s now st h cl) = evote s" "servers (beacon_notes s now st h cl) = servers s"
  by (simp_all add: beacon_notes_def Let_def)

definition cast_vote :: "site \<Rightarrow> int \<Rightarrow> u32 \<Rightarrow> bool \<Rightarrow> int \<Rightarrow> ubik_version \<Rightarrow> ubik_tid \<Rightarrow> site" where
  "cast_vote s now h st start vers atid =
     s\<lparr>lastYesTime := now, lastYesClaim := start, lastYesHost := h, lastYesState := st,
       dbVersion := vers, dbTid := atid\<rparr>"

lemma SVOTE_Beacon_cases:
  assumes run: "SVOTE_Beacon s now rx st start vers atid = (r, code, s')"
    and bc: "beacon_caller s rx = (h, cl)"
  shows "r = 0 \<and> (s' = s \<or> s' = beacon_notes s now st h cl \<or> s' = fast_startup (beacon_notes s now st h cl) st h) \<or>
    r = now \<and> \<not> cl \<and> (rx \<noteq> None \<longrightarrow> h \<noteq> 0) \<and>
    (let s4 = fast_startup (beacon_notes s now st h cl) st h in
       (lastYesTime s4 + BIGTIME < now \<or> h = lastYesHost s4) \<and>
       urecovery_CheckTid (cast_vote s4 now h st start vers atid) atid False = (code, s'))"
  using run unfolding SVOTE_Beacon_def bc Let_def prod.case
  by (simp add: beacon_notes_def[symmetric, unfolded Let_def] cast_vote_def split: if_splits prod.splits) auto

lemma cast_vote_frame [simp]:
  "econf (cast_vote s now h st start vers atid) = econf s" "ecand (cast_vote s now h st start vers atid) = ecand s"
  "evote (cast_vote s now h st start vers atid) = (now, h)"
  by (simp_all add: cast_vote_def econf_def ecand_def evote_def)

lemma SVOTE_Beacon_frame:
  assumes "SVOTE_Beacon s now rx st start vers atid = (r, code, s')"
  shows "econf s' = econf s" and "ecand s' = ecand s"
proof -
  obtain h cl where bc: "beacon_caller s rx = (h, cl)" by fastforce
  from SVOTE_Beacon_cases[OF assms bc] show "econf s' = econf s" "ecand s' = ecand s"
    using CheckTid_frame(1,2) by (auto simp: Let_def)
qed

lemma SVOTE_Beacon_vote:
  assumes run: "SVOTE_Beacon s now rx st start vers atid = (r, code, s')" and ov: "other_voter s"
    and bc: "beacon_caller s rx = (h, cl)"
  shows "r = 0 \<and> evote s' = evote s \<or>
    r = now \<and> evote s' = (now, h) \<and> \<not> cl \<and> (rx \<noteq> None \<longrightarrow> h \<noteq> 0) \<and>
      (lastYesTime s + BIGTIME < now \<or> h = lastYesHost s)"
proof -
  let ?s = "beacon_notes s now st h cl"
  have "ubik_host ?s = ubik_host s" using beacon_notes_frame(1) by (simp add: econf_def)
  then have "other_voter ?s" using ov by (simp add: other_voter_def)
  then have f: "fast_startup ?s st h = ?s" by (rule fast_startup_off)
  have e: "lastYesTime ?s = lastYesTime s" "lastYesHost ?s = lastYesHost s"
    using beacon_notes_frame(3)[of s now st h cl] by (simp_all add: evote_def)
  from SVOTE_Beacon_cases[OF run bc] show ?thesis
    using CheckTid_frame(3)[of "cast_vote ?s now h st start vers atid" atid False code s']
    by (auto simp: Let_def f e)
qed

section \<open>Counting votes\<close>

text \<open>The weight of a set of voters: two for each, one more for the magic host.\<close>

definition weight :: "cell \<Rightarrow> u32 set \<Rightarrow> int" where
  "weight cfg Q = 2 * int (card Q) + (if \<exists>h \<in> Q. is_magic cfg h then 1 else 0)"

lemma weight_insert:
  "finite Q \<Longrightarrow> h \<notin> Q \<Longrightarrow> weight cfg (insert h Q) = weight cfg Q + 2 + (if is_magic cfg h then 1 else 0)"
  by (auto simp: weight_def dest: is_magic_unique)

text \<open>Two sets of voters that both outweigh the cell have a voter in common.\<close>

lemma quorums_meet:
  assumes "Q \<subseteq> voters cfg" and "R \<subseteq> voters cfg"
    and "int (card (voters cfg)) < weight cfg Q" and "int (card (voters cfg)) < weight cfg R"
  shows "Q \<inter> R \<noteq> {}"
proof
  assume disj: "Q \<inter> R = {}"
  have "finite Q" "finite R" using assms(1,2) finite_subset finite_voters(1) by blast+
  then have "card Q + card R = card (Q \<union> R)" using disj by (simp add: card_Un_disjoint)
  also have "\<dots> \<le> card (voters cfg)" using assms(1,2) by (intro card_mono) auto
  finally have c: "int (card Q) + int (card R) \<le> int (card (voters cfg))" by linarith
  have "\<not> ((\<exists>h \<in> Q. is_magic cfg h) \<and> (\<exists>h \<in> R. is_magic cfg h))" using disj is_magic_unique by blast
  then have "weight cfg Q + weight cfg R \<le> 2 * int (card (voters cfg)) + 1" using c by (auto simp: weight_def)
  then show False using assms(3,4) by linarith
qed

definition electing :: "cell \<Rightarrow> u32 set \<Rightarrow> bool" where
  "electing cfg Q \<longleftrightarrow> Q \<subseteq> voters cfg \<and> int (card (voters cfg)) < weight cfg Q"

interpretation voting: quorum_system "electing cfg" for cfg
  by unfold_locales (auto simp: electing_def dest: quorums_meet)

lemma upd_server_econf:
  assumes "\<And>ts. addr (f ts) = addr ts \<and> isClone (f ts) = isClone ts \<and> magic (f ts) = magic ts"
  shows "econf (upd_server s i f) = econf s" and "ecand (upd_server s i f) = ecand s"
    and "evote (upd_server s i f) = evote s" and "length (servers (upd_server s i f)) = length (servers s)"
    and "db (upd_server s i f) = db s"
proof -
  have "map (\<lambda>ts. (addr ts, isClone ts, magic ts)) ((servers s)[i := f (servers s ! i)]) =
      map (\<lambda>ts. (addr ts, isClone ts, magic ts)) (servers s)"
    by (cases "i < length (servers s)") (simp_all add: map_update assms list_update_same_conv list_update_beyond)
  then show "econf (upd_server s i f) = econf s" "ecand (upd_server s i f) = ecand s"
    "evote (upd_server s i f) = evote s" "length (servers (upd_server s i f)) = length (servers s)"
    "db (upd_server s i f) = db s"
    by (simp_all add: upd_server_def econf_def ecand_def evote_def)
qed

lemma beacon_code_pos: "0 < beacon_code temp code err \<Longrightarrow> beacon_code temp code err = code \<and> 0 < code"
  by (auto simp: beacon_code_def Let_def split: if_splits)

text \<open>What one reply adds to the tally.\<close>

lemma beacon_reply_frame:
  assumes "beacon_reply (i, temp, code, err) (s, y, o1) = (s', y', o')"
  shows "econf s' = econf s" and "ecand s' = ecand s" and "evote s' = evote s"
    and "(y' = y \<and> o' = o1) \<or> (0 < code \<and> o' = min code o1 \<and>
       y' = y + (if isClone (servers s ! i) then 0 else 2) + (if magic (servers s ! i) then 1 else 0))"
proof -
  let ?s0 = "upd_server s i (\<lambda>ts. ts\<lparr>lastBeaconSent := temp\<rparr>)"
  have c: "isClone (servers ?s0 ! i) = isClone (servers s ! i)" "magic (servers ?s0 ! i) = magic (servers s ! i)"
    by (cases "i < length (servers s)"; simp add: upd_server_def list_update_beyond)+
  have r: "s' \<in> {upd_server ?s0 i (\<lambda>ts. ts\<lparr>up := False, beaconSinceDown := False\<rparr>),
       upd_server ?s0 i (\<lambda>ts. ts\<lparr>lastVoteTime := code, lastVote := True, up := True, beaconSinceDown := True\<rparr>),
       upd_server ?s0 i (\<lambda>ts. ts\<lparr>lastVoteTime := temp, lastVote := False, beaconSinceDown := True\<rparr>)}"
    using assms beacon_code_pos[of temp code err] by (auto simp: beacon_reply_def Let_def split: if_splits)
  then show "econf s' = econf s" "ecand s' = ecand s" "evote s' = evote s"
    by (elim insertE emptyE; simp add: upd_server_econf)+
  show "(y' = y \<and> o' = o1) \<or> (0 < code \<and> o' = min code o1 \<and>
       y' = y + (if isClone (servers s ! i) then 0 else 2) + (if magic (servers s ! i) then 1 else 0))"
    using assms beacon_code_pos[of temp code err] c
    by (auto simp: beacon_reply_def Let_def min_def split: if_splits)
qed

text \<open>\<open>V v t\<close>: host \<open>v\<close> has voted for the site at time \<open>t\<close>.\<close>

definition tally_ok :: "cell \<Rightarrow> u32 \<Rightarrow> (u32 \<Rightarrow> int \<Rightarrow> bool) \<Rightarrow> u32 set \<Rightarrow> int \<Rightarrow> int \<Rightarrow> bool" where
  "tally_ok cfg c V H y oldest \<longleftrightarrow> (\<exists>Q. Q \<subseteq> voters cfg \<and> Q \<subseteq> H \<and> y = weight cfg Q \<and>
     (\<forall>v \<in> Q. \<exists>t. V v t \<and> oldest \<le> t))"

lemma econf_addr:
  "econf s = econf s' \<Longrightarrow> length (servers s) = length (servers s') \<and>
   (i < length (servers s) \<longrightarrow> addr (servers s ! i) = addr (servers s' ! i))"
proof -
  assume "econf s = econf s'"
  then have m: "map (\<lambda>ts. (addr ts, isClone ts, magic ts)) (servers s) = map (\<lambda>ts. (addr ts, isClone ts, magic ts)) (servers s')"
    by (simp add: econf_def)
  then have l: "length (servers s) = length (servers s')" by (rule map_eq_imp_length_eq)
  moreover have "addr (servers s ! i) = addr (servers s' ! i)" if "i < length (servers s)"
    using arg_cong[OF m, of "\<lambda>xs. fst (xs ! i)"] l that by simp
  ultimately show ?thesis by blast
qed

lemma tally_step:
  assumes t: "tally_ok cfg c V H y oldest"
    and r: "(y1 = y \<and> o1 = oldest) \<or> (0 < code \<and> o1 = min code oldest \<and>
       y1 = y + (if cl then 0 else 2) + (if mg then 1 else 0))"
    and fl: "cl \<longleftrightarrow> h \<notin> voters cfg" "mg \<longleftrightarrow> is_magic cfg h"
    and h: "h \<notin> H" "0 < code \<Longrightarrow> V h code"
  shows "tally_ok cfg c V (insert h H) y1 o1"
proof -
  obtain Q where Q: "Q \<subseteq> voters cfg" "Q \<subseteq> H" "y = weight cfg Q" "\<forall>v \<in> Q. \<exists>t. V v t \<and> oldest \<le> t"
    using t by (auto simp: tally_ok_def)
  have fin: "finite Q" using Q(1) finite_voters(1) finite_subset by blast
  from r show ?thesis
  proof
    assume "y1 = y \<and> o1 = oldest"
    then show ?thesis using Q unfolding tally_ok_def by blast
  next
    assume a: "0 < code \<and> o1 = min code oldest \<and> y1 = y + (if cl then 0 else 2) + (if mg then 1 else 0)"
    let ?Q = "if h \<in> voters cfg then insert h Q else Q"
    have "h \<notin> Q" using Q(2) h(1) by blast
    note w = weight_insert[OF fin this, of cfg]
    have "is_magic cfg h \<Longrightarrow> h \<in> voters cfg" by (simp add: is_magic_def)
    then have "y1 = weight cfg ?Q" using a Q(3) fl w by auto
    moreover have "\<forall>v \<in> ?Q. \<exists>t. V v t \<and> o1 \<le> t"
    proof
      fix v assume "v \<in> ?Q"
      then consider "v = h" | "v \<in> Q" by (auto split: if_splits)
      then show "\<exists>t. V v t \<and> o1 \<le> t"
      proof cases
        case 1
        then show ?thesis using a h(2) by (intro exI[of _ code]) simp
      next
        case 2
        then obtain t where "V v t" "oldest \<le> t" using Q(4) by blast
        then show ?thesis using a by (intro exI[of _ t]) simp
      qed
    qed
    ultimately show ?thesis using Q(1,2) unfolding tally_ok_def by (intro exI[of _ ?Q]) auto
  qed
qed

lemma tally_fold:
  assumes "fold beacon_reply replies (s, y, oldest) = (s', y', oldest')"
    and "site_ok cfg c s" and "tally_ok cfg c V H y oldest"
    and "distinct (map fst replies)"
    and "\<forall>(i, temp, code, err) \<in> set replies. i < length (servers s) \<and>
       hd (addr (servers s ! i)) \<notin> H \<and> (0 < code \<longrightarrow> V (hd (addr (servers s ! i))) code)"
  shows "econf s' = econf s \<and> ecand s' = ecand s \<and> evote s' = evote s \<and>
     tally_ok cfg c V (H \<union> (hd \<circ> addr) ` set (servers s)) y' oldest'"
  using assms
proof (induction replies arbitrary: s y oldest H)
  case Nil
  then show ?case by (auto simp: tally_ok_def)
next
  case (Cons r rs)
  obtain i temp code err where r: "r = (i, temp, code, err)" by (metis prod_cases4)
  obtain s1 y1 o1 where one: "beacon_reply r (s, y, oldest) = (s1, y1, o1)" by (metis prod_cases3)
  note F = beacon_reply_frame[OF one[unfolded r]]
  let ?h = "hd (addr (servers s ! i))"
  have i: "i < length (servers s)" "?h \<notin> H" "0 < code \<Longrightarrow> V ?h code"
    using Cons.prems(5) r by auto
  have ts: "servers s ! i \<in> set (servers s)" using i(1) by simp
  have fl: "isClone (servers s ! i) \<longleftrightarrow> ?h \<notin> voters cfg" "magic (servers s ! i) \<longleftrightarrow> is_magic cfg ?h"
    using Cons.prems(2) ts by (auto simp: site_ok_def)
  have T: "tally_ok cfg c V (insert ?h H) y1 o1"
    by (rule tally_step[OF Cons.prems(3) F(4) fl i(2,3)])
  note A = econf_addr[OF F(1)]
  have s1: "site_ok cfg c s1" using site_ok_econf[OF F(1)] Cons.prems(2) by simp
  have rest: "fold beacon_reply rs (s1, y1, o1) = (s', y', oldest')" using Cons.prems(1) one by simp
  have inj: "hd (addr (servers s ! j)) \<noteq> ?h" if "j < length (servers s)" "j \<noteq> i" for j
    using Cons.prems(2) that i(1) by (auto simp: site_ok_def distinct_conv_nth)
  have pr: "\<forall>(j, temp, code, err) \<in> set rs. j < length (servers s1) \<and>
       hd (addr (servers s1 ! j)) \<notin> insert ?h H \<and> (0 < code \<longrightarrow> V (hd (addr (servers s1 ! j))) code)"
  proof
    fix q assume q: "q \<in> set rs"
    obtain j temp' code' err' where qe: "q = (j, temp', code', err')" by (metis prod_cases4)
    have "j \<noteq> i" using Cons.prems(4) q qe r by force
    moreover have "j < length (servers s) \<and> hd (addr (servers s ! j)) \<notin> H \<and> (0 < code' \<longrightarrow> V (hd (addr (servers s ! j))) code')"
      using Cons.prems(5) q qe by auto
    ultimately show "case q of (j, temp, code, err) \<Rightarrow> j < length (servers s1) \<and>
       hd (addr (servers s1 ! j)) \<notin> insert ?h H \<and> (0 < code \<longrightarrow> V (hd (addr (servers s1 ! j))) code)"
      using A[of j] inj[of j] qe by auto
  qed
  have "distinct (map fst rs)" using Cons.prems(4) by simp
  note IH = Cons.IH[OF rest s1 T this pr]
  have "(hd \<circ> addr) ` set (servers s1) = (hd \<circ> addr) ` set (servers s)"
    using s1 Cons.prems(2) by (simp add: site_ok_def)
  moreover have "?h \<in> (hd \<circ> addr) ` set (servers s)" using ts by auto
  ultimately have "insert ?h H \<union> (hd \<circ> addr) ` set (servers s1) = H \<union> (hd \<circ> addr) ` set (servers s)" by blast
  then show ?case using IH F by simp
qed

lemma other_voterI: "site_ok cfg c s \<Longrightarrow> 2 \<le> card (voters cfg) \<Longrightarrow> other_voter s"
proof -
  assume ok: "site_ok cfg c s" and two: "2 \<le> card (voters cfg)"
  have "voters cfg - {c} \<noteq> {}"
  proof
    assume "voters cfg - {c} = {}"
    then have "card (voters cfg) \<le> card {c}" by (intro card_mono) auto
    with two show False by simp
  qed
  then obtain v where v: "v \<in> voters cfg" "v \<noteq> c" by blast
  then have "v \<in> set (map (hd \<circ> addr) (servers s))" using ok voters_hosts by (auto simp: site_ok_def)
  then obtain ts where "ts \<in> set (servers s)" "hd (addr ts) = v" by auto
  moreover have "hd (ubik_host s) = c" "isClone ts \<longleftrightarrow> hd (addr ts) \<notin> voters cfg" if "ts \<in> set (servers s)" for ts
    using ok that by (auto simp: site_ok_def)
  ultimately show ?thesis using v unfolding other_voter_def by metis
qed

lemma amSyncSite_frame:
  assumes "amSyncSite s now = (r, s')"
  shows "econf s' = econf s" and "evote s' = evote s" and "syncSiteUntil s' = syncSiteUntil s"
    and "ubik_amSyncSite s' \<Longrightarrow> ubik_amSyncSite s"
  using assms by (auto simp: amSyncSite_def econf_def evote_def split: if_splits)

lemma reset_frame [simp]:
  "econf (urecovery_ResetState s) = econf s" "evote (urecovery_ResetState s) = evote s"
  "ecand (urecovery_ResetState s) = ecand s"
  "ubik_amSyncSite (urecovery_ResetState s) = ubik_amSyncSite s"
  "syncSiteUntil (urecovery_ResetState s) = syncSiteUntil s"
  by (simp_all add: urecovery_ResetState_def econf_def evote_def ecand_def)

lemma AmSyncSite_frame:
  assumes "ubeacon_AmSyncSite s now = (r, s')"
  shows "econf s' = econf s" and "evote s' = evote s" and "syncSiteUntil s' = syncSiteUntil s"
    and "ubik_amSyncSite s' \<Longrightarrow> ubik_amSyncSite s"
  using assms amSyncSite_frame[of s now]
  by (auto simp: ubeacon_AmSyncSite_def Let_def split: prod.splits if_splits)

text \<open>The decision at the end of a round.\<close>

lemma beacon_decide_frame:
  assumes ok: "site_ok cfg c s" and T: "tally_ok cfg c V (hosts cfg - {c}) y oldest"
    and i: "i \<noteq> 0 \<Longrightarrow> V c i \<and> \<not> amIClone s"
  shows "econf (beacon_decide s now i y oldest) = econf s" and "evote (beacon_decide s now i y oldest) = evote s"
    and "ubik_amSyncSite (beacon_decide s now i y oldest) \<Longrightarrow>
      \<exists>y' o'. tally_ok cfg c V (hosts cfg \<union> {c}) y' o' \<and> int (card (voters cfg)) < y' \<and>
        syncSiteUntil (beacon_decide s now i y oldest) = o' + SMALLTIME"
proof -
  show "econf (beacon_decide s now i y oldest) = econf s" "evote (beacon_decide s now i y oldest) = evote s"
    by (auto simp: beacon_decide_def Let_def econf_def evote_def urecovery_ResetState_def)
  assume am: "ubik_amSyncSite (beacon_decide s now i y oldest)"
  let ?y = "if i \<noteq> 0 then y + 2 + (if amIMagic s then 1 else 0) else y"
  let ?o = "if i \<noteq> 0 \<and> i < oldest then i else oldest"
  have "nServers s < ?y \<and> syncSiteUntil (beacon_decide s now i y oldest) = ?o + SMALLTIME"
    using am by (auto simp: beacon_decide_def Let_def urecovery_ResetState_def split: if_splits)
  moreover have "tally_ok cfg c V (hosts cfg \<union> {c}) ?y ?o"
  proof -
    obtain Q where Q: "Q \<subseteq> voters cfg" "Q \<subseteq> hosts cfg - {c}" "y = weight cfg Q" "\<forall>v \<in> Q. \<exists>t. V v t \<and> oldest \<le> t"
      using T by (auto simp: tally_ok_def)
    have fin: "finite Q" using Q(1) finite_voters(1) finite_subset by blast
    let ?Q = "if i \<noteq> 0 then insert c Q else Q"
    have "c \<notin> Q" using Q(2) by blast
    note w = weight_insert[OF fin this, of cfg]
    have m: "amIMagic s \<longleftrightarrow> is_magic cfg c" "amIClone s \<longleftrightarrow> c \<notin> voters cfg" using ok by (auto simp: site_ok_def)
    have "?y = weight cfg ?Q" using w Q(3) m by simp
    moreover have "?Q \<subseteq> voters cfg" using Q(1) i m by auto
    moreover have "\<forall>v \<in> ?Q. \<exists>t. V v t \<and> ?o \<le> t"
    proof
      fix v assume v: "v \<in> ?Q"
      show "\<exists>t. V v t \<and> ?o \<le> t"
      proof (cases "v \<in> Q")
        case True
        then obtain t where "V v t" "oldest \<le> t" using Q(4) by blast
        then show ?thesis by (intro exI[of _ t]) auto
      next
        case False
        then have "v = c" "i \<noteq> 0" using v by (auto split: if_splits)
        then show ?thesis using i by (intro exI[of _ i]) auto
      qed
    qed
    ultimately show ?thesis using Q(2) unfolding tally_ok_def by (intro exI[of _ ?Q]) auto
  qed
  moreover have "nServers s = int (card (voters cfg))" using ok by (simp add: site_ok_def)
  ultimately show "\<exists>y' o'. tally_ok cfg c V (hosts cfg \<union> {c}) y' o' \<and> int (card (voters cfg)) < y' \<and>
      syncSiteUntil (beacon_decide s now i y oldest) = o' + SMALLTIME" by auto
qed

lemma other_voter_econf: "econf s = econf s' \<Longrightarrow> other_voter s = other_voter s'"
proof -
  assume e: "econf s = econf s'"
  then have m: "map (\<lambda>ts. (addr ts, isClone ts, magic ts)) (servers s) = map (\<lambda>ts. (addr ts, isClone ts, magic ts)) (servers s')"
    and h: "ubik_host s = ubik_host s'"
    by (simp_all add: econf_def)
  show ?thesis
    using arg_cong[OF m, of "list_ex (\<lambda>(a, c, _). hd a \<noteq> hd (ubik_host s) \<and> \<not> c)"] h
    by (simp add: list_ex_iff other_voter_def)
qed

lemma collect_frame:
  assumes ok: "site_ok cfg c s" and a1: "amSyncSite s start = (am1, s1)"
    and f: "fold beacon_reply replies (if \<not> am1 then urecovery_ResetState s1 else s1, 0, MAXTIME) = (s3, y, o1)"
    and a4: "ubeacon_AmSyncSite s3 now = (am, s4)"
    and d: "distinct (map fst replies)"
    and V: "\<forall>(i, temp, code, err) \<in> set replies. i < length (servers s) \<and>
       (0 < code \<longrightarrow> V (hd (addr (servers s ! i))) code)"
  shows "econf s4 = econf s" and "evote s4 = evote s"
    and "ubik_amSyncSite s4 \<Longrightarrow> ubik_amSyncSite s" and "syncSiteUntil s4 = syncSiteUntil s"
    and "tally_ok cfg c V (hosts cfg - {c}) y o1"
proof -
  let ?s2 = "if \<not> am1 then urecovery_ResetState s1 else s1"
  note A1 = amSyncSite_frame[OF a1]
  have e2: "econf ?s2 = econf s" "evote ?s2 = evote s" using A1 by auto
  have ok2: "site_ok cfg c ?s2" using ok site_ok_econf[OF e2(1)] by simp
  have T0: "tally_ok cfg c V {} 0 MAXTIME" by (auto simp: tally_ok_def weight_def intro!: exI[of _ "{}"])
  have "\<forall>(i, temp, code, err) \<in> set replies. i < length (servers ?s2) \<and>
     hd (addr (servers ?s2 ! i)) \<notin> {} \<and> (0 < code \<longrightarrow> V (hd (addr (servers ?s2 ! i))) code)"
    using V econf_addr[OF e2(1)] by fastforce
  note F = tally_fold[OF f ok2 T0 d this]
  have h2: "(hd \<circ> addr) ` set (servers ?s2) = hosts cfg - {c}" using ok2 by (simp add: site_ok_def)
  note A4 = AmSyncSite_frame[OF a4]
  show "econf s4 = econf s" "evote s4 = evote s" using A4(1,2) F e2 by auto
  show "syncSiteUntil s4 = syncSiteUntil s" using A4(3) F A1(3) by (auto simp: ecand_def)
  show "ubik_amSyncSite s4 \<Longrightarrow> ubik_amSyncSite s" using A4(4) F A1(4) by (auto simp: ecand_def split: if_splits)
  show "tally_ok cfg c V (hosts cfg - {c}) y o1" using F h2 by simp
qed

definition own_vote :: "u32 \<Rightarrow> int \<Rightarrow> site \<Rightarrow> site \<Rightarrow> bool" where
  "own_vote c now s s' \<longleftrightarrow> evote s' = evote s \<or>
     evote s' = (now, c) \<and> (lastYesTime s + BIGTIME < now \<or> c = lastYesHost s)"

definition mandate :: "cell \<Rightarrow> u32 \<Rightarrow> (u32 \<Rightarrow> int \<Rightarrow> bool) \<Rightarrow> int \<Rightarrow> bool" where
  "mandate cfg c V until \<longleftrightarrow> (\<exists>y o1. tally_ok cfg c V (hosts cfg \<union> {c}) y o1 \<and>
     int (card (voters cfg)) < y \<and> until = o1 + SMALLTIME)"

text \<open>
  One round: the vote of the site itself is \<open>(now, c)\<close> if it casts one, and it believes to
  be sync site only on an earlier mandate or on a majority of votes.
\<close>

lemma round_frame:
  assumes ok: "site_ok cfg c s" and ov: "other_voter s"
    and rd: "beacon_round s start replies now = (code, s')"
    and d: "distinct (map fst replies)"
    and V: "\<forall>(i, temp, code, err) \<in> set replies. i < length (servers s) \<and>
       (0 < code \<longrightarrow> V (hd (addr (servers s ! i))) code)"
    and own: "evote s' = (now, c) \<Longrightarrow> V c now"
  shows "econf s' = econf s \<and> own_vote c now s s' \<and>
    (ubik_amSyncSite s' \<longrightarrow> ubik_amSyncSite s \<and> syncSiteUntil s' = syncSiteUntil s \<or> mandate cfg c V (syncSiteUntil s'))"
proof -
  obtain am1 s1 where a1: "amSyncSite s start = (am1, s1)" by fastforce
  let ?s2 = "if \<not> am1 then urecovery_ResetState s1 else s1"
  obtain s3 y o1 where f: "fold beacon_reply replies (?s2, 0, MAXTIME) = (s3, y, o1)" by (metis prod_cases3)
  obtain am s4 where a4: "ubeacon_AmSyncSite s3 now = (am, s4)" by fastforce
  obtain i cd s5 where b: "SVOTE_Beacon s4 now None am start (version (db s)) (beacon_tid s) = (i, cd, s5)"
    by (metis prod_cases3)
  have s': "s' = (if cd = UPANIC then s5 else beacon_decide s5 now i y o1)"
    using rd a1 f a4 b by (auto simp: beacon_round_def Let_def split: if_splits)
  note C = collect_frame[OF ok a1 f a4 d V]
  have ok4: "site_ok cfg c s4" using ok site_ok_econf[OF C(1)] by simp
  have ov4: "other_voter s4" using ov other_voter_econf[OF C(1)] by simp
  have bc: "beacon_caller s4 None = (c, amIClone s4)" using ok4 by (simp add: beacon_caller_def site_ok_def)
  note S = SVOTE_Beacon_frame[OF b]
  note Vt = SVOTE_Beacon_vote[OF b ov4 bc]
  have ok5: "site_ok cfg c s5" using ok4 site_ok_econf[OF S(1)] by simp
  have e5: "own_vote c now s s5" using Vt C(2) by (auto simp: evote_def own_vote_def)
  have am5: "ubik_amSyncSite s5 \<longrightarrow> ubik_amSyncSite s \<and> syncSiteUntil s5 = syncSiteUntil s"
    using S(2) C(3,4) by (auto simp: ecand_def)
  show ?thesis
  proof (cases "cd = UPANIC")
    case True
    then show ?thesis using s' S(1) C(1) e5 am5 by simp
  next
    case False
    have ev: "evote s' = evote s5" and ec: "econf s' = econf s5"
      using s' False by (auto simp: beacon_decide_def Let_def econf_def evote_def urecovery_ResetState_def)
    have own': "i \<noteq> 0 \<Longrightarrow> V c i \<and> \<not> amIClone s5"
      using Vt own ev S(1) by (auto simp: econf_def)
    have "ubik_amSyncSite s' \<Longrightarrow> mandate cfg c V (syncSiteUntil s')"
      using beacon_decide_frame(3)[OF ok5 C(5) own', of now] s' False by (auto simp: mandate_def)
    then show ?thesis using e5 ev ec S(1) C(1) by (auto simp: own_vote_def)
  qed
qed

lemma Interact_frame:
  assumes ok: "site_ok cfg c s" and ov: "other_voter s"
    and run: "ubeacon_Interact s wakeup start replies now = (code, s')"
    and d: "distinct (map fst replies)"
    and V: "\<forall>(i, temp, code, err) \<in> set replies. i < length (servers s) \<and>
       (0 < code \<longrightarrow> V (hd (addr (servers s ! i))) code)"
    and own: "evote s' = (now, c) \<Longrightarrow> V c now"
  shows "econf s' = econf s \<and> own_vote c now s s' \<and>
    (ubik_amSyncSite s' \<longrightarrow> ubik_amSyncSite s \<and> syncSiteUntil s' = syncSiteUntil s \<or> mandate cfg c V (syncSiteUntil s'))"
proof (cases "singleServer s \<or> \<not> uvote_ShouldIRun s wakeup")
  case True
  then show ?thesis using run by (auto simp: ubeacon_Interact_def own_vote_def split: if_splits)
next
  case False
  then show ?thesis using run round_frame[OF ok ov _ d V own] by (simp add: ubeacon_Interact_def)
qed

section \<open>A cell of servers\<close>

text \<open>
  The sites, a time that only passes, and every yes vote \<open>(voter, candidate, time of the vote)\<close>
  ever given.  Each site's clock differs from the time by a constant skew.  Messages
  may be lost, delayed and repeated: a candidate may count, in any round, any vote that
  its voter has given to it at any time before.  A site may restart at any time.
\<close>

record esys =
  esite :: "u32 \<Rightarrow> site"
  etime :: int
  evotes :: "(u32 \<times> u32 \<times> int) set"

abbreviation clock :: "(u32 \<Rightarrow> int) \<Rightarrow> esys \<Rightarrow> u32 \<Rightarrow> int" where
  "clock skew e h \<equiv> etime e + skew h"

definition skew_ok :: "cell \<Rightarrow> (u32 \<Rightarrow> int) \<Rightarrow> bool" where
  "skew_ok cfg skew \<longleftrightarrow> (\<forall>a \<in> hosts cfg. \<forall>b \<in> hosts cfg. skew a - skew b \<le> MAXSKEW)"

definition put_site :: "esys \<Rightarrow> u32 \<Rightarrow> site \<Rightarrow> esys" where
  "put_site e h s = e\<lparr>esite := (esite e)(h := s)\<rparr>"

definition add_vote :: "esys \<Rightarrow> bool \<Rightarrow> u32 \<times> u32 \<times> int \<Rightarrow> esys" where
  "add_vote e yes v = (if yes then e\<lparr>evotes := insert v (evotes e)\<rparr> else e)"

text \<open>A freshly started site: \<^verbatim>\<open>uvote_Init\<close>, then the server list.\<close>

definition fresh_site :: "cell \<Rightarrow> u32 \<Rightarrow> int \<Rightarrow> site \<Rightarrow> bool" where
  "fresh_site cfg h now s' \<longleftrightarrow> (\<exists>s0 later code. servers s0 = [] \<and> hd (ubik_host s0) = h \<and> \<not> ubik_amSyncSite s0 \<and>
     ubeacon_InitServerListByInfo (uvote_Init s0 now) later h cfg = (code, s'))"

inductive estep :: "cell \<Rightarrow> (u32 \<Rightarrow> int) \<Rightarrow> esys \<Rightarrow> esys \<Rightarrow> bool" for cfg skew where
  tick: "etime e \<le> T \<Longrightarrow> estep cfg skew e (e\<lparr>etime := T\<rparr>)"
| vote: "v \<in> hosts cfg \<Longrightarrow>
    SVOTE_Beacon (esite e v) (clock skew e v) (Some a) st start vers atid = (r, code, s') \<Longrightarrow>
    estep cfg skew e (add_vote (put_site e v s') (r \<noteq> 0) (v, fst (beacon_caller (esite e v) (Some a)), r))"
| run: "c \<in> hosts cfg \<Longrightarrow> distinct (map fst replies) \<Longrightarrow>
    \<forall>(i, temp, code, err) \<in> set replies. i < length (servers (esite e c)) \<and>
       (0 < code \<longrightarrow> (hd (addr (servers (esite e c) ! i)), c, code) \<in> evotes e) \<Longrightarrow>
    ubeacon_Interact (esite e c) wakeup start replies (clock skew e c) = (code, s') \<Longrightarrow>
    estep cfg skew e (add_vote (put_site e c s') (evote s' = (clock skew e c, c)) (c, c, clock skew e c))"
| check: "h \<in> hosts cfg \<Longrightarrow> ubeacon_AmSyncSite (esite e h) (clock skew e h) = (r, s') \<Longrightarrow>
    estep cfg skew e (put_site e h s')"
| restart: "h \<in> hosts cfg \<Longrightarrow> fresh_site cfg h (clock skew e h) s' \<Longrightarrow> estep cfg skew e (put_site e h s')"
| other: "h \<in> hosts cfg \<Longrightarrow> econf s' = econf (esite e h) \<Longrightarrow> ecand s' = ecand (esite e h) \<Longrightarrow>
    evote s' = evote (esite e h) \<Longrightarrow> estep cfg skew e (put_site e h s')"

definition einit :: "cell \<Rightarrow> (u32 \<Rightarrow> int) \<Rightarrow> esys \<Rightarrow> bool" where
  "einit cfg skew e \<longleftrightarrow> (\<forall>h \<in> hosts cfg. fresh_site cfg h (clock skew e h) (esite e h)) \<and> evotes e = {}"

inductive ereach :: "cell \<Rightarrow> (u32 \<Rightarrow> int) \<Rightarrow> esys \<Rightarrow> bool" for cfg skew where
  init: "einit cfg skew e \<Longrightarrow> ereach cfg skew e"
| step: "ereach cfg skew e \<Longrightarrow> estep cfg skew e e' \<Longrightarrow> ereach cfg skew e'"

section \<open>The invariant\<close>

text \<open>What a voter \<open>v\<close> keeps about its votes \<open>W\<close>: the last one is on record, and votes for
  another host are more than \<open>BIGTIME\<close> older.\<close>

definition voter_ok :: "(u32 \<times> int) set \<Rightarrow> int \<times> u32 \<Rightarrow> int \<Rightarrow> bool" where
  "voter_ok W lv now \<longleftrightarrow> fst lv \<le> now \<and>
     (\<forall>(c, t) \<in> W. t \<le> fst lv \<and> c \<noteq> 0xffffffff) \<and>
     (snd lv \<noteq> 0xffffffff \<longrightarrow> (\<forall>(c, t) \<in> W. c \<noteq> snd lv \<longrightarrow> t + BIGTIME < fst lv)) \<and>
     (\<forall>(c, t) \<in> W. \<forall>(c', t') \<in> W. c \<noteq> c' \<longrightarrow> t + BIGTIME < t' \<or> t' + BIGTIME < t)"

definition votes_of :: "esys \<Rightarrow> u32 \<Rightarrow> (u32 \<times> int) set" where
  "votes_of e v = {(c, t). (v, c, t) \<in> evotes e}"

definition backed :: "cell \<Rightarrow> esys \<Rightarrow> u32 \<Rightarrow> int \<Rightarrow> bool" where
  "backed cfg e c until \<longleftrightarrow> (\<exists>Q. Q \<subseteq> voters cfg \<and> int (card (voters cfg)) < weight cfg Q \<and>
     (\<forall>v \<in> Q. \<exists>t. (v, c, t) \<in> evotes e \<and> until \<le> t + SMALLTIME))"

definition einv :: "cell \<Rightarrow> (u32 \<Rightarrow> int) \<Rightarrow> esys \<Rightarrow> bool" where
  "einv cfg skew e \<longleftrightarrow> (\<forall>h \<in> hosts cfg. site_ok cfg h (esite e h) \<and>
     voter_ok (votes_of e h) (evote (esite e h)) (clock skew e h) \<and>
     (ubik_amSyncSite (esite e h) \<longrightarrow> backed cfg e h (syncSiteUntil (esite e h))))"

lemma voter_ok_vote:
  assumes "voter_ok W (lt, lh) now" and "lt + BIGTIME < now \<or> h = lh" and "h \<noteq> 0xffffffff"
  shows "voter_ok (insert (h, now) W) (now, h) now"
proof -
  have now: "lt \<le> now" using assms(1) by (simp add: voter_ok_def)
  have old: "t + BIGTIME < now" if "(c, t) \<in> W" "c \<noteq> h" for c t
    using assms that now by (fastforce simp: voter_ok_def)
  have le: "t \<le> now \<and> c \<noteq> 0xffffffff" if "(c, t) \<in> W" for c t
    using assms(1) that now by (fastforce simp: voter_ok_def)
  have apart: "t + BIGTIME < t' \<or> t' + BIGTIME < t" if "(c, t) \<in> W" "(c', t') \<in> W" "c \<noteq> c'" for c t c' t'
    using assms(1) that by (fastforce simp: voter_ok_def)
  show ?thesis using old le assms(3) unfolding voter_ok_def by (auto, metis apart)
qed

lemma voter_ok_restart:
  "voter_ok W lv now \<Longrightarrow> voter_ok W (now, 0xffffffff) now"
  by (fastforce simp: voter_ok_def)

lemma voter_ok_later: "voter_ok W lv now \<Longrightarrow> now \<le> now' \<Longrightarrow> voter_ok W lv now'"
  by (simp add: voter_ok_def)

lemma backed_mono: "backed cfg e c u \<Longrightarrow> evotes e \<subseteq> evotes e' \<Longrightarrow> backed cfg e' c u"
  unfolding backed_def by (meson subsetD)

lemma fresh_site_ok:
  assumes "fresh_site cfg h now s'" and "cell_ok cfg" and "h \<in> hosts cfg" and "2 \<le> card (voters cfg)"
  shows "site_ok cfg h s'" and "evote s' = (now, 0xffffffff)" and "\<not> ubik_amSyncSite s'"
proof -
  obtain s0 later code where f: "servers s0 = []" "hd (ubik_host s0) = h" "\<not> ubik_amSyncSite s0"
    "ubeacon_InitServerListByInfo (uvote_Init s0 now) later h cfg = (code, s')"
    using assms(1) by (auto simp: fresh_site_def)
  show ok: "site_ok cfg h s'"
    using init_site_ok[OF assms(2,3) _ _ f(4)] f(1,2) by (simp add: uvote_Init_def)
  have n: "nServers s' \<noteq> 1" and srv: "servers s' \<noteq> []"
    using ok assms(4) other_voterI[OF ok assms(4)] by (auto simp: site_ok_def other_voter_def)
  show "evote s' = (now, 0xffffffff)"
    using f(4) by (auto simp: ubeacon_InitServerListByInfo_def Let_def uvote_Init_def evote_def become_single_def
        split: prod.splits if_splits)
  show "\<not> ubik_amSyncSite s'"
    using f(3,4) n srv by (auto simp: ubeacon_InitServerListByInfo_def Let_def uvote_Init_def become_single_def set_magic_def
        split: prod.splits if_splits option.splits)
qed

lemma votes_of_put [simp]:
  "votes_of (put_site e h s) = votes_of e"
  "evotes (put_site e h s) = evotes e"
  "esite (put_site e h s) h' = (if h' = h then s else esite e h')"
  "etime (put_site e h s) = etime e"
  by (auto simp: votes_of_def put_site_def)

lemma add_vote_sel [simp]:
  "esite (add_vote e y v) = esite e" "etime (add_vote e y v) = etime e"
  "evotes (add_vote e y v) = (if y then insert v (evotes e) else evotes e)"
  by (auto simp: add_vote_def)

lemma votes_of_add:
  "votes_of (add_vote e y (v, c, t)) h = (if y \<and> h = v then insert (c, t) (votes_of e h) else votes_of e h)"
  by (auto simp: votes_of_def)

lemma voter_ok_time: "voter_ok W lv now \<Longrightarrow> (c, t) \<in> W \<Longrightarrow> t \<le> now"
  unfolding voter_ok_def by force

lemma einvD:
  assumes "einv cfg skew e" and "h \<in> hosts cfg"
  shows "site_ok cfg h (esite e h)" and "voter_ok (votes_of e h) (evote (esite e h)) (clock skew e h)"
    and "ubik_amSyncSite (esite e h) \<Longrightarrow> backed cfg e h (syncSiteUntil (esite e h))"
  using assms by (auto simp: einv_def)

text \<open>A step changes one site and adds at most one vote, by that site.\<close>

lemma einv_update:
  assumes inv: "einv cfg skew e" and h: "h \<in> hosts cfg"
    and ok: "econf s' = econf (esite e h)"
    and vt: "voter_ok (if y then insert (c, t) (votes_of e h) else votes_of e h) (evote s') (clock skew e h)"
    and am: "ubik_amSyncSite s' \<Longrightarrow> ubik_amSyncSite (esite e h) \<and> syncSiteUntil s' = syncSiteUntil (esite e h) \<or>
       backed cfg (add_vote (put_site e h s') y (h, c, t)) h (syncSiteUntil s')"
  shows "einv cfg skew (add_vote (put_site e h s') y (h, c, t))"
proof -
  let ?e = "add_vote (put_site e h s') y (h, c, t)"
  have mono: "backed cfg e k u \<Longrightarrow> backed cfg ?e k u" for k u
    by (erule backed_mono) auto
  have "site_ok cfg k (esite ?e k) \<and> voter_ok (votes_of ?e k) (evote (esite ?e k)) (clock skew ?e k) \<and>
     (ubik_amSyncSite (esite ?e k) \<longrightarrow> backed cfg ?e k (syncSiteUntil (esite ?e k)))" if k: "k \<in> hosts cfg" for k
  proof (cases "k = h")
    case True
    have "site_ok cfg h s'" using einvD(1)[OF inv h] site_ok_econf[OF ok] by simp
    then show ?thesis using vt am einvD(3)[OF inv h] mono True by (auto simp: votes_of_add)
  next
    case False
    then show ?thesis using einvD[OF inv k] mono by (auto simp: votes_of_add)
  qed
  then show ?thesis by (simp add: einv_def)
qed

lemma add_vote_False: "add_vote e False v = e"
  by (simp add: add_vote_def)

lemmas einv_put = einv_update[where y = False and c = 0 and t = 0, unfolded add_vote_False if_False]

lemma einv_replace:
  assumes "einv cfg skew e" and "h \<in> hosts cfg" and "site_ok cfg h s'" and "\<not> ubik_amSyncSite s'"
    and "voter_ok (votes_of e h) (evote s') (clock skew e h)"
  shows "einv cfg skew (put_site e h s')"
  using assms backed_mono[of cfg e _ _ "put_site e h s'"] by (auto simp: einv_def)

lemma caller_host:
  assumes "site_ok cfg v s" and "beacon_caller s (Some a) = (h, cl)" and "h \<noteq> 0"
  shows "h \<in> hosts cfg"
proof -
  have "ubikGetPrimaryInterfaceAddr s a = h" using assms(2) by (simp add: beacon_caller_def Let_def)
  then obtain ts where "List.find (\<lambda>ts. a \<in> set (addr ts) \<or> a = 0 \<and> length (addr ts) < 256) (servers s) = Some ts"
    "h = hd (addr ts)"
    using assms(3) by (auto simp: ubikGetPrimaryInterfaceAddr_def split: option.splits)
  then have "ts \<in> set (servers s)" "h = hd (addr ts)" using find_Some_in by fastforce+
  then have "h \<in> set (map (hd \<circ> addr) (servers s))" by auto
  then show ?thesis using assms(1) by (auto simp: site_ok_def)
qed

lemma mandate_backed:
  assumes "mandate cfg c (\<lambda>v t. (v, c, t) \<in> evotes e) u"
  shows "backed cfg e c u"
proof -
  obtain y o1 Q where Q: "Q \<subseteq> voters cfg" "y = weight cfg Q" "\<forall>v \<in> Q. \<exists>t. (v, c, t) \<in> evotes e \<and> o1 \<le> t"
    "int (card (voters cfg)) < y" "u = o1 + SMALLTIME"
    using assms by (auto simp: mandate_def tally_ok_def)
  then have "\<forall>v \<in> Q. \<exists>t. (v, c, t) \<in> evotes e \<and> u \<le> t + SMALLTIME" by fastforce
  then show ?thesis using Q by (auto simp: backed_def)
qed

lemma einv_vote:
  assumes inv: "einv cfg skew e" and cell: "cell_ok cfg" and two: "2 \<le> card (voters cfg)" and v: "v \<in> hosts cfg"
    and run: "SVOTE_Beacon (esite e v) (clock skew e v) (Some a) st start vers atid = (r, code, s')"
  shows "einv cfg skew (add_vote (put_site e v s') (r \<noteq> 0) (v, fst (beacon_caller (esite e v) (Some a)), r))"
proof -
  obtain h cl where bc: "beacon_caller (esite e v) (Some a) = (h, cl)" by fastforce
  note D = einvD[OF inv v]
  note F = SVOTE_Beacon_frame[OF run]
  have "voter_ok (if r \<noteq> 0 then insert (h, r) (votes_of e v) else votes_of e v) (evote s') (clock skew e v)"
  proof (cases "evote s' = evote (esite e v) \<and> r = 0")
    case False
    then have V: "r = clock skew e v" "evote s' = (clock skew e v, h)" "h \<noteq> 0"
      "lastYesTime (esite e v) + BIGTIME < clock skew e v \<or> h = lastYesHost (esite e v)"
      using SVOTE_Beacon_vote[OF run other_voterI[OF D(1) two] bc] by auto
    have "h \<noteq> 0xffffffff" using caller_host[OF D(1) bc V(3)] cell by (auto simp: cell_ok_def)
    note W = voter_ok_vote[OF D(2)[unfolded evote_def] V(4) this]
    then have W': "voter_ok (votes_of e v) (clock skew e v, h) (clock skew e v)" by (auto simp: voter_ok_def)
    show ?thesis unfolding V(2) using W W' unfolding V(1)[symmetric] by (cases "r = 0") simp_all
  qed (use D(2) in simp)
  then show ?thesis
    using einv_update[OF inv v F(1)] F(2) bc by (simp add: ecand_def)
qed

lemma einv_run:
  assumes inv: "einv cfg skew e" and cell: "cell_ok cfg" and two: "2 \<le> card (voters cfg)" and c: "c \<in> hosts cfg"
    and d: "distinct (map fst replies)"
    and rep: "\<forall>(i, temp, code, err) \<in> set replies. i < length (servers (esite e c)) \<and>
       (0 < code \<longrightarrow> (hd (addr (servers (esite e c) ! i)), c, code) \<in> evotes e)"
    and run: "ubeacon_Interact (esite e c) wakeup start replies (clock skew e c) = (code, s')"
  shows "einv cfg skew (add_vote (put_site e c s') (evote s' = (clock skew e c, c)) (c, c, clock skew e c))"
    (is "einv cfg skew ?e")
proof -
  let ?now = "clock skew e c" and ?V = "\<lambda>v t. (v, c, t) \<in> evotes ?e"
  note D = einvD[OF inv c]
  have V: "\<forall>(i, temp, code, err) \<in> set replies. i < length (servers (esite e c)) \<and>
       (0 < code \<longrightarrow> ?V (hd (addr (servers (esite e c) ! i))) code)"
    using rep by auto
  have own: "evote s' = (?now, c) \<Longrightarrow> ?V c ?now" by simp
  note F = Interact_frame[OF D(1) other_voterI[OF D(1) two] run d V own]
  have nc: "c \<noteq> 0xffffffff" using cell c by (auto simp: cell_ok_def)
  have "voter_ok (if evote s' = (?now, c) then insert (c, ?now) (votes_of e c) else votes_of e c) (evote s') ?now"
  proof (cases "evote s' = (?now, c)")
    case True
    have "lastYesTime (esite e c) + BIGTIME < ?now \<or> c = lastYesHost (esite e c)"
      using F True by (auto simp: own_vote_def evote_def)
    from voter_ok_vote[OF D(2)[unfolded evote_def] this nc] True show ?thesis by simp
  next
    case False
    then show ?thesis using F D(2) by (auto simp: own_vote_def)
  qed
  moreover have "ubik_amSyncSite (esite e c) \<and> syncSiteUntil s' = syncSiteUntil (esite e c) \<or>
      backed cfg ?e c (syncSiteUntil s')" if "ubik_amSyncSite s'"
    using F that mandate_backed[of cfg c ?e] by blast
  ultimately show ?thesis using einv_update[OF inv c] F by blast
qed

lemma einv_init:
  assumes "einit cfg skew e" and "cell_ok cfg" and "2 \<le> card (voters cfg)"
  shows "einv cfg skew e"
proof -
  have none: "votes_of e h = {}" for h using assms(1) by (simp add: einit_def votes_of_def)
  have "site_ok cfg h (esite e h) \<and> voter_ok {} (evote (esite e h)) (clock skew e h) \<and> \<not> ubik_amSyncSite (esite e h)"
    if h: "h \<in> hosts cfg" for h
  proof -
    have "fresh_site cfg h (clock skew e h) (esite e h)" using assms(1) h by (simp add: einit_def)
    from fresh_site_ok[OF this assms(2) h assms(3)] show ?thesis by (simp add: voter_ok_def)
  qed
  then show ?thesis unfolding einv_def none by blast
qed

lemma einv_step:
  assumes "estep cfg skew e e'" and inv: "einv cfg skew e" and cell: "cell_ok cfg" and two: "2 \<le> card (voters cfg)"
  shows "einv cfg skew e'"
  using assms(1)
proof cases
  case (tick T)
  have "backed cfg (e\<lparr>etime := T\<rparr>) h u = backed cfg e h u" for h u by (simp add: backed_def)
  moreover have "votes_of (e\<lparr>etime := T\<rparr>) = votes_of e" by (simp add: votes_of_def fun_eq_iff)
  moreover have "voter_ok W lv (clock skew e h) \<Longrightarrow> voter_ok W lv (T + skew h)" for W lv h
    by (erule voter_ok_later) (use tick(2) in simp)
  ultimately show ?thesis using inv unfolding tick(1) einv_def by simp
next
  case (vote v a st start vers atid r code s')
  then show ?thesis using einv_vote[OF inv cell two] by simp
next
  case (run c replies wakeup start code s')
  then show ?thesis using einv_run[OF inv cell two] by simp
next
  case (check h r s')
  note F = AmSyncSite_frame[OF check(3)]
  show ?thesis unfolding check(1)
    by (rule einv_put[OF inv check(2) F(1)]) (use F einvD(2)[OF inv check(2)] in auto)
next
  case (restart h s')
  note F = fresh_site_ok[OF restart(3) cell restart(2) two]
  show ?thesis unfolding restart(1)
    by (rule einv_replace[OF inv restart(2) F(1,3)]) (use F(2) voter_ok_restart einvD(2)[OF inv restart(2)] in simp)
next
  case (other h s')
  show ?thesis unfolding other(1)
    by (rule einv_put[OF inv other(2,3)]) (use other einvD(2)[OF inv other(2)] in \<open>auto simp: ecand_def\<close>)
qed

lemma ereach_einv:
  assumes "ereach cfg skew e" and "cell_ok cfg" and "2 \<le> card (voters cfg)"
  shows "einv cfg skew e"
  using assms by induction (auto intro: einv_init einv_step)

section \<open>At most one sync site\<close>

lemma amSyncSite_backed:
  assumes "einv cfg skew e" and "h \<in> hosts cfg" and "2 \<le> card (voters cfg)"
    and "fst (amSyncSite (esite e h) (clock skew e h))"
  shows "\<exists>u. backed cfg e h u \<and> clock skew e h < u"
proof -
  have "nServers (esite e h) \<noteq> 1" using einvD(1)[OF assms(1,2)] assms(3) by (simp add: site_ok_def)
  then have "ubik_amSyncSite (esite e h)" "clock skew e h < syncSiteUntil (esite e h)"
    using assms(4) by (auto simp: amSyncSite_def split: if_splits)
  then show ?thesis using einvD(3)[OF assms(1,2)] by blast
qed

lemma common_voter:
  assumes inv: "einv cfg skew e" and sk: "skew_ok cfg skew"
    and v: "v \<in> hosts cfg" and a: "a \<in> hosts cfg"
    and va: "(v, a, ta) \<in> evotes e" "clock skew e a < ta + SMALLTIME" and vb: "(v, b, tb) \<in> evotes e"
  shows "\<not> ta + BIGTIME < tb"
proof
  assume lt: "ta + BIGTIME < tb"
  have "tb \<le> clock skew e v" using voter_ok_time[OF einvD(2)[OF inv v]] vb by (simp add: votes_of_def)
  moreover have "skew v - skew a \<le> MAXSKEW" using sk v a by (simp add: skew_ok_def)
  ultimately show False using lt va(2) by linarith
qed

text \<open>
  C3: in every reachable state of a cell whose clocks differ by at most \<^verbatim>\<open>MAXSKEW\<close>
  seconds, two sites for which \<^verbatim>\<open>amSyncSite\<close> answers yes at the same moment are the
  same site.
\<close>
theorem at_most_one_sync_site:
  assumes "ereach cfg skew e" and "cell_ok cfg" and "skew_ok cfg skew" and "2 \<le> card (voters cfg)"
    and "a \<in> hosts cfg" and "b \<in> hosts cfg"
    and "fst (amSyncSite (esite e a) (clock skew e a))" and "fst (amSyncSite (esite e b) (clock skew e b))"
  shows "a = b"
proof (rule ccontr)
  assume ne: "a \<noteq> b"
  have inv: "einv cfg skew e" using ereach_einv assms(1,2,4) .
  obtain ua ub where u: "backed cfg e a ua" "clock skew e a < ua" "backed cfg e b ub" "clock skew e b < ub"
    using amSyncSite_backed[OF inv assms(5,4,7)] amSyncSite_backed[OF inv assms(6,4,8)] by blast
  obtain Qa Qb where Q: "Qa \<subseteq> voters cfg" "int (card (voters cfg)) < weight cfg Qa"
      "\<forall>v \<in> Qa. \<exists>t. (v, a, t) \<in> evotes e \<and> ua \<le> t + SMALLTIME"
      "Qb \<subseteq> voters cfg" "int (card (voters cfg)) < weight cfg Qb"
      "\<forall>v \<in> Qb. \<exists>t. (v, b, t) \<in> evotes e \<and> ub \<le> t + SMALLTIME"
    using u(1,3) unfolding backed_def by blast
  obtain v where v: "v \<in> Qa" "v \<in> Qb"
    using voting.common_member[of cfg Qa Qb] Q(1,4,2,5) by (auto simp: electing_def)
  have vh: "v \<in> hosts cfg" using v Q(1) voters_hosts by blast
  obtain ta tb where t: "(v, a, ta) \<in> evotes e" "ua \<le> ta + SMALLTIME" "(v, b, tb) \<in> evotes e" "ub \<le> tb + SMALLTIME"
    using v Q(3,6) by blast
  have "ta + BIGTIME < tb \<or> tb + BIGTIME < ta"
    using einvD(2)[OF inv vh] t(1,3) ne by (fastforce simp: voter_ok_def votes_of_def)
  then show False
    using common_voter[OF inv assms(3) vh assms(5) t(1) _ t(3)] common_voter[OF inv assms(3) vh assms(6) t(3) _ t(1)]
      u t by linarith
qed

text \<open>A cell of two servers in which the lower one has elected itself.\<close>

definition demo_cell :: cell where
  "demo_cell = [(0x01000000, False), (0x02000000, False)]"

definition demo_site :: "u32 \<Rightarrow> site" where
  "demo_site h = snd (ubeacon_InitServerListByInfo (uvote_Init (blank_site h undefined) 0) 0 h demo_cell)"

definition demo_init :: esys where
  "demo_init = \<lparr>esite = demo_site, etime = 0, evotes = {}\<rparr>"

definition demo_elected :: site where
  "demo_elected = snd (ubeacon_Interact (demo_site 0x01000000) 100 100 [] 100)"

definition demo_final :: esys where
  "demo_final = add_vote (put_site (demo_init\<lparr>etime := 100\<rparr>) 0x01000000 demo_elected) True
     (0x01000000, 0x01000000, 100)"

lemma demo_site_1:
  "demo_site 0x01000000 =
    \<lparr>ubik_host = [0x01000000], servers = [new_server 0x02000000 False], nServers = 2, amIMagic = True, amIClone = False,
      singleServer = False, ubik_quorum = 2, ubik_amSyncSite = False, syncSiteUntil = 0,
      syncSiteAdvertised = False, dbVersion = \<lparr>epoch = 0, counter = 0\<rparr>,
      dbTid = \<lparr>tepoch = 0, tcounter = 0\<rparr>, lastYesTime = 0, lastYesHost = 0xffffffff, lastYesClaim = 0,
      lastYesState = False, lowestTime = 0, lowestHost = 0xffffffff, syncTime = 0, syncHost = 0,
      urecovery_state = {}, epochTime = 0, db = undefined, currentTrans = None\<rparr>"
  by (simp add: demo_site_def ubeacon_InitServerListByInfo_def demo_cell_def blank_site_def uvote_Init_def
      find_me_def upt_rec set_magic_def ntohl_def Let_def)

lemma demo_quiet:
  "amSyncSite (demo_site 0x01000000) 100 = (False, demo_site 0x01000000)"
  "urecovery_ResetState (demo_site 0x01000000) = demo_site 0x01000000"
  "ubeacon_AmSyncSite (demo_site 0x01000000) 100 = (False, demo_site 0x01000000)"
  "uvote_ShouldIRun (demo_site 0x01000000) 100" "\<not> singleServer (demo_site 0x01000000)"
  by (simp_all add: demo_site_1 amSyncSite_def urecovery_ResetState_def ubeacon_AmSyncSite_def uvote_ShouldIRun_def)

definition demo_voted :: "ubik_version \<Rightarrow> ubik_tid \<Rightarrow> site" where
  "demo_voted v t = (demo_site 0x01000000)\<lparr>lowestTime := 100, lowestHost := 0x01000000, lastYesTime := 100,
     lastYesClaim := 100, lastYesHost := 0x01000000, dbVersion := v, dbTid := t\<rparr>"

lemma demo_vote: "SVOTE_Beacon (demo_site 0x01000000) 100 None False 100 v t = (100, UOK, demo_voted v t)"
  by (simp add: demo_voted_def demo_site_1 SVOTE_Beacon_def beacon_caller_def note_lowest_def note_sync_def
      fast_startup_def urecovery_CheckTid_def ntohl_def)

lemma demo_round: "\<exists>v t. demo_elected = beacon_decide (demo_voted v t) 100 100 0 MAXTIME"
  by (auto simp: demo_elected_def ubeacon_Interact_def beacon_round_def demo_quiet demo_vote)

lemma demo_elected: "evote demo_elected = (100, 0x01000000)" "fst (amSyncSite demo_elected 100)"
proof -
  obtain v t where e: "demo_elected = beacon_decide (demo_voted v t) 100 100 0 MAXTIME"
    using demo_round by blast
  show "evote demo_elected = (100, 0x01000000)" "fst (amSyncSite demo_elected 100)"
    unfolding e by (simp_all add: beacon_decide_def demo_voted_def demo_site_1 amSyncSite_def evote_def)
qed

lemma demo_hosts: "hosts demo_cell = {0x01000000, 0x02000000}" "card (voters demo_cell) = 2"
proof -
  have "voters demo_cell = {0x01000000, 0x02000000}" by (auto simp: voters_def demo_cell_def)
  then show "card (voters demo_cell) = 2" by simp
qed (simp add: hosts_def demo_cell_def)

lemma demo_reach: "ereach demo_cell (\<lambda>_. 0) demo_final"
proof -
  have "fresh_site demo_cell h 0 (demo_site h)" for h
    unfolding fresh_site_def demo_site_def
    by (rule exI[of _ "blank_site h undefined"]) (auto simp: blank_site_def prod_eq_iff)
  then have i: "ereach demo_cell (\<lambda>_. 0) demo_init"
    by (intro ereach.init) (simp add: einit_def demo_init_def)
  have t: "ereach demo_cell (\<lambda>_. 0) (demo_init\<lparr>etime := 100\<rparr>)"
    by (rule ereach.step[OF i estep.tick]) (simp add: demo_init_def)
  have "estep demo_cell (\<lambda>_. 0) (demo_init\<lparr>etime := 100\<rparr>) demo_final"
    using estep.run[where c = "0x01000000" and cfg = demo_cell and replies = "[]" and e = "demo_init\<lparr>etime := 100\<rparr>"
        and wakeup = 100 and start = 100 and skew = "\<lambda>_. 0"
        and code = "fst (ubeacon_Interact (demo_site 0x01000000) 100 100 [] 100)" and s' = demo_elected]
    by (simp add: demo_hosts demo_elected demo_init_def demo_elected_def[symmetric] demo_final_def prod_eq_iff)
  then show ?thesis by (rule ereach.step[OF t])
qed

theorem at_most_one_sync_site_witness:
  "ereach demo_cell (\<lambda>_. 0) demo_final \<and>
   {h \<in> hosts demo_cell. fst (amSyncSite (esite demo_final h) (clock (\<lambda>_. 0) demo_final h))} = {0x01000000}"
proof -
  have sync: "fst (amSyncSite (esite demo_final 0x01000000) (clock (\<lambda>_. 0) demo_final 0x01000000))"
    using demo_elected(2) by (simp add: demo_final_def demo_init_def)
  have "cell_ok demo_cell" by (simp add: cell_ok_def hosts_def demo_cell_def)
  note one = at_most_one_sync_site[OF demo_reach this]
  have "skew_ok demo_cell (\<lambda>_. 0)" by (simp add: skew_ok_def)
  note one = one[OF this, where a = "0x01000000" and b = "0x02000000"]
  have "\<not> fst (amSyncSite (esite demo_final 0x02000000) (clock (\<lambda>_. 0) demo_final 0x02000000))"
    using one sync by (auto simp: demo_hosts)
  then show ?thesis using sync demo_reach by (auto simp: demo_hosts)
qed

end
