(* ===== verification/Ubik_Trans.thy ===== *)
theory Ubik_Trans
  imports Ubik_Wal Ubik_Election
begin

text \<open>
  Transactions as the application sees them (\<^verbatim>\<open>src/src/ubik/ubik.c\<close>, \<^verbatim>\<open>BeginTrans\<close> to
  \<^verbatim>\<open>ubik_CheckCache\<close>), at the sync site: each call does its part locally and then at a
  quorum of the servers.

  A call that has to sleep returns \<open>UBLOCKED\<close>, with the thread counted among the waiters
  of the lock; what it does when it wakes up is the definition of the rest of the
  call.  \<open>now\<close> is what \<^verbatim>\<open>FT_ApproxTime\<close> returns during the call, and the callbacks of the
  application are parameters.
\<close>

section \<open>Steps of a call\<close>

text \<open>One step after another; a panic or a sleep ends the sequence.\<close>

definition andthen :: "('s \<Rightarrow> ucode \<times> 's) \<Rightarrow> (ucode \<Rightarrow> 's \<Rightarrow> ucode \<times> 's) \<Rightarrow> 's \<Rightarrow> ucode \<times> 's" where
  "andthen m k s = (let (code, s1) = m s in if code = UPANIC \<or> code = UBLOCKED then (code, s1) else k code s1)"

definition return :: "ucode \<Rightarrow> 's \<Rightarrow> ucode \<times> 's" where
  "return code s = (code, s)"

definition on_db :: "(ubik_dbase \<Rightarrow> ucode \<times> ubik_dbase) \<Rightarrow> site \<Rightarrow> ucode \<times> site" where
  "on_db f s = (let (code, d) = f (db s) in (code, s\<lparr>db := d\<rparr>))"

definition upd_tr :: "nat \<Rightarrow> (ubik_trans \<Rightarrow> ubik_trans) \<Rightarrow> site \<Rightarrow> site" where
  "upd_tr t f s = s\<lparr>db := upd_trans (db s) t f\<rparr>"

text \<open>The lock on the application's cache.\<close>

definition obtain_cache :: "how \<Rightarrow> site \<Rightarrow> ucode \<times> site" where
  "obtain_cache h s =
     (let l = cache_lock (db s) in
      if Obtain_free l h then (UOK, s\<lparr>db := (db s)\<lparr>cache_lock := Obtain_take l h\<rparr>\<rparr>)
      else (UBLOCKED, s\<lparr>db := (db s)\<lparr>cache_lock := Obtain_enter l h\<rparr>\<rparr>))"

definition release_cache :: "(lock \<Rightarrow> lock \<times> cv option) \<Rightarrow> site \<Rightarrow> site" where
  "release_cache rel s = s\<lparr>db := (db s)\<lparr>cache_lock := fst (rel (cache_lock (db s)))\<rparr>\<rparr>"

definition drop_cache_lock :: "nat \<Rightarrow> site \<Rightarrow> site" where
  "drop_cache_lock t s =
     (if trCacheLocked (tr (db s) t)
      then upd_tr t (\<lambda>tt. tt\<lparr>trCacheLocked := False\<rparr>) (release_cache ReleaseReadLock s) else s)"

definition set_cached :: "ubik_version \<Rightarrow> site \<Rightarrow> site" where
  "set_cached v s = s\<lparr>db := (db s)\<lparr>cachedVersion := v\<rparr>\<rparr>"

abbreviation no_version :: ubik_version where
  "no_version \<equiv> \<lparr>epoch = 0, counter = 0\<rparr>"

text \<open>\<^verbatim>\<open>udisk_abort\<close> and \<^verbatim>\<open>udisk_end\<close>: the code is that of the abort.\<close>

definition abort_end :: "nat \<Rightarrow> site \<Rightarrow> ucode \<times> site" where
  "abort_end t = andthen (on_db (\<lambda>d. udisk_abort d t)) (\<lambda>code. andthen (on_db (\<lambda>d. udisk_end d t)) (\<lambda>_. return code))"

text \<open>\<^verbatim>\<open>udisk_abort\<close> here and at the others.\<close>

definition abort_everywhere :: "replies \<Rightarrow> nat \<Rightarrow> ucode \<Rightarrow> site \<Rightarrow> ucode \<times> site" where
  "abort_everywhere rpc t code =
     andthen (on_db (\<lambda>d. udisk_abort d t))
       (\<lambda>_ s. (code, snd (ContactQuorum_NoArguments DISK_Abort rpc s t False False)))"

section \<open>Beginning\<close>

text \<open>After the wait for the current writer: still sync site, and known as such?\<close>

definition begin_label :: "site \<Rightarrow> nat \<Rightarrow> trtype \<Rightarrow> int \<Rightarrow> site" where
  "begin_label s t transMode readAny =
     (let c = int32 (tidCounter (db s) + 2);
          d = upd_trans (db s) t (\<lambda>tt. tt\<lparr>trReadAny := (trReadAny tt \<or> readAny \<noteq> 0),
                trReadWrite := (trReadWrite tt \<or> 1 < readAny),
                tid := \<lparr>tepoch = epochTime s, tcounter = c\<rparr>\<rparr>)
      in s\<lparr>db := d\<lparr>tidCounter := c,
             writeTidCounter := (if transMode = UBIK_WRITETRANS then c else writeTidCounter d)\<rparr>\<rparr>)"

definition BeginTrans_go :: "replies \<Rightarrow> site \<Rightarrow> int \<Rightarrow> trtype \<Rightarrow> int \<Rightarrow> ucode \<times> nat option \<times> site" where
  "BeginTrans_go rpc s now transMode readAny =
     (let (am, s1) = (if transMode = UBIK_WRITETRANS then ubeacon_AmSyncSite s now else (True, s)) in
      if \<not> am then (UERR UNOTSYNC, None, s1)
      else if transMode = UBIK_WRITETRANS \<and> \<not> ubeacon_SyncSiteAdvertised s1 then (UERR UNOQUORUM, None, s1)
      else case udisk_begin (db s1) transMode of
        (code, None, d) \<Rightarrow> (code, None, s1\<lparr>db := d\<rparr>)
      | (code, Some t, d) \<Rightarrow>
          if code \<noteq> UOK then (code, None, s1\<lparr>db := d\<rparr>)
          else let s2 = begin_label (s1\<lparr>db := d\<rparr>) t transMode readAny in
            if transMode \<noteq> UBIK_WRITETRANS then (UOK, Some t, s2)
            else let (code2, s3) = ContactQuorum_NoArguments DISK_Begin rpc s2 t False True in
              if code2 = UOK then (UOK, Some t, s3)
              else let (code3, s4) = andthen (abort_everywhere rpc t code2)
                         (\<lambda>_. andthen (on_db (\<lambda>d. udisk_end d t)) (\<lambda>_. return code2)) s3
                   in (code3, None, s4))"

definition BeginTrans ::
  "replies \<Rightarrow> bool \<Rightarrow> site \<Rightarrow> int \<Rightarrow> trtype \<Rightarrow> int \<Rightarrow> ucode \<times> nat option \<times> site" where
  "BeginTrans rpc hasSyncProc s now transMode readAny0 =
     (let readAny = (if 1 < readAny0 \<and> \<not> hasSyncProc then 1 else readAny0) in
      if transMode \<noteq> UBIK_READTRANS \<and> readAny \<noteq> 0 then (UERR UBADTYPE, None, s)
      else let (ok, s1) = urecovery_AllBetter s now (readAny \<noteq> 0) in
        if \<not> ok then (UERR UNOQUORUM, None, s1)
        else if transMode = UBIK_WRITETRANS \<and> dbWriting (db s1) then (UBLOCKED, None, s1)
        else BeginTrans_go rpc s1 now transMode readAny)"

definition ubik_BeginTrans :: "replies \<Rightarrow> bool \<Rightarrow> site \<Rightarrow> int \<Rightarrow> trtype \<Rightarrow> ucode \<times> nat option \<times> site" where
  "ubik_BeginTrans rpc hasSyncProc s now transMode = BeginTrans rpc hasSyncProc s now transMode 0"

definition ubik_BeginTransReadAny :: "replies \<Rightarrow> bool \<Rightarrow> site \<Rightarrow> int \<Rightarrow> trtype \<Rightarrow> ucode \<times> nat option \<times> site" where
  "ubik_BeginTransReadAny rpc hasSyncProc s now transMode = BeginTrans rpc hasSyncProc s now transMode 1"

definition ubik_BeginTransReadAnyWrite :: "replies \<Rightarrow> bool \<Rightarrow> site \<Rightarrow> int \<Rightarrow> trtype \<Rightarrow> ucode \<times> nat option \<times> site" where
  "ubik_BeginTransReadAnyWrite rpc hasSyncProc s now transMode = BeginTrans rpc hasSyncProc s now transMode 2"

section \<open>Aborting\<close>

definition AbortTrans_rest :: "replies \<Rightarrow> nat \<Rightarrow> int \<Rightarrow> site \<Rightarrow> ucode \<times> site" where
  "AbortTrans_rest rpc t now s =
     (let (ok, s1) = urecovery_AllBetter s now (trReadAny (tr (db s) t)) in
      if \<not> ok then andthen (abort_end t) (\<lambda>_. return (UERR UNOQUORUM)) s1
      else if ttype (tr (db s1) t) = UBIK_READTRANS then abort_end t s1
      else let (am, s2) = ubeacon_AmSyncSite s1 now in
        if \<not> am then andthen (abort_end t) (\<lambda>_. return (UERR UNOTSYNC)) s2
        else let (code, s3) = ContactQuorum_NoArguments DISK_Abort rpc s2 t False False
             in andthen (abort_end t) (\<lambda>code2. return (if code \<noteq> UOK then code else code2)) s3)"

definition ubik_AbortTrans :: "replies \<Rightarrow> nat \<Rightarrow> int \<Rightarrow> site \<Rightarrow> ucode \<times> site" where
  "ubik_AbortTrans rpc t now s =
     andthen (obtain_cache WriteHow)
       (\<lambda>_ s1. AbortTrans_rest rpc t now (release_cache ReleaseWriteLock (set_cached no_version s1)))
       (drop_cache_lock t s)"

section \<open>Reading and writing\<close>

definition ubik_Read :: "nat \<Rightarrow> int \<Rightarrow> int \<Rightarrow> site \<Rightarrow> ucode \<times> byte list \<times> site" where
  "ubik_Read t len now s =
     (let (ok, s1) = urecovery_AllBetter s now (trReadAny (tr (db s) t)) in
      if \<not> ok then (UERR UNOQUORUM, [], s1)
      else let (code, bs, d) = udisk_read (db s1) t (seekFile (tr (db s1) t)) (seekPos (tr (db s1) t)) len;
               s2 = s1\<lparr>db := d\<rparr>
           in (code, bs, if code = UOK then upd_tr t (\<lambda>tt. tt\<lparr>seekPos := seekPos tt + len\<rparr>) s2 else s2))"

text \<open>Both checks that precede a change of the database.\<close>

definition may_write :: "nat \<Rightarrow> int \<Rightarrow> site \<Rightarrow> ucode \<times> site" where
  "may_write t now s =
     (let (ok, s1) = urecovery_AllBetter s now (trReadAny (tr (db s) t)) in
      if \<not> ok then (UERR UNOQUORUM, s1)
      else let (am, s2) = ubeacon_AmSyncSite s1 now in if \<not> am then (UERR UNOTSYNC, s2) else (UOK, s2))"

definition clear_iovec :: "nat \<Rightarrow> site \<Rightarrow> site" where
  "clear_iovec t = upd_tr t (\<lambda>tt. tt\<lparr>iovec_info := [], iovec_data := []\<rparr>)"

definition ubik_Flush :: "replies \<Rightarrow> nat \<Rightarrow> int \<Rightarrow> site \<Rightarrow> ucode \<times> site" where
  "ubik_Flush rpc t now s =
     (let tt = tr (db s) t in
      if ttype tt \<noteq> UBIK_WRITETRANS then (UERR UBADTYPE, s)
      else if iovec_info tt = [] \<or> \<not> iovec_alloc tt then (UOK, s)
      else let (ok, s1) = may_write t now s in
        if ok \<noteq> UOK then (ok, s1)
        else let (code, s2) = ContactQuorum_DISK_WriteV rpc s1 t (iovec_info tt) (iovec_data tt) in
          if code \<noteq> UOK
          then andthen (abort_everywhere rpc t code) (\<lambda>_ s3. (code, clear_iovec t s3)) s2
          else (UOK, clear_iovec t s2))"

abbreviation IOVEC_MAXBUF :: nat where "IOVEC_MAXBUF \<equiv> 65536"
abbreviation IOVEC_MAXWRT :: nat where "IOVEC_MAXWRT \<equiv> 64"

text \<open>One piece of at most \<^verbatim>\<open>IOVEC_MAXBUF\<close> bytes; \<open>mem\<close>: does \<^verbatim>\<open>malloc\<close> find the memory?\<close>

definition write_flush :: "replies \<Rightarrow> nat \<Rightarrow> nat \<Rightarrow> int \<Rightarrow> site \<Rightarrow> ucode \<times> site" where
  "write_flush rpc t n now s =
     (let tt = tr (db s) t in
      if IOVEC_MAXWRT \<le> length (iovec_info tt) \<or> IOVEC_MAXBUF < n + length (iovec_data tt)
      then ubik_Flush rpc t now s else (UOK, s))"

definition write_local :: "nat \<Rightarrow> byte list \<Rightarrow> int \<Rightarrow> site \<Rightarrow> ucode \<times> site" where
  "write_local t buffer now s =
     (let (ok, s1) = may_write t now s in
      if ok \<noteq> UOK then (ok, s1)
      else let tt = tr (db s1) t in
        andthen (on_db (\<lambda>d. udisk_write d t (seekFile tt) buffer (seekPos tt)))
        (\<lambda>code s2. if code \<noteq> UOK
        then andthen (on_db (\<lambda>d. udisk_abort d t)) (\<lambda>_ s3. (code, clear_iovec t s3)) s2
        else (UOK, upd_tr t (\<lambda>tt. tt\<lparr>
               iovec_info := iovec_info tt @ [\<lparr>iofile = seekFile tt, ioposition = seekPos tt, iolength = int (length buffer)\<rparr>],
               iovec_data := iovec_data tt @ buffer, seekPos := seekPos tt + int (length buffer)\<rparr>) s2)) s1)"

definition ubik_Write1 :: "replies \<Rightarrow> bool \<Rightarrow> nat \<Rightarrow> byte list \<Rightarrow> int \<Rightarrow> site \<Rightarrow> ucode \<times> site" where
  "ubik_Write1 rpc mem t buffer now s =
     (let tt = tr (db s) t in
      if ttype tt \<noteq> UBIK_WRITETRANS then (UERR UBADTYPE, s)
      else if buffer = [] then (UOK, s)
      else if \<not> iovec_alloc tt \<and> \<not> mem then (UERR UNOMEM, s)
      else let s1 = (if iovec_alloc tt then s
             else upd_tr t (\<lambda>tt. tt\<lparr>iovec_alloc := True, iovec_info := [], iovec_data := []\<rparr>) s);
               (code, s2) = write_flush rpc t (length buffer) now s1
           in if code \<noteq> UOK then (code, s2) else write_local t buffer now s2)"

function ubik_Write :: "replies \<Rightarrow> bool \<Rightarrow> nat \<Rightarrow> byte list \<Rightarrow> int \<Rightarrow> site \<Rightarrow> ucode \<times> site" where
  "ubik_Write rpc mem t buffer now s =
     (if length buffer \<le> IOVEC_MAXBUF \<or> ttype (tr (db s) t) \<noteq> UBIK_WRITETRANS then ubik_Write1 rpc mem t buffer now s
      else let (code, s1) = ubik_Write1 rpc mem t (take IOVEC_MAXBUF buffer) now s
           in if code \<noteq> UOK then (code, s1) else ubik_Write rpc mem t (drop IOVEC_MAXBUF buffer) now s1)"
  by pat_completeness auto
termination
  by (relation "measure (\<lambda>(rpc, mem, t, buffer, now, s). length buffer)") auto

declare ubik_Write.simps [simp del]

definition ubik_Seek :: "nat \<Rightarrow> int \<Rightarrow> int \<Rightarrow> int \<Rightarrow> site \<Rightarrow> ucode \<times> site" where
  "ubik_Seek t fileid position now s =
     (let (ok, s1) = urecovery_AllBetter s now (trReadAny (tr (db s) t)) in
      if \<not> ok then (UERR UNOQUORUM, s1)
      else (UOK, upd_tr t (\<lambda>tt. tt\<lparr>seekFile := fileid, seekPos := position\<rparr>) s1))"

definition ubik_Tell :: "nat \<Rightarrow> site \<Rightarrow> ucode \<times> int \<times> int" where
  "ubik_Tell t s = (UOK, seekFile (tr (db s) t), seekPos (tr (db s) t))"

definition ubik_Truncate :: "replies \<Rightarrow> nat \<Rightarrow> int \<Rightarrow> int \<Rightarrow> site \<Rightarrow> ucode \<times> site" where
  "ubik_Truncate rpc t len now s =
     (let (code, s1) = ubik_Flush rpc t now s in
      if code \<noteq> UOK then (code, s1)
      else let (ok, s2) = may_write t now s1 in
        if ok \<noteq> UOK then (ok, s2)
        else let f = seekFile (tr (db s2) t) in
          andthen (on_db (\<lambda>d. udisk_truncate d t f len))
            (\<lambda>code1 s3. let (code2, s4) = (if code1 = UOK then ContactQuorum_DISK_Truncate rpc s3 t f len else (code1, s3))
                        in if code2 \<noteq> UOK then abort_everywhere rpc t code2 s4 else (UOK, s4)) s2)"

text \<open>The lock of the database, at the end of the transaction released.\<close>

definition get_lock :: "nat \<Rightarrow> locktype \<Rightarrow> site \<Rightarrow> ucode \<times> site" where
  "get_lock t atype s =
     (let (code, tt, l) = ulock_getLock (tr (db s) t) (rwlock (db s)) atype True
      in (code, s\<lparr>db := upd_trans ((db s)\<lparr>rwlock := l\<rparr>) t (\<lambda>_. tt)\<rparr>))"

definition SetLock_rest :: "replies \<Rightarrow> nat \<Rightarrow> ucode \<Rightarrow> site \<Rightarrow> ucode \<times> site" where
  "SetLock_rest rpc t code s =
     (let (code2, s1) = (if code = UOK then ContactQuorum_DISK_Lock rpc s t 0 1 1 LOCKWRITE else (code, s))
      in if code2 \<noteq> UOK then abort_everywhere rpc t code2 s1 else (UOK, s1))"

definition SetLock_write :: "replies \<Rightarrow> nat \<Rightarrow> locktype \<Rightarrow> int \<Rightarrow> site \<Rightarrow> ucode \<times> site" where
  "SetLock_write rpc t atype now s =
     (let (ok, s1) = may_write t now s in
      if ok \<noteq> UOK then (ok, s1)
      else andthen (get_lock t atype) (SetLock_rest rpc t) s1)"

definition ubik_SetLock :: "replies \<Rightarrow> nat \<Rightarrow> locktype \<Rightarrow> int \<Rightarrow> site \<Rightarrow> ucode \<times> site" where
  "ubik_SetLock rpc t atype now s =
     (if atype = LOCKWRITE \<and> ttype (tr (db s) t) = UBIK_READTRANS then (UERR UBADTYPE, s)
      else let (code, s1) = (if atype = LOCKWRITE then ubik_Flush rpc t now s else (UOK, s)) in
        if code \<noteq> UOK then (code, s1)
        else if atype = LOCKREAD then get_lock t atype s1 else SetLock_write rpc t atype now s1)"

section \<open>The application's cache\<close>

definition ubik_CacheUpdate :: "site \<Rightarrow> bool" where
  "ubik_CacheUpdate s \<longleftrightarrow> cachedVersion (db s) \<noteq> version (db s)"

definition CheckCache_refresh :: "(site \<Rightarrow> ucode \<times> site) \<Rightarrow> site \<Rightarrow> ucode \<times> site" where
  "CheckCache_refresh cbf s =
     (if \<not> ubik_CacheUpdate s then (UOK, s)
      else andthen (obtain_cache BoostedHow)
        (\<lambda>_ s1. let (ret, s2) = cbf s1 in (ret, if ret = UOK then set_cached (version (db s2)) s2 else s2)) s)"

definition ubik_CheckCache :: "(site \<Rightarrow> ucode \<times> site) \<Rightarrow> nat \<Rightarrow> site \<Rightarrow> ucode \<times> site" where
  "ubik_CheckCache cbf t =
     andthen (obtain_cache ReadHow)
       (\<lambda>_ s1. if \<not> ubik_CacheUpdate s1 then (UOK, upd_tr t (\<lambda>tt. tt\<lparr>trCacheLocked := True\<rparr>) s1)
         else andthen (obtain_cache SharedHow)
           (\<lambda>_. andthen (CheckCache_refresh cbf)
             (\<lambda>ret s2. let s3 = release_cache ReleaseSharedLock s2 in
                if ret \<noteq> UOK then (ret, s3)
                else andthen (obtain_cache ReadHow)
                  (\<lambda>_ s4. (UOK, upd_tr t (\<lambda>tt. tt\<lparr>trCacheLocked := True\<rparr>) s4)) s3))
           (release_cache ReleaseReadLock s1))"

text \<open>\<open>proc\<close> is the result of \<^verbatim>\<open>ubik_SyncWriterCacheProc\<close>, if there is one.\<close>

definition WritebackApplicationCache :: "ucode option \<Rightarrow> site \<Rightarrow> site" where
  "WritebackApplicationCache proc s =
     (if (case proc of None \<Rightarrow> True | Some code \<Rightarrow> code = UOK) then set_cached (version (db s)) s
      else set_cached no_version s)"

section \<open>Ending\<close>

text \<open>
  The wait of a commit: for servers that missed the update and may still serve old data.
  \<open>polls\<close> are the readings of the clock, one for each turn of the loop; the wait is over at
  the first at which no such server is left, or 10 \<^verbatim>\<open>BIGTIME\<close> after its start.
\<close>

definition pseudo_active :: "ubik_server list \<Rightarrow> int \<Rightarrow> bool" where
  "pseudo_active srvs now \<longleftrightarrow> (\<exists>ts \<in> set srvs. \<not> beaconSinceDown ts \<and> now \<le> lastBeaconSent ts + BIGTIME)"

fun commit_wait :: "ubik_server list \<Rightarrow> int \<Rightarrow> int list \<Rightarrow> bool" where
  "commit_wait srvs realStart [] = False"
| "commit_wait srvs realStart (now # polls) =
     (10 * BIGTIME < now - realStart \<or> \<not> pseudo_active srvs now \<or> commit_wait srvs realStart polls)"

definition end_success :: "bool \<Rightarrow> nat \<Rightarrow> site \<Rightarrow> ucode \<times> site" where
  "end_success cachelocked t =
     andthen (on_db (\<lambda>d. udisk_end d t))
       (\<lambda>_ s. (UOK, if cachelocked then release_cache ReleaseWriteLock s else s))"

definition end_error :: "bool \<Rightarrow> ucode \<Rightarrow> site \<Rightarrow> ucode \<times> site" where
  "end_error cachelocked code =
     andthen (if cachelocked then return UOK else obtain_cache WriteHow)
       (\<lambda>_ s. (code, release_cache ReleaseWriteLock (set_cached no_version s)))"

definition EndTrans_commit ::
  "replies \<Rightarrow> ucode option \<Rightarrow> nat \<Rightarrow> int \<Rightarrow> int list \<Rightarrow> site \<Rightarrow> ucode \<times> site" where
  "EndTrans_commit rpc proc t now polls =
     andthen (\<lambda>s. udisk_commit rpc s t now)
       (\<lambda>code s.
          let (code2, s2) =
            (if code = UOK
             then ContactQuorum_NoArguments DISK_Commit rpc
                    (release_cache ReleaseWriteLock (WritebackApplicationCache proc s)) t True False
             else (code, release_cache ReleaseWriteLock (set_cached no_version s)));
              s3 = snd (ContactQuorum_NoArguments DISK_ReleaseLocks rpc s2 t False False)
          in if code2 \<noteq> UOK
             then andthen (on_db (\<lambda>d. udisk_end d t)) (\<lambda>_. end_error False code2) s3
             else if \<not> commit_wait (servers s2) now polls then (UBLOCKED, s2)
             else end_success False t s3)"

definition EndTrans_held ::
  "replies \<Rightarrow> ucode option \<Rightarrow> nat \<Rightarrow> int \<Rightarrow> int list \<Rightarrow> site \<Rightarrow> ucode \<times> site" where
  "EndTrans_held rpc proc t now polls s =
     (let cachelocked = (ttype (tr (db s) t) \<noteq> UBIK_READTRANS);
          (ok, s1) = urecovery_AllBetter s now (trReadAny (tr (db s) t)) in
      if \<not> ok then andthen (abort_end t) (\<lambda>_. end_error cachelocked (UERR UNOQUORUM)) s1
      else if ttype (tr (db s1) t) = UBIK_READTRANS
      then andthen (\<lambda>s. udisk_commit rpc s t now)
             (\<lambda>code. if code = UOK then end_success cachelocked t
                else andthen (on_db (\<lambda>d. udisk_end d t)) (\<lambda>_. end_error cachelocked code)) s1
      else let (am, s2) = ubeacon_AmSyncSite s1 now in
        if \<not> am then andthen (abort_end t) (\<lambda>_. end_error cachelocked (UERR UNOTSYNC)) s2
        else EndTrans_commit rpc proc t now polls s2)"

definition ubik_EndTrans ::
  "replies \<Rightarrow> ucode option \<Rightarrow> nat \<Rightarrow> int \<Rightarrow> int list \<Rightarrow> site \<Rightarrow> ucode \<times> site" where
  "ubik_EndTrans rpc proc t now polls s =
     andthen (if ttype (tr (db s) t) = UBIK_WRITETRANS then ubik_Flush rpc t now else return UOK)
       (\<lambda>code s1. if code \<noteq> UOK then andthen (ubik_AbortTrans rpc t now) (\<lambda>_. return code) s1
         else andthen (if ttype (tr (db s1) t) \<noteq> UBIK_READTRANS then obtain_cache WriteHow else return UOK)
                (\<lambda>_. EndTrans_held rpc proc t now polls) (drop_cache_lock t s1)) s"

end
