(* ===== verification/Ubik_Trans_Proofs.thy ===== *)
theory Ubik_Trans_Proofs
  imports Ubik_Trans
begin

text \<open>
  What the calls of a transaction promise: what a successful end means, what a failing one
  leaves, how long it may take, and what is kept for the other servers meanwhile.
\<close>

section \<open>What the steps leave alone\<close>

lemma AmSyncSite_keeps [simp]:
  "db (snd (ubeacon_AmSyncSite s now)) = db s" "servers (snd (ubeacon_AmSyncSite s now)) = servers s"
  "ubik_quorum (snd (ubeacon_AmSyncSite s now)) = ubik_quorum s" "currentTrans (snd (ubeacon_AmSyncSite s now)) = currentTrans s"
  by (auto simp: ubeacon_AmSyncSite_def amSyncSite_def urecovery_ResetState_def Let_def)

lemma AmSyncSite_True: "ubeacon_AmSyncSite s now = (True, s') \<Longrightarrow> s' = s"
  by (auto simp: ubeacon_AmSyncSite_def amSyncSite_def Let_def split: if_splits)

lemma AmSyncSite_False: "ubeacon_AmSyncSite s now = (False, s1) \<Longrightarrow> \<not> fst (ubeacon_AmSyncSite s1 now)"
  by (auto simp: ubeacon_AmSyncSite_def amSyncSite_def urecovery_ResetState_def Let_def split: if_splits)

lemma AllBetter_AmSyncSite:
  assumes "urecovery_AllBetter s now a = (ok, s1)" and "ubeacon_AmSyncSite s1 now = (True, s2)"
  shows "s1 = s" and "s2 = s" and "ubeacon_AmSyncSite s now = (True, s)"
proof -
  have s2: "s2 = s1" using AmSyncSite_True[OF assms(2)] .
  obtain am sa where a: "ubeacon_AmSyncSite s now = (am, sa)" by fastforce
  have "s1 = s"
  proof (cases a)
    case True
    then show ?thesis using assms(1) by (simp add: urecovery_AllBetter_def)
  next
    case False
    then have "s1 = sa" using assms(1) a by (auto simp: urecovery_AllBetter_def split: if_splits)
    then have am using AmSyncSite_False[of s now sa] a assms(2) by auto
    then show ?thesis using AmSyncSite_True a \<open>s1 = sa\<close> by auto
  qed
  then show "s1 = s" "s2 = s" "ubeacon_AmSyncSite s now = (True, s)" using s2 assms(2) by auto
qed

lemma AllBetter_frame [simp]:
  "db (snd (urecovery_AllBetter s now a)) = db s" "servers (snd (urecovery_AllBetter s now a)) = servers s"
  "ubik_quorum (snd (urecovery_AllBetter s now a)) = ubik_quorum s"
  "currentTrans (snd (urecovery_AllBetter s now a)) = currentTrans s"
proof -
  obtain am s1 where a: "ubeacon_AmSyncSite s now = (am, s1)" by fastforce
  show "db (snd (urecovery_AllBetter s now a)) = db s" "servers (snd (urecovery_AllBetter s now a)) = servers s"
    "ubik_quorum (snd (urecovery_AllBetter s now a)) = ubik_quorum s"
    "currentTrans (snd (urecovery_AllBetter s now a)) = currentTrans s"
    using AmSyncSite_keeps[of s now] a by (auto simp: urecovery_AllBetter_def)
qed

lemma may_write_OK:
  assumes "may_write t now s = (UOK, s')"
  shows "s' = s" and "ubeacon_AmSyncSite s now = (True, s)"
proof -
  obtain ok s1 where a: "urecovery_AllBetter s now (trReadAny (tr (db s) t)) = (ok, s1)" by fastforce
  obtain am s2 where b: "ubeacon_AmSyncSite s1 now = (am, s2)" by fastforce
  have "am" "s' = s2" using assms a b by (auto simp: may_write_def split: if_splits)
  then show "s' = s" "ubeacon_AmSyncSite s now = (True, s)" using AllBetter_AmSyncSite[OF a, of s2] b by auto
qed

lemma may_write_frame:
  assumes "may_write t now s = (code, s')"
  shows "db s' = db s" and "code \<noteq> UPANIC" and "code \<noteq> UBLOCKED" and "currentTrans s' = currentTrans s"
proof -
  obtain ok s1 where a: "urecovery_AllBetter s now (trReadAny (tr (db s) t)) = (ok, s1)" by fastforce
  obtain am s2 where b: "ubeacon_AmSyncSite s1 now = (am, s2)" by fastforce
  show "db s' = db s" "code \<noteq> UPANIC" "code \<noteq> UBLOCKED" "currentTrans s' = currentTrans s"
    using assms a b AllBetter_frame[of s now "trReadAny (tr (db s) t)"] AmSyncSite_keeps[of s1 now]
    by (auto simp: may_write_def split: if_splits)
qed

text \<open>The servers that count, the size of a majority, and the state of recovery.\<close>

definition conf :: "site \<Rightarrow> bool list \<times> int \<times> recflag set" where
  "conf s = (map isClone (servers s), ubik_quorum s, urecovery_state s)"

lemma conf_db [simp]: "conf (s\<lparr>db := d\<rparr>) = conf s"
  by (simp add: conf_def)

lemma conf_upd_server: "(\<And>ts. isClone (f ts) = isClone ts) \<Longrightarrow> conf (upd_server s i f) = conf s"
  by (cases "i < length (servers s)")
    (simp_all add: conf_def upd_server_def map_update list_update_same_conv list_update_beyond)

lemma ContactQuorum_conf:
  assumes "ContactQuorum s stamp adv call = (code, s')"
  shows "conf s' = conf s" and "currentTrans s' = currentTrans s" and "db s' = db s"
proof -
  have "conf (fst (fold (ContactQuorum_iterate stamp adv call) xs acc)) = conf (fst acc) \<and>
      currentTrans (fst (fold (ContactQuorum_iterate stamp adv call) xs acc)) = currentTrans (fst acc) \<and>
      db (fst (fold (ContactQuorum_iterate stamp adv call) xs acc)) = db (fst acc)" for xs acc
  proof (induction xs arbitrary: acc)
    case (Cons x xs)
    have "conf (fst (ContactQuorum_iterate stamp adv call x acc)) = conf (fst acc)"
      "currentTrans (fst (ContactQuorum_iterate stamp adv call x acc)) = currentTrans (fst acc)"
      "db (fst (ContactQuorum_iterate stamp adv call x acc)) = db (fst acc)"
      by (cases acc; simp add: ContactQuorum_iterate_def Let_def conf_upd_server; simp add: upd_server_def)+
    then show ?case using Cons by simp
  qed simp
  from this[of "[0..<length (servers s)]" "(s, UOK, 0)"] assms
  show "conf s' = conf s" "currentTrans s' = currentTrans s" "db s' = db s"
    by (auto simp: ContactQuorum_def split: prod.splits)
qed

lemma ContactQuorum_OK:
  assumes "ContactQuorum s stamp adv call = (UOK, s')"
  shows "ubik_quorum s \<le> int (card {i. i < length (servers s) \<and> \<not> isClone (servers s ! i) \<and> call i = UOK}) + 1"
proof -
  have "ubik_quorum s \<le> int (card {i \<in> answered adv call (servers s). \<not> isClone (servers s ! i)}) + 1"
    using ContactQuorum_code[of s stamp adv call] assms by simp
  moreover have "card {i \<in> answered adv call (servers s). \<not> isClone (servers s ! i)} \<le>
      card {i. i < length (servers s) \<and> \<not> isClone (servers s ! i) \<and> call i = UOK}"
    by (rule card_mono) (auto simp: answered_def)
  ultimately show ?thesis by linarith
qed

lemma clones_count:
  assumes m: "map isClone (servers s) = map isClone (servers s')"
  shows "{i. i < length (servers s) \<and> \<not> isClone (servers s ! i) \<and> P i} =
    {i. i < length (servers s') \<and> \<not> isClone (servers s' ! i) \<and> P i}"
proof -
  have l: "length (servers s) = length (servers s')" using m map_eq_imp_length_eq by blast
  have "isClone (servers s ! i) = isClone (servers s' ! i)" if "i < length (servers s)" for i
    using arg_cong[OF m, of "\<lambda>xs. xs ! i"] that l by simp
  then show ?thesis using l by auto
qed

lemma conf_count:
  "conf s = conf s' \<Longrightarrow> {i. i < length (servers s) \<and> \<not> isClone (servers s ! i) \<and> P i} =
    {i. i < length (servers s') \<and> \<not> isClone (servers s' ! i) \<and> P i} \<and> ubik_quorum s = ubik_quorum s'"
  using clones_count[of s s' P] by (simp add: conf_def)

lemma on_db_db: "on_db f s = (code, s') \<Longrightarrow> f (db s) = (code, db s') \<and> conf s' = conf s"
  by (auto simp: on_db_def split: prod.splits)

lemma andthen_cases:
  assumes "andthen m k s = (code, s')"
  obtains c s1 where "m s = (c, s1)" and "c = UPANIC \<or> c = UBLOCKED" and "code = c" and "s' = s1"
  | c s1 where "m s = (c, s1)" and "c \<noteq> UPANIC" and "c \<noteq> UBLOCKED" and "k c s1 = (code, s')"
  using assms by (cases "m s") (auto simp: andthen_def split: if_splits)

lemma andthen_OK:
  assumes "andthen m k s = (UOK, s')"
  obtains c s1 where "m s = (c, s1)" and "c \<noteq> UPANIC" and "c \<noteq> UBLOCKED" and "k c s1 = (UOK, s')"
  using assms by (rule andthen_cases) auto

text \<open>What identifies a transaction and its database's version.\<close>

definition txn :: "nat \<Rightarrow> site \<Rightarrow> trtype \<times> ubik_tid \<times> ubik_version" where
  "txn t s = (ttype (tr (db s) t), tid (tr (db s) t), version (db s))"

lemma txn_upd_tr: "(\<And>tt. ttype (f tt) = ttype tt \<and> tid (f tt) = tid tt) \<Longrightarrow> txn t (upd_tr t f s) = txn t s \<and> conf (upd_tr t f s) = conf s"
  by (simp add: txn_def upd_tr_def upd_trans_def)

lemma flush_OK:
  assumes "ubik_Flush rpc t now s = (UOK, s')"
  shows "txn t s' = txn t s \<and> conf s' = conf s"
proof -
  obtain ok s1 where m: "may_write t now s = (ok, s1)" by fastforce
  let ?tt = "tr (db s) t"
  obtain code s2 where c: "ContactQuorum_DISK_WriteV rpc s1 t (iovec_info ?tt) (iovec_data ?tt) = (code, s2)" by fastforce
  have "s' = s \<or> ok = UOK \<and> s' = clear_iovec t s2"
    using assms m c by (auto simp: ubik_Flush_def Let_def split: if_splits elim!: andthen_OK)
  moreover have "txn t (clear_iovec t s2) = txn t s2 \<and> conf (clear_iovec t s2) = conf s2"
    unfolding clear_iovec_def by (rule txn_upd_tr) simp
  moreover have "ok = UOK \<Longrightarrow> conf s2 = conf s \<and> db s2 = db s"
    using ContactQuorum_conf(1,3) c may_write_OK(1) m unfolding ContactQuorum_DISK_WriteV_def by metis
  ultimately show ?thesis by (auto simp: txn_def)
qed

lemma drop_cache_txn: "txn t (drop_cache_lock t s) = txn t s \<and> conf (drop_cache_lock t s) = conf s"
  by (simp add: drop_cache_lock_def upd_tr_def upd_trans_def release_cache_def txn_def)

lemma obtain_cache_txn: "obtain_cache h s = (c, s') \<Longrightarrow> txn t s' = txn t s \<and> conf s' = conf s"
  by (auto simp: obtain_cache_def Let_def txn_def split: if_splits)

lemma end_error_code: "andthen m (\<lambda>_. end_error cl code) x = (UOK, y) \<Longrightarrow> code = UOK"
  by (auto simp: end_error_def return_def elim!: andthen_OK)

lemma WritebackApplicationCache_txn:
  "txn t (release_cache rel (WritebackApplicationCache proc s)) = txn t s \<and>
   conf (release_cache rel (WritebackApplicationCache proc s)) = conf s"
  by (simp add: release_cache_def WritebackApplicationCache_def set_cached_def txn_def)

lemma upd_trans_txn: "txn t (s\<lparr>db := upd_trans (db s) t (\<lambda>tt. tt\<lparr>trDone := True\<rparr>)\<rparr>) = txn t s"
  by (simp add: txn_def upd_trans_def)

lemma commit_local_version:
  assumes "commit_local d t = (UOK, d')"
  shows "version d' = next_version d \<and> tid (tr d' t) = tid (tr d t)"
  using assms
  by (auto simp: commit_local_def DoTruncs_def next_version_def upd_trans_def Let_def split: if_splits prod.splits)

lemma commit_label_OK:
  assumes "commit_label rpc s t now = (UOK, s')"
  shows "map isClone (servers s') = map isClone (servers s) \<and> ubik_quorum s' = ubik_quorum s \<and> transes (db s') = transes (db s)"
    and "RECLABELDB \<in> urecovery_state s \<Longrightarrow> fst (ubeacon_AmSyncSite s now) \<Longrightarrow> s' = s"
proof -
  obtain am s1 where a: "ubeacon_AmSyncSite s now = (am, s1)" by fastforce
  note A = AmSyncSite_keeps[of s now, unfolded a snd_conv]
  obtain c p where l: "uphys_setlabel (dphys (db s1)) 0 \<lparr>epoch = epochTime s1, counter = 1\<rparr> = (c, p)" by fastforce
  define s3 where "s3 = s1\<lparr>db := (db s1)\<lparr>dphys := p, version := \<lparr>epoch = epochTime s1, counter = 1\<rparr>\<rparr>,
    urecovery_state := insert RECLABELDB (urecovery_state s1)\<rparr>"
  obtain c4 s4 where q: "ContactQuorum_DISK_SetVersion rpc s3 t True (version (db s1)) \<lparr>epoch = epochTime s1, counter = 1\<rparr> = (c4, s4)"
    by fastforce
  have "s' = s1 \<or> s' = s4"
    using assms a l q by (auto simp: commit_label_def s3_def Let_def split: if_splits)
  moreover have "conf s4 = conf s3" "db s4 = db s3" using ContactQuorum_conf q unfolding ContactQuorum_DISK_SetVersion_def by metis+
  ultimately show "map isClone (servers s') = map isClone (servers s) \<and> ubik_quorum s' = ubik_quorum s \<and> transes (db s') = transes (db s)"
    using A by (auto simp: conf_def s3_def)
  show "s' = s" if "RECLABELDB \<in> urecovery_state s" "fst (ubeacon_AmSyncSite s now)"
    using assms a AmSyncSite_True[of s now s1] that by (auto simp: commit_label_def)
qed

lemma udisk_commit_OK:
  assumes c: "udisk_commit rpc s t now = (UOK, s')" and w: "ttype (tr (db s) t) = UBIK_WRITETRANS"
  shows "map isClone (servers s') = map isClone (servers s) \<and> ubik_quorum s' = ubik_quorum s \<and> tid (tr (db s') t) = tid (tr (db s) t)"
    and "RECLABELDB \<in> urecovery_state s \<Longrightarrow> fst (ubeacon_AmSyncSite s now) \<Longrightarrow> version (db s') = next_version (db s)"
proof -
  obtain c1 s1 where l: "commit_label rpc s t now = (c1, s1)" by fastforce
  obtain c2 d2 where cl: "commit_local (db s1) t = (c2, d2)" by fastforce
  have c12: "c1 = UOK" "c2 = UOK" and s': "s' = s1\<lparr>db := upd_trans d2 t (\<lambda>tt. tt\<lparr>trDone := True\<rparr>)\<rparr>"
    using c w l cl by (auto simp: udisk_commit_def Let_def split: if_splits)
  note L = commit_label_OK[OF l[unfolded c12(1)]] and C = commit_local_version[OF cl[unfolded c12(2)]]
  show "map isClone (servers s') = map isClone (servers s) \<and> ubik_quorum s' = ubik_quorum s \<and> tid (tr (db s') t) = tid (tr (db s) t)"
    using L(1) C s' by (simp add: upd_trans_def)
  show "version (db s') = next_version (db s)" if "RECLABELDB \<in> urecovery_state s" "fst (ubeacon_AmSyncSite s now)"
    using L(2)[OF that] C s' by (simp add: upd_trans_def)
qed

lemma udisk_end_version: "udisk_end d t = (UOK, d') \<Longrightarrow> version d' = version d"
proof -
  assume e: "udisk_end d t = (UOK, d')"
  obtain c1 d1 where a: "udisk_abort d t = (c1, d1)" by fastforce
  have "version d1 = version d" using a by (auto simp: udisk_abort_def upd_trans_def Let_def split: if_splits prod.splits)
  then show ?thesis using e a by (auto simp: udisk_end_def unthread_def upd_trans_def Let_def split: if_splits prod.splits)
qed

lemma EndTrans_commit_OK:
  assumes e: "EndTrans_commit rpc proc t now polls s = (UOK, s')" and w: "ttype (tr (db s) t) = UBIK_WRITETRANS"
  shows "ubik_quorum s \<le> int (card {i. i < length (servers s) \<and> \<not> isClone (servers s ! i) \<and>
      rpc (DISK_Commit (tid (tr (db s) t))) i = UOK}) + 1"
    and "RECLABELDB \<in> urecovery_state s \<Longrightarrow> fst (ubeacon_AmSyncSite s now) \<Longrightarrow> version (db s') = next_version (db s)"
proof -
  let ?w = "\<lambda>s. release_cache ReleaseWriteLock (WritebackApplicationCache proc s)"
  obtain code s2 where c: "udisk_commit rpc s t now = (code, s2)" by fastforce
  obtain code3 s3 where q: "ContactQuorum_NoArguments DISK_Commit rpc (?w s2) t True False = (code3, s3)" by fastforce
  obtain code4 s4 where q4: "ContactQuorum_NoArguments DISK_ReleaseLocks rpc s3 t False False = (code4, s4)" by fastforce
  define body where "body = (\<lambda>code2 s2. let s3 = snd (ContactQuorum_NoArguments DISK_ReleaseLocks rpc s2 t False False) in
    if code2 \<noteq> UOK then andthen (on_db (\<lambda>d. udisk_end d t)) (\<lambda>_. end_error False code2) s3
    else if \<not> commit_wait (servers s2) now polls then (UBLOCKED, s2) else end_success False t s3)"
  have b: "(if code = UOK then body code3 s3 else body code (release_cache ReleaseWriteLock (set_cached no_version s2))) = (UOK, s')"
    using e c q unfolding EndTrans_commit_def body_def andthen_def[of "\<lambda>s. udisk_commit rpc s t now"]
    by (auto simp: Let_def split: if_splits)
  have bd: "body c x = (UOK, y) \<Longrightarrow> c = UOK \<and>
      end_success False t (snd (ContactQuorum_NoArguments DISK_ReleaseLocks rpc x t False False)) = (UOK, y)" for c x y
    by (auto simp: body_def Let_def split: if_splits dest: end_error_code)
  have ok: "code = UOK" "code3 = UOK" and es: "end_success False t s4 = (UOK, s')"
    using b bd[of code3 s3 s'] bd[of code _ s'] q4 by (auto split: if_splits)
  note C = udisk_commit_OK[OF c[unfolded ok(1)] w]
  have "{i. i < length (servers (?w s2)) \<and> \<not> isClone (servers (?w s2) ! i) \<and> P i} =
      {i. i < length (servers s) \<and> \<not> isClone (servers s ! i) \<and> P i}" "ubik_quorum (?w s2) = ubik_quorum s"
    "tid (tr (db (?w s2)) t) = tid (tr (db s) t)" for P
    using WritebackApplicationCache_txn[of t ReleaseWriteLock proc s2] C(1)
      clones_count[of "?w s2" s P] by (auto simp: conf_def txn_def)
  then show "ubik_quorum s \<le> int (card {i. i < length (servers s) \<and> \<not> isClone (servers s ! i) \<and>
      rpc (DISK_Commit (tid (tr (db s) t))) i = UOK}) + 1"
    using ContactQuorum_OK[of "?w s2" True False "rpc (DISK_Commit (tid (tr (db s) t)))" s3] q ok(2)
    by (simp add: ContactQuorum_NoArguments_def)
  obtain c5 s5 where e5: "udisk_end (db s4) t = (c5, db s5)" "on_db (\<lambda>d. udisk_end d t) s4 = (c5, s5)" "s' = s5" "c5 \<noteq> UPANIC" "c5 \<noteq> UBLOCKED"
    using es on_db_db[of "\<lambda>d. udisk_end d t" s4] by (auto simp: end_success_def elim!: andthen_OK)
  have "c5 = UOK" using e5(1,4) by (auto simp: udisk_end_def Let_def split: if_splits prod.splits)
  then have "version (db s') = version (db s4)" using udisk_end_version e5(1,3) by simp
  also have "\<dots> = version (db s2)"
    using ContactQuorum_conf(3) q q4 WritebackApplicationCache_txn[of t ReleaseWriteLock proc s2]
    unfolding ContactQuorum_NoArguments_def by (metis Pair_inject txn_def)
  finally show "version (db s') = next_version (db s)" if "RECLABELDB \<in> urecovery_state s" "fst (ubeacon_AmSyncSite s now)"
    using C(2)[OF that] by simp
qed


section \<open>The wait of a commit\<close>

lemma commit_wait_iff:
  "commit_wait srvs start polls \<longleftrightarrow> (\<exists>now \<in> set polls. 10 * BIGTIME < now - start \<or> \<not> pseudo_active srvs now)"
  by (induction polls) auto


section \<open>The application's cache\<close>

definition cache_fresh :: "site \<Rightarrow> bool" where
  "cache_fresh s \<longleftrightarrow> cachedVersion (db s) = version (db s)"

lemma cache_fresh_locks:
  "cache_fresh (release_cache rel s) = cache_fresh s" "cache_fresh (upd_tr t f s) = cache_fresh s"
  "obtain_cache h s = (c, s') \<Longrightarrow> cache_fresh s' = cache_fresh s"
  by (auto simp: cache_fresh_def release_cache_def upd_tr_def upd_trans_def obtain_cache_def Let_def split: if_splits)

lemma refresh_fresh: "CheckCache_refresh cbf s = (UOK, s') \<Longrightarrow> cache_fresh s'"
  by (auto simp: CheckCache_refresh_def ubik_CacheUpdate_def cache_fresh_def set_cached_def Let_def
      split: if_splits prod.splits elim!: andthen_OK)


section \<open>The writes collected for the other servers\<close>

text \<open>What the wire format of \<^verbatim>\<open>DISK_WriteV\<close> asks of them: the lengths add up, and both arrays fit.\<close>

definition iovec_ok :: "ubik_trans \<Rightarrow> bool" where
  "iovec_ok tt \<longleftrightarrow> length (iovec_info tt) \<le> IOVEC_MAXWRT \<and> length (iovec_data tt) \<le> IOVEC_MAXBUF \<and>
     (\<forall>v \<in> set (iovec_info tt). 0 < iolength v) \<and> sum_list (map iolength (iovec_info tt)) = int (length (iovec_data tt))"

lemma iovec_ok_clear [simp]: "iovec_ok (tt\<lparr>iovec_info := [], iovec_data := []\<rparr>)"
  by (simp add: iovec_ok_def)

lemma iovec_ok_empty: "iovec_ok tt \<Longrightarrow> iovec_info tt = [] \<Longrightarrow> iovec_data tt = []"
  by (simp add: iovec_ok_def)

lemma tr_upd_tr [simp]: "tr (db (upd_tr t f s)) t = f (tr (db s) t)"
  by (simp add: upd_tr_def upd_trans_def)

lemma tr_clear_iovec [simp]: "tr (db (clear_iovec t s)) t = (tr (db s) t)\<lparr>iovec_info := [], iovec_data := []\<rparr>"
  by (simp add: clear_iovec_def)

lemma udisk_write_iovec:
  assumes "udisk_write d t f bs pos = (code, d')"
  shows "iovec_info (tr d' t) = iovec_info (tr d t) \<and> iovec_data (tr d' t) = iovec_data (tr d t) \<and>
    seekFile (tr d' t) = seekFile (tr d t) \<and> seekPos (tr d' t) = seekPos (tr d t) \<and> iovec_alloc (tr d' t) = iovec_alloc (tr d t)"
  using assms by (auto simp: udisk_write_def upd_trans_def set_trunc_def Let_def split: if_splits prod.splits option.splits)

lemma flush_iovec:
  assumes "ubik_Flush rpc t now s = (code, s')" and "iovec_ok (tr (db s) t)" and "code \<noteq> UPANIC" and "code \<noteq> UBLOCKED"
  shows "iovec_ok (tr (db s') t)"
    and "code = UOK \<Longrightarrow> iovec_alloc (tr (db s) t) \<Longrightarrow> iovec_info (tr (db s') t) = [] \<and> iovec_data (tr (db s') t) = []"
proof -
  obtain ok s1 where m: "may_write t now s = (ok, s1)" by fastforce
  let ?tt = "tr (db s) t"
  obtain c s2 where q: "ContactQuorum_DISK_WriteV rpc s1 t (iovec_info ?tt) (iovec_data ?tt) = (c, s2)" by fastforce
  have d1: "db s1 = db s" using may_write_frame(1)[OF m] .
  consider "s' = s" "code = UOK \<Longrightarrow> iovec_info ?tt = [] \<or> \<not> iovec_alloc ?tt" | "s' = s1" "code \<noteq> UOK" | x where "s' = clear_iovec t x"
    using assms(1,3,4) m q by (auto simp: ubik_Flush_def Let_def split: if_splits elim!: andthen_cases)
  then show "iovec_ok (tr (db s') t)"
    "code = UOK \<Longrightarrow> iovec_alloc (tr (db s) t) \<Longrightarrow> iovec_info (tr (db s') t) = [] \<and> iovec_data (tr (db s') t) = []"
    using assms(2) d1 iovec_ok_empty[OF assms(2)] by (cases; auto)+
qed

lemma write_flush_iovec:
  assumes "write_flush rpc t n now s = (code, s')" and "iovec_ok (tr (db s) t)" and "code \<noteq> UPANIC" and "code \<noteq> UBLOCKED"
    and "n \<le> IOVEC_MAXBUF" and "iovec_alloc (tr (db s) t)"
  shows "iovec_ok (tr (db s') t)"
    and "code = UOK \<Longrightarrow> length (iovec_info (tr (db s') t)) < IOVEC_MAXWRT \<and> n + length (iovec_data (tr (db s') t)) \<le> IOVEC_MAXBUF"
  using assms flush_iovec[of rpc t now s code s'] by (auto simp: write_flush_def Let_def split: if_splits)

lemma write_local_iovec:
  assumes "write_local t buf now s = (code, s')" and "iovec_ok (tr (db s) t)" and "code \<noteq> UPANIC" and "code \<noteq> UBLOCKED"
    and "length (iovec_info (tr (db s) t)) < IOVEC_MAXWRT" and "length buf + length (iovec_data (tr (db s) t)) \<le> IOVEC_MAXBUF"
    and "buf \<noteq> []"
  shows "iovec_ok (tr (db s') t)"
proof -
  obtain ok s1 where m: "may_write t now s = (ok, s1)" by fastforce
  have d1: "db s1 = db s" using may_write_frame(1)[OF m] .
  show ?thesis
  proof (cases "ok = UOK")
    case False
    then show ?thesis using assms(1,2) m d1 by (simp add: write_local_def)
  next
    case True
    let ?tt = "tr (db s1) t"
    obtain c d where u: "udisk_write (db s1) t (seekFile ?tt) buf (seekPos ?tt) = (c, d)" by fastforce
    note U = udisk_write_iovec[OF u]
    have "(\<exists>x. s' = clear_iovec t x) \<or> (c = UOK \<and> s' = upd_tr t (\<lambda>tt. tt\<lparr>
        iovec_info := iovec_info tt @ [\<lparr>iofile = seekFile tt, ioposition = seekPos tt, iolength = int (length buf)\<rparr>],
        iovec_data := iovec_data tt @ buf, seekPos := seekPos tt + int (length buf)\<rparr>) (s1\<lparr>db := d\<rparr>))"
      using assms(1,3,4) m True u by (auto simp: write_local_def Let_def on_db_def split: if_splits elim!: andthen_cases)
    then show ?thesis using U assms(2,5-7) d1 by (auto simp: iovec_ok_def simp flip: of_nat_add)
  qed
qed

lemma ubik_Write1_iovec:
  assumes "ubik_Write1 rpc mem t buf now s = (code, s')" and "iovec_ok (tr (db s) t)" and "code \<noteq> UPANIC" and "code \<noteq> UBLOCKED"
    and "length buf \<le> IOVEC_MAXBUF"
  shows "iovec_ok (tr (db s') t)"
proof -
  let ?tt = "tr (db s) t"
  define s1 where "s1 = (if iovec_alloc ?tt then s else upd_tr t (\<lambda>tt. tt\<lparr>iovec_alloc := True, iovec_info := [], iovec_data := []\<rparr>) s)"
  have s1: "iovec_ok (tr (db s1) t)" "iovec_alloc (tr (db s1) t)" using assms(2) by (auto simp: s1_def iovec_ok_def)
  obtain c s2 where w: "write_flush rpc t (length buf) now s1 = (c, s2)" by fastforce
  consider "s' = s" | "buf \<noteq> []" "(if c \<noteq> UOK then (c, s2) else write_local t buf now s2) = (code, s')"
    using assms(1) w by (auto simp: ubik_Write1_def Let_def s1_def split: if_splits)
  then show ?thesis
  proof cases
    case 2
    show ?thesis
    proof (cases "c = UOK")
      case True
      note W = write_flush_iovec[OF w s1(1) _ _ assms(5) s1(2)]
      show ?thesis using write_local_iovec[of t buf now s2 code s'] 2 True W assms(3,4) by auto
    next
      case False
      then show ?thesis using write_flush_iovec(1)[OF w s1(1) _ _ assms(5) s1(2)] 2 assms(3,4) by auto
    qed
  qed (use assms(2) in simp)
qed

text \<open>
  C23: however many bytes the application writes, and whatever fails on the way, the writes
  collected for the other servers stay within the 64 vectors and 65536 bytes that
  \<^verbatim>\<open>DISK_WriteV\<close> can carry, each vector has a positive length, and the lengths add up to the bytes.
\<close>

theorem ubik_Write_fits:
  assumes "ubik_Write rpc mem t buffer now s = (code, s')" and "iovec_ok (tr (db s) t)" and "code \<notin> {UPANIC, UBLOCKED}"
  shows "iovec_ok (tr (db s') t)"
  using assms
proof (induction rpc mem t buffer now s rule: ubik_Write.induct)
  case (1 rpc mem t buffer now s)
  show ?case
  proof (cases "length buffer \<le> IOVEC_MAXBUF")
    case True
    then show ?thesis using 1(2-4) ubik_Write1_iovec by (subst (asm) ubik_Write.simps) auto
  next
    case False
    show ?thesis
    proof (cases "ttype (tr (db s) t) = UBIK_WRITETRANS")
      case bad: False
      then have "s' = s" using 1(2) by (subst (asm) ubik_Write.simps) (simp add: ubik_Write1_def)
      then show ?thesis using 1(3) by simp
    next
      case ty: True
      obtain c s1 where w: "ubik_Write1 rpc mem t (take IOVEC_MAXBUF buffer) now s = (c, s1)" by fastforce
      have e: "(if c \<noteq> UOK then (c, s1) else ubik_Write rpc mem t (drop IOVEC_MAXBUF buffer) now s1) = (code, s')"
        using 1(2) False ty w by (subst (asm) ubik_Write.simps) simp
      then show ?thesis
        using 1(1)[of "(c, s1)" c s1] ubik_Write1_iovec[OF w 1(3)] 1(3,4) False ty w by (auto split: if_splits)
    qed
  qed
qed

section \<open>Failing ends\<close>

lemma abort_cached: "udisk_abort d t = (c, d') \<Longrightarrow> cachedVersion d' = cachedVersion d"
  by (auto simp: udisk_abort_def upd_trans_def Let_def split: if_splits prod.splits)

lemma end_cached: "udisk_end d t = (c, d') \<Longrightarrow> cachedVersion d' = cachedVersion d"
proof -
  assume e: "udisk_end d t = (c, d')"
  obtain c1 d1 where a: "udisk_abort d t = (c1, d1)" by fastforce
  show ?thesis
    using e a abort_cached[OF a] by (auto simp: udisk_end_def unthread_def upd_trans_def Let_def split: if_splits prod.splits)
qed

lemma abort_end_cached: "abort_end t s = (c, s') \<Longrightarrow> cachedVersion (db s') = cachedVersion (db s)"
  using abort_cached end_cached by (auto simp: abort_end_def return_def elim!: andthen_cases dest!: on_db_db)

lemma AbortTrans_forgets:
  assumes "ubik_AbortTrans rpc t now s = (code, s')" and "code \<noteq> UPANIC" and "code \<noteq> UBLOCKED"
  shows "cachedVersion (db s') = no_version"
proof -
  obtain c s1 where rest: "AbortTrans_rest rpc t now (release_cache ReleaseWriteLock (set_cached no_version s1)) = (code, s')"
    using assms by (auto simp: ubik_AbortTrans_def elim!: andthen_cases)
  define s0 where "s0 = release_cache ReleaseWriteLock (set_cached no_version s1)"
  have z: "cachedVersion (db s0) = no_version" by (simp add: s0_def release_cache_def set_cached_def)
  obtain ok s2 where ab: "urecovery_AllBetter s0 now (trReadAny (tr (db s0) t)) = (ok, s2)" by fastforce
  obtain am s3 where am: "ubeacon_AmSyncSite s2 now = (am, s3)" by fastforce
  obtain c4 s4 where q: "ContactQuorum_NoArguments DISK_Abort rpc s3 t False False = (c4, s4)" by fastforce
  have d: "db s2 = db s0" "db s3 = db s0" "db s4 = db s0"
    using AllBetter_frame(1)[of s0 now "trReadAny (tr (db s0) t)"] ab AmSyncSite_keeps(1)[of s2 now] am
      ContactQuorum_conf(3) q by (auto simp: ContactQuorum_NoArguments_def)
  have "\<exists>x c. x \<in> {s2, s3, s4} \<and> abort_end t x = (c, s')"
    using rest ab am q unfolding s0_def[symmetric] AbortTrans_rest_def return_def
    by (auto split: if_splits elim!: andthen_cases)
  then show ?thesis using abort_end_cached d z by auto
qed

lemma end_error_forgets:
  assumes "andthen m (\<lambda>_. end_error cl code) s = (UERR e, s')"
  shows "cachedVersion (db s') = no_version"
  using assms by (auto simp: end_error_def release_cache_def set_cached_def return_def elim!: andthen_cases)

lemma EndTrans_commit_forgets:
  assumes "EndTrans_commit rpc proc t now polls s = (UERR e, s')"
  shows "cachedVersion (db s') = no_version"
proof -
  have "end_success cl t x \<noteq> (UERR e, y)" for cl x y by (auto simp: end_success_def elim!: andthen_cases)
  then obtain m c x where "andthen m (\<lambda>_. end_error False c) x = (UERR e, s')"
    using assms unfolding EndTrans_commit_def andthen_def[of "\<lambda>s. udisk_commit rpc s t now"]
    by (auto simp: Let_def split: if_splits prod.splits)
  then show ?thesis by (rule end_error_forgets)
qed

lemma EndTrans_held_forgets:
  assumes "EndTrans_held rpc proc t now polls s = (UERR e, s')"
  shows "cachedVersion (db s') = no_version"
proof -
  have es: "end_success cl t x \<noteq> (UERR e, y)" for cl x y by (auto simp: end_success_def elim!: andthen_cases)
  have rd: "\<exists>x c. andthen (on_db (\<lambda>d. udisk_end d t)) (\<lambda>_. end_error cl c) x = (UERR e, s')"
    if "andthen (\<lambda>s. udisk_commit rpc s t now) (\<lambda>code. if code = UOK then end_success cl t
      else andthen (on_db (\<lambda>d. udisk_end d t)) (\<lambda>_. end_error cl code)) y = (UERR e, s')" for cl y
    using that es unfolding andthen_def[of "\<lambda>s. udisk_commit rpc s t now"] by (auto split: if_splits prod.splits)
  consider m cl c x where "andthen m (\<lambda>_. end_error cl c) x = (UERR e, s')"
    | x where "EndTrans_commit rpc proc t now polls x = (UERR e, s')"
    using assms unfolding EndTrans_held_def by (auto simp: Let_def split: if_splits prod.splits dest!: rd)
  then show ?thesis using end_error_forgets EndTrans_commit_forgets by cases blast+
qed

text \<open>
  C26: when \<^verbatim>\<open>ubik_EndTrans\<close> reports an error, on whichever of its paths, the version of the
  application's cache is reset, so that the next transaction reads the cache anew and no
  change of the failed one stays visible.
\<close>

theorem EndTrans_error_forgets:
  assumes "ubik_EndTrans rpc proc t now polls s = (UERR e, s')"
  shows "cachedVersion (db s') = no_version"
proof -
  consider c x where "ubik_AbortTrans rpc t now x = (c, s')" "c \<noteq> UPANIC" "c \<noteq> UBLOCKED"
    | x where "EndTrans_held rpc proc t now polls x = (UERR e, s')"
    using assms unfolding ubik_EndTrans_def return_def by (auto split: if_splits elim!: andthen_cases)
  then show ?thesis using AbortTrans_forgets EndTrans_held_forgets by cases blast+
qed

section \<open>A small site\<close>

text \<open>A sync site with one other server, which is up and current, in a write transaction.\<close>

definition small_server :: ubik_server where
  "small_server = \<lparr>addr = [0x02000000], lastVoteTime = 100, lastBeaconSent = 100, sversion = \<lparr>epoch = 5, counter = 7\<rparr>,
     lastVote = True, up = True, beaconSinceDown = True, currentDB = True, magic = False, isClone = False\<rparr>"

definition small_site :: "ubik_dbase \<Rightarrow> site" where
  "small_site d = (blank_site 0x01000000 d)\<lparr>servers := [small_server], nServers := 2, ubik_quorum := 2, ubik_amSyncSite := True,
     syncSiteUntil := 1000, syncSiteAdvertised := True, epochTime := 100, urecovery_state := {RECHAVEDB, RECLABELDB}\<rparr>"

lemma small_AmSyncSite [simp]: "now < 1000 \<Longrightarrow> ubeacon_AmSyncSite (small_site d) now = (True, small_site d)"
  by (simp add: ubeacon_AmSyncSite_def amSyncSite_def small_site_def blank_site_def)

lemma small_site_sel [simp]:
  "db (small_site d) = d" "urecovery_state (small_site d) = {RECHAVEDB, RECLABELDB}" "small_site d\<lparr>db := d'\<rparr> = small_site d'"
  by (simp_all add: small_site_def blank_site_def)

lemma small_may_write: "now < 1000 \<Longrightarrow> \<not> trReadAny (tr d t) \<Longrightarrow> may_write t now (small_site d) = (UOK, small_site d)"
  by (simp add: may_write_def urecovery_AllBetter_def)




theorem ubik_Write_fits_witness:
  "iovec_ok (tr (db (snd (ubik_Write (\<lambda>_ _. UOK) True 0 [9] 101 (small_site demo_begun)))) 0)"
proof -
  have tt: "tr demo_begun 0 = new_trans UBIK_WRITETRANS" by code_simp
  let ?r = "ubik_Write (\<lambda>_ _. UOK) True 0 [9] 101 (small_site demo_begun)"
  let ?d0 = "upd_trans demo_begun 0 (\<lambda>tt. tt\<lparr>iovec_alloc := True, iovec_info := [], iovec_data := []\<rparr>)"
  have u: "fst (udisk_write ?d0 0 0 [9] 0) = UOK" by code_simp
  have d0: "tr ?d0 0 = (new_trans UBIK_WRITETRANS)\<lparr>iovec_alloc := True\<rparr>" using tt by (simp add: upd_trans_def new_trans_def)
  have "?r = write_local 0 [9] 101 (small_site ?d0)"
    using tt d0 by (subst ubik_Write.simps) (simp add: ubik_Write1_def write_flush_def upd_tr_def new_trans_def)
  moreover have "fst (write_local 0 [9] 101 (small_site ?d0)) = UOK"
    using u d0 small_may_write[of 101 ?d0 0]
    by (cases "udisk_write ?d0 0 0 [9] 0") (simp add: write_local_def new_trans_def andthen_def on_db_def)
  ultimately have r: "?r = (UOK, snd ?r)" by (metis prod.collapse)
  have "iovec_ok (tr (db (small_site demo_begun)) 0)" using tt by (simp add: iovec_ok_def new_trans_def)
  from ubik_Write_fits[OF r this] show ?thesis by simp
qed

theorem EndTrans_error_forgets_witness:
  "cachedVersion (db (snd (ubik_EndTrans (\<lambda>_ _. UOK) None 0 1001 [] (small_site demo_begun)))) = no_version"
proof -
  let ?r = "ubik_EndTrans (\<lambda>_ _. UOK) None 0 1001 [] (small_site demo_begun)"
  have "fst ?r = UERR UNOQUORUM" by code_simp
  then have r: "?r = (UERR UNOQUORUM, snd ?r)" by (metis prod.collapse)
  from EndTrans_error_forgets[OF r] show ?thesis .
qed

end
