(* ===== verification/Ubik_Remote.thy ===== *)
theory Ubik_Remote
  imports Ubik_Trans_Proofs
begin

text \<open>
  The other servers' part in a write transaction and in the copying of a database
  (\<^verbatim>\<open>src/src/ubik/remote.c\<close>, the handlers \<^verbatim>\<open>SDISK_...\<close>).  \<open>auth\<close> is the answer of
  \<^verbatim>\<open>ubik_CheckAuth\<close> for the call.  The bytes that come in over the connection are a list, which
  ends where the connection breaks; writing to the connection fails where a list of flags says so.
\<close>

section \<open>Transactions of the sync site\<close>

text \<open>
  What nearly all handlers begin with: is there a current transaction, is it a write
  transaction, is it still the one of the caller?  \<open>pre\<close> is the check in between.
\<close>

definition authorized :: "ucode \<Rightarrow> (site \<Rightarrow> ucode \<times> site) \<Rightarrow> site \<Rightarrow> ucode \<times> site" where
  "authorized auth k s = (if auth \<noteq> UOK then (auth, s) else k s)"

definition with_current ::
  "(site \<Rightarrow> ucode \<times> site) \<Rightarrow> ubik_tid \<Rightarrow> (nat \<Rightarrow> site \<Rightarrow> ucode \<times> site) \<Rightarrow> site \<Rightarrow> ucode \<times> site" where
  "with_current pre atid k s =
     (case currentTrans s of
        None \<Rightarrow> (UERR USYNC, s)
      | Some t \<Rightarrow>
          if ttype (tr (db s) t) \<noteq> UBIK_WRITETRANS then (UERR UBADTYPE, s)
          else let (ok, s1) = pre s in
            if ok \<noteq> UOK then (ok, s1)
            else andthen (\<lambda>s. urecovery_CheckTid s atid False)
              (\<lambda>_ s2. case currentTrans s2 of None \<Rightarrow> (UERR USYNC, s2) | Some t1 \<Rightarrow> k t1 s2) s1)"

definition SDISK_Begin :: "ucode \<Rightarrow> ubik_tid \<Rightarrow> int \<Rightarrow> site \<Rightarrow> ucode \<times> site" where
  "SDISK_Begin auth atid now =
     authorized auth (\<lambda>s.
       let (ok, s1) = urecovery_AllBetter s now False in
       if \<not> ok then (UERR UNOQUORUM, s1)
       else andthen (\<lambda>s. urecovery_CheckTid s atid True)
         (\<lambda>_ s2. case udisk_begin (db s2) UBIK_WRITETRANS of
            (code, None, d) \<Rightarrow> (code, s2\<lparr>db := d\<rparr>)
          | (code, Some t, d) \<Rightarrow>
              (code, s2\<lparr>db := upd_trans d t (\<lambda>tt. if code = UOK then tt\<lparr>tid := atid\<rparr> else tt), currentTrans := Some t\<rparr>)) s1)"

definition SDISK_Commit :: "replies \<Rightarrow> ucode \<Rightarrow> ubik_tid \<Rightarrow> int \<Rightarrow> site \<Rightarrow> ucode \<times> site" where
  "SDISK_Commit rpc auth atid now =
     authorized auth (andthen (obtain_cache WriteHow)
       (\<lambda>_. andthen (with_current (return UOK) atid (\<lambda>t s.
            let (code, s1) = udisk_commit rpc s t now
            in (code, if code = UOK then uvote_set_dbVersion s1 (version (db s1)) else s1)))
          (\<lambda>code s. (code, release_cache ReleaseWriteLock s))))"

text \<open>The transaction of a thread that waits for a lock is ended by that thread.\<close>

definition end_current :: "nat \<Rightarrow> ucode \<Rightarrow> site \<Rightarrow> ucode \<times> site" where
  "end_current t code s =
     andthen (if locktype (tr (db s) t) \<noteq> LOCKWAIT then on_db (\<lambda>d. udisk_end d t) else return UOK)
       (\<lambda>_ s1. (code, s1\<lparr>currentTrans := None\<rparr>)) s"

definition SDISK_ReleaseLocks :: "ucode \<Rightarrow> ubik_tid \<Rightarrow> site \<Rightarrow> ucode \<times> site" where
  "SDISK_ReleaseLocks auth atid = authorized auth (with_current (return UOK) atid (\<lambda>t. end_current t UOK))"

definition SDISK_Abort :: "ucode \<Rightarrow> ubik_tid \<Rightarrow> site \<Rightarrow> ucode \<times> site" where
  "SDISK_Abort auth atid =
     authorized auth (with_current (return UOK) atid (\<lambda>t. andthen (on_db (\<lambda>d. udisk_abort d t)) (end_current t)))"

text \<open>After the lock has been obtained, perhaps after a wait: is the transaction still current?\<close>

definition Lock_rest :: "nat \<Rightarrow> ucode \<Rightarrow> site \<Rightarrow> ucode \<times> site" where
  "Lock_rest t code s =
     (if code = UOK \<and> currentTrans s \<noteq> Some t
      then andthen (on_db (\<lambda>d. udisk_end d t)) (\<lambda>_. return (UERR USYNC)) s else (code, s))"

definition SDISK_Lock :: "ucode \<Rightarrow> ubik_tid \<Rightarrow> int \<Rightarrow> int \<Rightarrow> int \<Rightarrow> locktype \<Rightarrow> site \<Rightarrow> ucode \<times> site" where
  "SDISK_Lock auth atid afile apos alen atype =
     authorized auth (with_current (\<lambda>s. (if alen \<noteq> 1 then UERR UBADLOCK else UOK, s)) atid
       (\<lambda>t. andthen (get_lock t atype) (Lock_rest t)))"

text \<open>
  A vector of writes.  The test is made on unsigned numbers, so a negative length can pass
  it; \<^verbatim>\<open>fwrite\<close> is then given a huge size, and reads beyond the end of the buffer.
\<close>

fun writev_loop :: "nat \<Rightarrow> ubik_iovec list \<Rightarrow> byte list \<Rightarrow> int \<Rightarrow> site \<Rightarrow> ucode \<times> site" where
  "writev_loop t [] buf offset s = (UOK, s)"
| "writev_loop t (v # vs) buf offset s =
     (if int (length buf) < (offset + iolength v) mod 4294967296 then (UERR UINTERNAL, s)
      else if iolength v < 0 then (UPANIC, s)
      else let (code, s1) = on_db (\<lambda>d. udisk_write d t (iofile v)
                              (take (nat (iolength v)) (drop (nat offset) buf)) (ioposition v)) s
           in if code \<noteq> UOK then (code, s1) else writev_loop t vs buf (offset + iolength v) s1)"

definition SDISK_WriteV :: "ucode \<Rightarrow> ubik_tid \<Rightarrow> ubik_iovec list \<Rightarrow> byte list \<Rightarrow> site \<Rightarrow> ucode \<times> site" where
  "SDISK_WriteV auth atid io_vector io_buffer =
     authorized auth (with_current (return UOK) atid (\<lambda>t. writev_loop t io_vector io_buffer 0))"

definition SDISK_Write :: "ucode \<Rightarrow> ubik_tid \<Rightarrow> int \<Rightarrow> int \<Rightarrow> byte list \<Rightarrow> site \<Rightarrow> ucode \<times> site" where
  "SDISK_Write auth atid afile apos adata =
     authorized auth (with_current (return UOK) atid (\<lambda>t. on_db (\<lambda>d. udisk_write d t afile adata apos)))"

definition SDISK_Truncate :: "ucode \<Rightarrow> ubik_tid \<Rightarrow> int \<Rightarrow> int \<Rightarrow> site \<Rightarrow> ucode \<times> site" where
  "SDISK_Truncate auth atid afile alen =
     authorized auth (with_current (return UOK) atid (\<lambda>t. on_db (\<lambda>d. udisk_truncate d t afile alen)))"

definition SDISK_SetVersion ::
  "ucode \<Rightarrow> ubik_tid \<Rightarrow> ubik_version \<Rightarrow> ubik_version \<Rightarrow> int \<Rightarrow> site \<Rightarrow> ucode \<times> site" where
  "SDISK_SetVersion auth atid oldversion newversion now =
     authorized auth (with_current
       (\<lambda>s. let (am, s1) = ubeacon_AmSyncSite s now in (if am then UERR UDEADLOCK else UOK, s1)) atid
       (\<lambda>t s. if uvote_eq_dbVersion s oldversion \<or>
                 uvote_eq_dbVersion s newversion \<and> vcmp (version (db s)) oldversion = 0
          then let (code, p) = uphys_setlabel (dphys (db s)) 0 newversion;
                   s1 = s\<lparr>db := (db s)\<lparr>dphys := p\<rparr>\<rparr>
               in (code, if code = UOK
                    then uvote_set_dbVersion (s1\<lparr>db := (db s1)\<lparr>version := newversion\<rparr>\<rparr>) newversion else s1)
          else (UERR USYNC, s)))"

section \<open>Copying a database\<close>

definition set_phys :: "phys \<Rightarrow> site \<Rightarrow> site" where
  "set_phys p s = s\<lparr>db := (db s)\<lparr>dphys := p\<rparr>\<rparr>"

definition set_version :: "ubik_version \<Rightarrow> site \<Rightarrow> site" where
  "set_version v s = s\<lparr>db := (db s)\<lparr>version := v\<rparr>\<rparr>"

definition invalidate :: "int \<Rightarrow> site \<Rightarrow> site" where
  "invalidate f s = s\<lparr>db := (db s)\<lparr>dcache := udisk_Invalidate (dcache (db s)) f\<rparr>\<rparr>"

definition SDISK_GetVersion :: "ucode \<Rightarrow> int \<Rightarrow> site \<Rightarrow> ucode \<times> ubik_version option \<times> site" where
  "SDISK_GetVersion auth now s =
     (if auth \<noteq> UOK then (auth, None, s)
      else let (am, s1) = ubeacon_AmSyncSite s now in
        if am then (UERR UDEADLOCK, None, s1)
        else let (code, v, p) = uphys_getlabel (dphys (db s1)) 0
             in (UOK, Some (if code = UOK then v else no_version), set_phys p s1))"

text \<open>Sending a file in pieces of 256 bytes; \<open>rx\<close> says which calls of \<^verbatim>\<open>rx_Write\<close> fail.\<close>

definition rx_step :: "bool list \<Rightarrow> bool \<times> bool list" where
  "rx_step rx = (case rx of [] \<Rightarrow> (False, []) | b # bs \<Rightarrow> (b, bs))"

function getfile_loop ::
  "nat \<Rightarrow> phys \<Rightarrow> int \<Rightarrow> int \<Rightarrow> int \<Rightarrow> bool list \<Rightarrow> byte list \<Rightarrow> ucode \<times> byte list \<times> phys" where
  "getfile_loop chunk p file offset alen rx out =
     (if alen \<le> 0 \<or> chunk = 0 then (UOK, out, p)
      else let tlen = min alen (int chunk);
               (code, bs, p1) = uphys_read p file offset (nat tlen)
           in if code \<noteq> tlen then (UERR UIOERROR, out, p1)
              else let (bad, rx1) = rx_step rx in
                if bad then (UERR BULK_ERROR, out, p1)
                else getfile_loop chunk p1 file (offset + tlen) (alen - tlen) rx1 (out @ bs))"
  by pat_completeness auto
termination
  by (relation "measure (\<lambda>(chunk, p, file, offset, alen, rx, out). nat alen)") auto

declare getfile_loop.simps [simp del]

definition SDISK_GetFile ::
  "ucode \<Rightarrow> int \<Rightarrow> bool list \<Rightarrow> site \<Rightarrow> ucode \<times> byte list \<times> ubik_version \<times> site" where
  "SDISK_GetFile auth file rx s =
     (if auth \<noteq> UOK then (auth, [], no_version, s)
      else let (code, alen, p) = uphys_stat (dphys (db s)) file in
        if code \<noteq> UOK then (code, [], no_version, set_phys p s)
        else let (bad, rx1) = rx_step rx in
          if bad then (UERR BULK_ERROR, [], no_version, set_phys p s)
          else let (code2, out, p2) = getfile_loop 256 p file 0 alen rx1 (htonl_bytes alen) in
            if code2 \<noteq> UOK then (code2, out, no_version, set_phys p2 s)
            else let (code3, v, p3) = uphys_getlabel p2 file in (code3, out, v, set_phys p3 s))"

text \<open>
  Receiving a file: it is written to a temporary file in pieces of 1024 bytes.  \<open>Inl False\<close>: the
  connection breaks; \<open>Inl True\<close>: a write fails; else the contents and what is left to read.
\<close>

function receive_loop :: "phys \<Rightarrow> byte list \<Rightarrow> int \<Rightarrow> byte list \<Rightarrow> (bool + byte list \<times> byte list) \<times> phys" where
  "receive_loop p stream alen tmp =
     (if alen \<le> 0 then (Inr (tmp, stream), p)
      else let tlen = nat (min alen 1024) in
        if length stream < tlen then (Inl False, p)
        else let (bad, p1) = io_step p in
          if bad then (Inl True, p1)
          else receive_loop p1 (drop tlen stream) (alen - int tlen)
                 (if tmp = [] then replicate 64 0 @ take tlen stream else tmp @ take tlen stream))"
  by pat_completeness auto
termination
  by (relation "measure (\<lambda>(p, stream, alen, tmp). nat alen)") auto

declare receive_loop.simps [simp del]

text \<open>The renaming of the temporary file, and the label of the new one.\<close>

definition install_file :: "phys \<Rightarrow> int \<Rightarrow> byte list \<Rightarrow> ubik_version \<Rightarrow> ucode \<times> phys" where
  "install_file p file tmp v =
     (let (bad, p1) = io_step p in
      if bad then (UERR ESYSCALL, p1) else uphys_setlabel (set_file p1 file tmp) file v)"

definition SendFile_failed :: "int \<Rightarrow> int \<Rightarrow> ucode \<Rightarrow> site \<Rightarrow> ucode \<times> site" where
  "SendFile_failed file junk code s =
     (code, set_phys (snd (uphys_setlabel (dphys (db s)) file \<lparr>epoch = 0, counter = junk\<rparr>)) s)"

text \<open>Once the temporary file is open: the data, the renaming and the new label.\<close>

definition SendFile_receive ::
  "int \<Rightarrow> int \<Rightarrow> ubik_version \<Rightarrow> byte list \<Rightarrow> int \<Rightarrow> site \<Rightarrow> ucode \<times> site" where
  "SendFile_receive file alen avers stream junk s =
     (case receive_loop (dphys (db s)) stream alen [] of
        (Inl io, p) \<Rightarrow> SendFile_failed file junk (UERR (if io then UIOERROR else BULK_ERROR)) (set_phys p s)
      | (Inr (tmp, _), p) \<Rightarrow>
          let (bad, p1) = io_step p in
          if bad then SendFile_failed file junk (UERR ESYSCALL) (set_phys p1 s)
          else let (code, p2) = install_file p1 file tmp avers;
                   s1 = invalidate file (set_version avers (set_phys p2 s))
               in if code \<noteq> UOK then SendFile_failed file junk code s1
                  else (UOK, uvote_set_dbVersion s1 avers))"

text \<open>\<open>junk\<close> is what the uninitialised \<^verbatim>\<open>tversion.counter\<close> happens to hold.\<close>

definition SDISK_SendFile ::
  "ucode \<Rightarrow> u32 \<Rightarrow> int \<Rightarrow> int \<Rightarrow> ubik_version \<Rightarrow> byte list \<Rightarrow> int \<Rightarrow> int \<Rightarrow> site \<Rightarrow> ucode \<times> site" where
  "SDISK_SendFile auth caller file alen avers stream junk now =
     authorized auth (\<lambda>s.
       let syncHost = uvote_GetSyncSite s now; otherHost = ubikGetPrimaryInterfaceAddr s caller in
       if syncHost \<noteq> 0 \<and> syncHost \<noteq> otherHost then (UERR USYNC, s)
       else andthen (on_db urecovery_AbortAll)
         (\<lambda>_ s1.
            let (_, p) = uphys_setlabel (dphys (db s1)) file \<lparr>epoch = 0, counter = junk\<rparr>;
                (bad, p1) = io_step p; (bad2, p2) = io_step p1
            in if bad then SendFile_failed file junk (UERR ESYSCALL) (set_phys p1 s1)
               else if bad2 then SendFile_failed file junk (UERR ESYSCALL) (set_phys p2 s1)
               else SendFile_receive file alen avers stream junk
                      (set_version \<lparr>epoch = 0, counter = junk\<rparr> (set_phys p2 s1))) s)"

definition SDISK_Probe :: ucode where
  "SDISK_Probe = UOK"

section \<open>Addresses\<close>

text \<open>A server tells its addresses, 256 of them in host order, and gets ours.\<close>

definition other_has :: "ubik_server list \<Rightarrow> nat \<Rightarrow> u32 \<Rightarrow> bool" where
  "other_has srvs i a \<longleftrightarrow> (\<exists>k < length srvs. k \<noteq> i \<and> a \<in> set (takeWhile (\<lambda>x. x \<noteq> 0) (addr (srvs ! k))))"

definition SDISK_UpdateInterfaceAddr :: "u32 list \<Rightarrow> site \<Rightarrow> ucode \<times> u32 list \<times> site" where
  "SDISK_UpdateInterfaceAddr inAddr s =
     (let out = map (\<lambda>i. if i < length (ubik_host s) then ntohl (ubik_host s ! i) else 0) [0..<256] in
      case List.find (\<lambda>i. hd (addr (servers s ! i)) = ntohl (hd inAddr)) [0..<length (servers s)] of
        None \<Rightarrow> (UERR UBADHOST, out, s)
      | Some i \<Rightarrow>
          if list_ex (\<lambda>a. other_has (servers s) i (ntohl a)) (takeWhile (\<lambda>x. x \<noteq> 0) inAddr)
          then (UERR UBADHOST, out, s)
          else (UOK, out, upd_server s i (\<lambda>ts. ts\<lparr>addr := hd (addr ts) # map ntohl (drop 1 inAddr),
                  beaconSinceDown := False, currentDB := False\<rparr>)))"

end
