(* ===== verification/Ubik_Recovery.thy ===== *)
theory Ubik_Recovery
  imports Ubik_Remote
begin

text \<open>
  The recovery thread of a site (\<^verbatim>\<open>src/src/ubik/recovery.c\<close>, \<^verbatim>\<open>urecovery_Interact\<close> and
  \<^verbatim>\<open>DoProbe\<close>): one turn of its loop.  As sync site it asks a majority for the versions of
  their databases, fetches the newest, relabels a new one and sends it to the others.

  What the other servers answer is a record of functions from the index of the server.
\<close>

record answers =
  probe_ok :: "nat \<Rightarrow> nat \<Rightarrow> bool"
  getVersion :: "nat \<Rightarrow> ubik_version option"
  startGet :: "nat \<Rightarrow> ucode"
  getStream :: "nat \<Rightarrow> byte list"
  endGet :: "nat \<Rightarrow> ucode \<times> ubik_version"
  sendCall :: "nat \<Rightarrow> ucode"
  sendBreaks :: "nat \<Rightarrow> bool list"

record recovery =
  lastProbeTime :: int
  bestServer :: "nat option"
  bestDBVersion :: ubik_version

section \<open>Probing\<close>

text \<open>A server is up again when one of its addresses answers.\<close>

definition probed_addrs :: "bool \<Rightarrow> ubik_server \<Rightarrow> u32 list" where
  "probed_addrs primaryOnly ts =
     (let as = takeWhile (\<lambda>x. x \<noteq> 0) (addr ts) in if primaryOnly then take 1 as else as)"

definition DoProbe :: "answers \<Rightarrow> bool \<Rightarrow> site \<Rightarrow> nat \<Rightarrow> ucode" where
  "DoProbe ans primaryOnly s i =
     (let n = length (probed_addrs primaryOnly (servers s ! i)) in
      if n = 0 then UPANIC else if list_ex (probe_ok ans i) [0..<n] then UOK else UERR (ECODE 1))"

definition clear_state :: "recflag \<Rightarrow> site \<Rightarrow> site" where
  "clear_state f s = s\<lparr>urecovery_state := urecovery_state s - {f}\<rparr>"

definition set_state :: "recflag \<Rightarrow> site \<Rightarrow> site" where
  "set_state f s = s\<lparr>urecovery_state := insert f (urecovery_state s)\<rparr>"

definition probe_server :: "answers \<Rightarrow> bool \<Rightarrow> nat \<Rightarrow> site \<Rightarrow> ucode \<times> site" where
  "probe_server ans primaryOnly i s =
     (let ts = servers s ! i in
      if \<not> up ts
      then let code = DoProbe ans primaryOnly s i in
        if code = UPANIC then (UPANIC, s)
        else (UOK, if code = UOK then clear_state RECFOUNDDB (upd_server s i (\<lambda>ts. ts\<lparr>up := True\<rparr>)) else s)
      else (UOK, if \<not> currentDB ts then clear_state RECFOUNDDB s else s))"

fun probe_servers :: "answers \<Rightarrow> bool \<Rightarrow> nat list \<Rightarrow> site \<Rightarrow> ucode \<times> site" where
  "probe_servers ans primaryOnly [] s = (UOK, s)"
| "probe_servers ans primaryOnly (i # is) s =
     andthen (probe_server ans primaryOnly i) (\<lambda>_. probe_servers ans primaryOnly is) s"

section \<open>Finding the newest database\<close>

definition ask_version ::
  "answers \<Rightarrow> nat \<Rightarrow> site \<times> nat option \<times> ubik_version \<times> int \<Rightarrow> site \<times> nat option \<times> ubik_version \<times> int" where
  "ask_version ans i acc =
     (let (s, best, bestv, okcalls) = acc; ts = servers s ! i in
      if \<not> up ts \<or> isClone ts then acc
      else case getVersion ans i of
        None \<Rightarrow> acc
      | Some v \<Rightarrow>
          (upd_server s i (\<lambda>ts. ts\<lparr>sversion := v\<rparr>), if 0 < vcmp v bestv then Some i else best,
           if 0 < vcmp v bestv then v else bestv, okcalls + 1))"

definition find_best :: "answers \<Rightarrow> site \<Rightarrow> recovery \<Rightarrow> site \<times> recovery" where
  "find_best ans s r =
     (let (s1, best, bestv, okcalls) =
        fold (ask_version ans) [0..<length (servers s)] (s, None, no_version, 0) in
      if okcalls + 1 < ubik_quorum s1 then (s1, r\<lparr>bestServer := best, bestDBVersion := bestv\<rparr>)
      else if 0 \<le> vcmp (version (db s1)) bestv
      then (clear_state RECSENTDB (set_state RECFOUNDDB (set_state RECHAVEDB s1)),
            r\<lparr>bestServer := None, bestDBVersion := version (db s1)\<rparr>)
      else (clear_state RECSENTDB (set_state RECFOUNDDB (clear_state RECHAVEDB s1)),
            r\<lparr>bestServer := best, bestDBVersion := bestv\<rparr>))"

section \<open>Fetching it\<close>

text \<open>
  The data into a temporary file: an error code, or the file.  \<^verbatim>\<open>rx_EndCall\<close> gives the code of the
  call when there was none before.
\<close>

definition fetch_data :: "answers \<Rightarrow> nat \<Rightarrow> int \<Rightarrow> site \<Rightarrow> (ucode + byte list) \<times> site" where
  "fetch_data ans i junk s =
     (if startGet ans i \<noteq> UOK then (Inl (startGet ans i), s)
      else if length (getStream ans i) < 4 then (Inl (UERR EIO), s)
      else let alen = ntohl_bytes (take 4 (getStream ans i));
               (code, p) = uphys_setlabel (dphys (db s)) 0 \<lparr>epoch = 0, counter = junk\<rparr>
           in if code \<noteq> UOK then (Inl code, set_phys p s)
              else let (bad, p1) = io_step p; (bad2, p2) = io_step p1 in
                if bad then (Inl (UERR ESYSCALL), set_phys p1 s)
                else if bad2 then (Inl (UERR ESYSCALL), set_phys p2 s)
                else case receive_loop p2 (drop 4 (getStream ans i)) alen [] of
                  (Inl io, p3) \<Rightarrow> (Inl (UERR (if io then UIOERROR else EIO)), set_phys p3 s)
                | (Inr (tmp, _), p3) \<Rightarrow>
                    let (bad3, p4) = io_step p3 in
                    if bad3 then (Inl (UERR ESYSCALL), set_phys p4 s)
                    else if fst (endGet ans i) \<noteq> UOK then (Inl (fst (endGet ans i)), set_phys p4 s)
                    else (Inr tmp, set_phys p4 s))"

definition fetch_db :: "answers \<Rightarrow> nat \<Rightarrow> int \<Rightarrow> site \<Rightarrow> ucode \<times> site" where
  "fetch_db ans i junk =
     andthen (on_db urecovery_AbortAll)
       (\<lambda>_ s.
          let (r, s1) = fetch_data ans i junk s;
              (code, s2) =
                (case r of
                   Inl code \<Rightarrow> (code, s1)
                 | Inr tmp \<Rightarrow>
                     let v = snd (endGet ans i); (code, p) = install_file (dphys (db s1)) 0 tmp v
                     in (code, set_phys p (set_version v (set_state RECHAVEDB s1))));
              s3 = (if code \<noteq> UOK then set_version no_version s2 else set_state RECHAVEDB s2)
          in (UOK, invalidate 0 s3))"

section \<open>Relabelling and sending\<close>

definition relabel_new :: "site \<Rightarrow> ucode \<times> site" where
  "relabel_new s =
     (if epoch (version (db s)) \<noteq> 1 then (UOK, s)
      else andthen (on_db urecovery_AbortAll)
        (\<lambda>_ s1. let s2 = set_version \<lparr>epoch = 2, counter = 1\<rparr> s1
                in (UOK, invalidate 0 (set_phys (snd (uphys_setlabel (dphys (db s2)) 0 (version (db s2)))) s2))) s)"

text \<open>One server's turn; the flag says whether all have got it.\<close>

definition send_db :: "answers \<Rightarrow> nat \<Rightarrow> site \<times> bool \<Rightarrow> site \<times> bool" where
  "send_db ans i acc =
     (let (s, dbok) = acc; ts = servers s ! i; current = (\<lambda>s. upd_server s i (\<lambda>ts. ts\<lparr>currentDB := True\<rparr>)) in
      if \<not> up ts then (s, False)
      else if vcmp (sversion ts) (version (db s)) = 0 then (current s, dbok)
      else let (code, alen, p) = uphys_stat (dphys (db s)) 0;
               (code2, out, p2) =
                 (if code \<noteq> UOK then (code, [], p)
                  else getfile_loop 1024 p 0 0 alen (sendBreaks ans i) []);
               s1 = set_phys p2 s
           in if code2 \<noteq> UOK \<or> sendCall ans i \<noteq> UOK then (s1, False)
              else (current (upd_server s1 i (\<lambda>ts. ts\<lparr>sversion := version (db s1)\<rparr>)), dbok))"

definition send_all :: "answers \<Rightarrow> site \<Rightarrow> site" where
  "send_all ans s =
     (let (s1, dbok) = fold (send_db ans) [0..<length (servers s)] (s, True)
      in if dbok then set_state RECSENTDB s1 else s1)"

section \<open>One turn\<close>

text \<open>\<open>UOK\<close> with the state at the \<^verbatim>\<open>continue\<close> or at the end of the loop's body.\<close>

definition recovery_own :: "answers \<Rightarrow> int \<Rightarrow> site \<Rightarrow> recovery \<Rightarrow> ucode \<times> site" where
  "recovery_own ans junk s r =
     andthen (if RECHAVEDB \<in> urecovery_state s \<or> bestServer r = None then (\<lambda>s. (UOK, set_state RECHAVEDB s))
              else fetch_db ans (the (bestServer r)) junk)
       (\<lambda>_ s1. if RECHAVEDB \<notin> urecovery_state s1 then (UOK, s1)
          else andthen relabel_new
            (\<lambda>_ s2. (UOK, if RECSENTDB \<notin> urecovery_state s2 then send_all ans s2 else s2)) s1) s"

definition urecovery_Interact ::
  "answers \<Rightarrow> bool \<Rightarrow> int \<Rightarrow> int \<Rightarrow> site \<Rightarrow> recovery \<Rightarrow> ucode \<times> site \<times> recovery" where
  "urecovery_Interact ans primaryOnly junk now s r =
     (let doprobe = (30 + lastProbeTime r < now);
          (code, s1) = (if doprobe then probe_servers ans primaryOnly [0..<length (servers s)] s else (UOK, s));
          r1 = (if doprobe then r\<lparr>lastProbeTime := now\<rparr> else r) in
      if code \<noteq> UOK then (code, s1, r1)
      else let (am, s2) = ubeacon_AmSyncSite s1 now in
        if \<not> am then (UOK, clear_state RECSYNCSITE s2, r1)
        else let s3 = set_state RECSYNCSITE s2;
                 (s4, r2) = (if RECFOUNDDB \<notin> urecovery_state s3 then find_best ans s3 r1 else (s3, r1))
             in if RECFOUNDDB \<notin> urecovery_state s4 then (UOK, s4, r2)
                else let (code2, s5) = recovery_own ans junk s4 r2 in (code2, s5, r2))"

end
