(* ===== verification/Ubik_Replica.thy ===== *)
theory Ubik_Replica
  imports Ubik_Remote
begin

text \<open>
  What the handlers of the other servers promise: the writes of a transaction reach them
  as they were made, a copied database is the one that was sent, and what is left
  when a copy fails.
\<close>

section \<open>Replicas\<close>

text \<open>The writes that a vector stands for, and doing them one after the other.\<close>

fun unpack :: "ubik_iovec list \<Rightarrow> byte list \<Rightarrow> (int \<times> int \<times> byte list) list" where
  "unpack [] buf = []"
| "unpack (v # vs) buf =
     (iofile v, ioposition v, take (nat (iolength v)) buf) # unpack vs (drop (nat (iolength v)) buf)"

fun write_all :: "nat \<Rightarrow> (int \<times> int \<times> byte list) list \<Rightarrow> ubik_dbase \<Rightarrow> ucode \<times> ubik_dbase" where
  "write_all t [] d = (UOK, d)"
| "write_all t ((f, pos, bs) # ws) d =
     (let (code, d1) = udisk_write d t f bs pos in if code \<noteq> UOK then (code, d1) else write_all t ws d1)"

lemma unpack_append:
  assumes "\<forall>v \<in> set vs. 0 \<le> iolength v" and "sum_list (map iolength vs) = int (length buf)"
  shows "unpack (vs @ [v]) (buf @ bs) = unpack vs buf @ unpack [v] bs"
  using assms
proof (induction vs arbitrary: buf)
  case (Cons a vs)
  have "0 \<le> sum_list (map iolength vs)" using Cons(2) by (intro sum_list_nonneg) auto
  then have a: "nat (iolength a) \<le> length buf" "sum_list (map iolength vs) = int (length (drop (nat (iolength a)) buf))"
    using Cons(2,3) by auto
  then show ?case using Cons(1)[of "drop (nat (iolength a)) buf"] Cons(2) by simp
qed simp

lemma writev_loop_unpack:
  assumes "\<forall>v \<in> set vs. 0 \<le> iolength v" and "0 \<le> offset" and "offset + sum_list (map iolength vs) \<le> int (length buf)"
    and "length buf < 4294967296"
  shows "writev_loop t vs buf offset s = on_db (write_all t (unpack vs (drop (nat offset) buf))) s"
  using assms
proof (induction vs arbitrary: offset s)
  case Nil
  then show ?case by (simp add: on_db_def)
next
  case (Cons v vs)
  have sl: "0 \<le> sum_list (map iolength vs)" using Cons(2) by (intro sum_list_nonneg) auto
  have v: "0 \<le> iolength v" "offset + iolength v \<le> int (length buf)" using Cons(2,4) sl by auto
  have m: "(offset + iolength v) mod 4294967296 = offset + iolength v" using v Cons(3,5) by (intro mod_pos_pos_trivial) auto
  have d: "drop (nat (iolength v)) (drop (nat offset) buf) = drop (nat (offset + iolength v)) buf"
    using v(1) Cons(3) by (simp add: nat_add_distrib add.commute)
  obtain c d1 where u: "udisk_write (db s) t (iofile v) (take (nat (iolength v)) (drop (nat offset) buf)) (ioposition v) = (c, d1)"
    by fastforce
  have IH: "writev_loop t vs buf (offset + iolength v) (s\<lparr>db := d1\<rparr>) =
      on_db (write_all t (unpack vs (drop (nat (offset + iolength v)) buf))) (s\<lparr>db := d1\<rparr>)"
    using Cons(1)[of "offset + iolength v"] Cons(2-5) v by simp
  show ?case using IH u m v d by (simp add: on_db_def split: prod.splits)
qed

lemma write_keeps_writer:
  assumes "udisk_write d t f bs pos = (UOK, d')" and "writer d t"
  shows "writer d' t"
  using assms by (auto simp: writer_def udisk_write_def upd_trans_def FindTrunc_def Let_def split: if_splits prod.splits)

lemma write_all_trans:
  assumes "write_all t ws d = (UOK, d')" and "in_trans D R d" and "writer d t" and "faults (dphys d) = []"
    and "\<forall>(f, pos, bs) \<in> set ws. rec_ok (LData f pos bs) \<and> bs \<noteq> []"
    and "length (encs R) + (\<Sum>(f, pos, bs) \<leftarrow> ws. 16 + length bs) < 2147483648"
  shows "in_trans D (R @ map (\<lambda>(f, pos, bs). LData f pos bs) ws) d' \<and> writer d' t"
  using assms
proof (induction ws arbitrary: d R)
  case (Cons w ws)
  obtain f pos bs where w: "w = (f, pos, bs)" by (cases w)
  obtain c d1 where u: "udisk_write d t f bs pos = (c, d1)" by fastforce
  have c: "c = UOK" "write_all t ws d1 = (UOK, d')" using Cons(2) u w by (auto split: if_splits)
  have wok: "write_ok f pos bs R" using Cons(6,7) w by (simp add: write_ok_def)
  have o: "open_trans D R d" using Cons(3) in_trans_open by blast
  have tw: "\<not> trDone (tr d t)" "ttype (tr d t) = UBIK_WRITETRANS" using Cons(4) by (auto simp: writer_def)
  note T = write_trans[OF o Cons(5) wok tw u]
  have wr: "writer d1 t" using write_keeps_writer u Cons(4) c(1) by blast
  have "length (enc (LData f pos bs)) = 16 + length bs" by (simp add: htonl_bytes_def)
  then have "length (encs (R @ [LData f pos bs])) + (\<Sum>(f, pos, bs) \<leftarrow> ws. 16 + length bs) < 2147483648"
    using Cons(7) w by (simp del: enc.simps)
  from Cons(1)[OF c(2) T(4)[OF c(1) Cons(3)] wr T(2) _ this] Cons(6) w show ?case by simp
qed simp

lemma unpack_size:
  assumes "\<forall>v \<in> set vs. 0 < iolength v" and "sum_list (map iolength vs) = int (length buf)"
  shows "(\<Sum>(f, pos, bs) \<leftarrow> unpack vs buf. 16 + length bs) = 16 * length vs + length buf \<and>
    (\<forall>(f, pos, bs) \<in> set (unpack vs buf). bs \<noteq> [] \<and> length bs \<le> length buf \<and> (\<exists>v \<in> set vs. f = iofile v \<and> pos = ioposition v))"
  using assms
proof (induction vs arbitrary: buf)
  case (Cons a vs)
  let ?n = "nat (iolength a)"
  have "0 \<le> sum_list (map iolength vs)" using Cons(2) by (intro sum_list_nonneg) (auto intro: less_imp_le)
  then have a: "0 < ?n" "?n \<le> length buf" "sum_list (map iolength vs) = int (length (drop ?n buf))"
    using Cons(2,3) by auto
  have IH: "(\<Sum>(f, pos, bs) \<leftarrow> unpack vs (drop ?n buf). 16 + length bs) = 16 * length vs + (length buf - ?n)"
    "\<forall>(f, pos, bs) \<in> set (unpack vs (drop ?n buf)). bs \<noteq> [] \<and> length bs \<le> length buf - ?n \<and> (\<exists>v \<in> set vs. f = iofile v \<and> pos = ioposition v)"
    using Cons(1)[OF _ a(3)] Cons(2) by auto
  have "take ?n buf \<noteq> []" using a by auto
  moreover have "(\<Sum>(f, pos, bs) \<leftarrow> unpack (a # vs) buf. 16 + length bs) = 16 * length (a # vs) + length buf"
    using IH(1) a(2) by simp
  ultimately show ?case using IH(2) by (auto; force)
qed simp

definition vec_ok :: "ubik_trans \<Rightarrow> bool" where
  "vec_ok tt \<longleftrightarrow> iovec_ok tt \<and>
     (\<forall>v \<in> set (iovec_info tt). 0 \<le> iofile v \<and> fits32 (iofile v) \<and> 0 \<le> ioposition v \<and> fits32 (ioposition v))"

lemma vec_ok_records:
  assumes "vec_ok tt"
  shows "\<forall>(f, pos, bs) \<in> set (unpack (iovec_info tt) (iovec_data tt)). rec_ok (LData f pos bs) \<and> bs \<noteq> []"
    and "length (encs [LNew]) + (\<Sum>(f, pos, bs) \<leftarrow> unpack (iovec_info tt) (iovec_data tt). 16 + length bs) < 2147483648"
proof -
  have v: "\<forall>v \<in> set (iovec_info tt). 0 < iolength v" "sum_list (map iolength (iovec_info tt)) = int (length (iovec_data tt))"
    "length (iovec_info tt) \<le> 64" "length (iovec_data tt) \<le> 65536" using assms by (auto simp: vec_ok_def iovec_ok_def)
  have U: "(\<Sum>(f, pos, bs) \<leftarrow> unpack (iovec_info tt) (iovec_data tt). 16 + length bs) = 16 * length (iovec_info tt) + length (iovec_data tt)"
    "\<And>f pos bs. (f, pos, bs) \<in> set (unpack (iovec_info tt) (iovec_data tt)) \<Longrightarrow> bs \<noteq> [] \<and> length bs \<le> length (iovec_data tt) \<and>
      (\<exists>v \<in> set (iovec_info tt). f = iofile v \<and> pos = ioposition v)" using unpack_size[OF v(1,2)] by auto
  show "\<forall>(f, pos, bs) \<in> set (unpack (iovec_info tt) (iovec_data tt)). rec_ok (LData f pos bs) \<and> bs \<noteq> []"
    using U(2) v(4) assms by (fastforce simp: vec_ok_def fits32_def)
  show "length (encs [LNew]) + (\<Sum>(f, pos, bs) \<leftarrow> unpack (iovec_info tt) (iovec_data tt). 16 + length bs) < 2147483648"
    using U(1) v(3,4) by (simp add: htonl_bytes_def)
qed

text \<open>The handlers, for the transaction of the caller.\<close>

lemma CheckTid_same:
  "currentTrans s = Some u \<Longrightarrow> tid (tr (db s) u) = atid \<Longrightarrow> urecovery_CheckTid s atid False = (UOK, s)"
  by (simp add: urecovery_CheckTid_def Let_def)

lemma with_current_same:
  assumes "currentTrans s = Some u" and "tid (tr (db s) u) = atid" and "ttype (tr (db s) u) = UBIK_WRITETRANS"
  shows "with_current (return UOK) atid k s = k u s"
  using assms by (simp add: with_current_def return_def andthen_def CheckTid_same)

text \<open>
  C6: the sync site and a server that take the same writes end with the same database.
  The vector of writes that \<^verbatim>\<open>ubik_Flush\<close> sends is unpacked by \<^verbatim>\<open>SDISK_WriteV\<close> into the very writes
  that were done at the sync site; if both begin from the same contents and both
  commit, the files, the page caches and the logs of both show the same contents.
\<close>

theorem replica_agrees:
  assumes "in_trans D [LNew] d" and "writer d t" and "faults (dphys d) = []"
    and "in_trans D [LNew] (db r)" and "writer (db r) u" and "faults (dphys (db r)) = []"
    and "currentTrans r = Some u" and "tid (tr (db r) u) = atid" and "vec_ok tt"
    and "write_all t (unpack (iovec_info tt) (iovec_data tt)) d = (UOK, d1)"
    and "SDISK_WriteV UOK atid (iovec_info tt) (iovec_data tt) r = (UOK, r1)"
    and "commit_local d1 t = (UOK, d2)" and "commit_local (db r1) u = (UOK, e2)"
  shows "\<exists>E. idle E d2 \<and> idle E e2"
proof -
  let ?ws = "unpack (iovec_info tt) (iovec_data tt)"
  let ?R = "[LNew] @ map (\<lambda>(f, pos, bs). LData f pos bs) ?ws"
  note V = vec_ok_records[OF assms(9)]
  have v: "\<forall>v \<in> set (iovec_info tt). 0 \<le> iolength v" "sum_list (map iolength (iovec_info tt)) = int (length (iovec_data tt))"
    "length (iovec_data tt) < 4294967296"
    using assms(9) by (auto simp: vec_ok_def iovec_ok_def intro: less_imp_le)
  have "SDISK_WriteV UOK atid (iovec_info tt) (iovec_data tt) r = on_db (write_all u ?ws) r"
    using with_current_same[OF assms(7,8)] assms(5) writev_loop_unpack[OF v(1) order_refl, of "iovec_data tt" u r] v(2,3)
    by (simp add: SDISK_WriteV_def authorized_def writer_def)
  then have w: "write_all u ?ws (db r) = (UOK, db r1)" using assms(11) on_db_db by metis
  have d: "in_trans D ?R d1" "activeTruncs (tr d1 t) = []"
    using write_all_trans[OF assms(10,1,2,3) V] by (auto simp: writer_def)
  have e: "in_trans D ?R (db r1)" "activeTruncs (tr (db r1) u) = []"
    using write_all_trans[OF w assms(4,5,6) V] by (auto simp: writer_def)
  show ?thesis using commit_local_outcome[OF d assms(12)] commit_local_outcome[OF e assms(13)] by auto
qed

text \<open>
  C22: a write by the application is done locally at the current position and added at the
  end of the vector, after a flush if there was no room for it; and the position
  moves on by its length.
\<close>

theorem ubik_Write_collects:
  assumes "ubik_Write1 rpc mem t buf now s = (UOK, s')" and "iovec_ok (tr (db s) t)" and "iovec_alloc (tr (db s) t)"
    and "buf \<noteq> []" and "ttype (tr (db s) t) = UBIK_WRITETRANS"
  shows "\<exists>s0 d. (s0 = s \<or> ubik_Flush rpc t now s = (UOK, s0)) \<and>
    udisk_write (db s0) t (seekFile (tr (db s0) t)) buf (seekPos (tr (db s0) t)) = (UOK, d) \<and>
    dphys (db s') = dphys d \<and> dcache (db s') = dcache d \<and>
    unpack (iovec_info (tr (db s') t)) (iovec_data (tr (db s') t)) =
      unpack (iovec_info (tr (db s0) t)) (iovec_data (tr (db s0) t)) @ [(seekFile (tr (db s0) t), seekPos (tr (db s0) t), buf)] \<and>
    seekPos (tr (db s') t) = seekPos (tr (db s0) t) + int (length buf)"
proof -
  obtain c s0 where f: "write_flush rpc t (length buf) now s = (c, s0)" by fastforce
  have wl: "c = UOK" "write_local t buf now s0 = (UOK, s')"
    using assms(1,3-5) f by (auto simp: ubik_Write1_def Let_def split: if_splits)
  have s0: "s0 = s \<or> ubik_Flush rpc t now s = (UOK, s0)"
    using f wl(1) by (auto simp: write_flush_def Let_def split: if_splits)
  then have ok: "iovec_ok (tr (db s0) t)" using assms(2) flush_iovec(1) by auto
  obtain ok1 s1 where m: "may_write t now s0 = (ok1, s1)" by fastforce
  have "ok1 = UOK" using wl(2) m by (auto simp: write_local_def split: if_splits)
  then have s1: "s1 = s0" using may_write_OK(1) m by auto
  let ?tt = "tr (db s0) t"
  obtain c2 d where u: "udisk_write (db s0) t (seekFile ?tt) buf (seekPos ?tt) = (c2, d)" by fastforce
  have s': "c2 = UOK" "s' = upd_tr t (\<lambda>tt. tt\<lparr>
      iovec_info := iovec_info tt @ [\<lparr>iofile = seekFile tt, ioposition = seekPos tt, iolength = int (length buf)\<rparr>],
      iovec_data := iovec_data tt @ buf, seekPos := seekPos tt + int (length buf)\<rparr>) (s0\<lparr>db := d\<rparr>)"
    using wl(2) m s1 \<open>ok1 = UOK\<close> u by (auto simp: write_local_def Let_def on_db_def split: if_splits elim!: andthen_OK)
  note U = udisk_write_iovec[OF u]
  have "unpack (iovec_info ?tt @ [\<lparr>iofile = seekFile ?tt, ioposition = seekPos ?tt, iolength = int (length buf)\<rparr>]) (iovec_data ?tt @ buf) =
      unpack (iovec_info ?tt) (iovec_data ?tt) @ [(seekFile ?tt, seekPos ?tt, buf)]"
    using unpack_append[of "iovec_info ?tt" "iovec_data ?tt"] ok by (simp add: iovec_ok_def less_imp_le)
  then show ?thesis using s0 u U s' by (intro exI[of _ s0] exI[of _ d]) (simp add: upd_tr_def upd_trans_def)
qed

section \<open>Copies of a database\<close>

lemma getfile_loop_quiet:
  assumes "faults p = []" and "0 \<le> offset" and "nat offset + nat alen + 64 \<le> length (files p f)" and "0 < chunk"
  shows "getfile_loop chunk p f offset alen [] out = (UOK, out @ take (nat alen) (drop (nat offset + 64) (files p f)), p)"
  using assms
proof (induction "nat alen" arbitrary: offset alen out rule: less_induct)
  case (less alen offset out)
  show ?case
  proof (cases "alen \<le> 0")
    case True
    then show ?thesis by (subst getfile_loop.simps) simp
  next
    case False
    define t where "t = min alen (int chunk)"
    let ?bs = "take (nat t) (drop (nat offset + 64) (files p f))"
    have t: "0 < t" "t \<le> alen" using False less(5) by (auto simp: t_def)
    have len: "length ?bs = nat t" using less(4) t by simp
    have n: "nat (offset + 64) = nat offset + 64" using less(3) by simp
    have rd: "uphys_read p f offset (nat t) = (t, ?bs, p)"
      using less(2,3) len t by (simp add: uphys_read_def io_step_def pread_def n)
    have IH: "getfile_loop chunk p f (offset + t) (alen - t) [] (out @ ?bs) =
        (UOK, (out @ ?bs) @ take (nat (alen - t)) (drop (nat (offset + t) + 64) (files p f)), p)"
      using less(1)[of "alen - t" "offset + t" "out @ ?bs"] less(2-5) t by simp
    have "take (nat alen) (drop (nat offset + 64) (files p f)) = ?bs @ take (nat (alen - t)) (drop (nat (offset + t) + 64) (files p f))"
    proof -
      have a: "nat alen = nat t + nat (alen - t)" and b: "nat (offset + t) + 64 = nat t + (nat offset + 64)" using t less(3) by auto
      show ?thesis by (subst a, subst b) (simp add: take_add)
    qed
    then show ?thesis using IH False less(5) rd by (subst getfile_loop.simps) (simp add: rx_step_def flip: t_def)
  qed
qed

lemma receive_loop_quiet:
  assumes "faults p = []" and "length stream = nat alen" and "tmp = [] \<or> 64 \<le> length tmp"
  shows "receive_loop p stream alen tmp =
    (Inr (if stream = [] then tmp else (if tmp = [] then replicate 64 0 else tmp) @ stream, []), p)"
  using assms
proof (induction "nat alen" arbitrary: stream alen tmp rule: less_induct)
  case (less alen stream tmp)
  show ?case
  proof (cases "alen \<le> 0")
    case True
    then show ?thesis using less(3) by (subst receive_loop.simps) simp
  next
    case False
    define n where "n = nat (min alen 1024)"
    let ?tmp = "if tmp = [] then replicate 64 0 @ take n stream else tmp @ take n stream"
    have t: "0 < n" "n \<le> length stream" "nat (alen - int n) = length (drop n stream)" using False less(3) by (auto simp: n_def)
    have IH: "receive_loop p (drop n stream) (alen - int n) ?tmp =
       (Inr (if drop n stream = [] then ?tmp else (if ?tmp = [] then replicate 64 0 else ?tmp) @ drop n stream, []), p)"
      by (rule less(1)) (use False less(2,4) t in auto)
    have "take n stream @ drop n stream = stream" by simp
    then show ?thesis using IH False t less(2) by (subst receive_loop.simps) (auto simp: io_step_def Let_def simp flip: n_def)
  qed
qed

text \<open>
  C8: a database survives the trip over the network: what \<^verbatim>\<open>SDISK_GetFile\<close> sends (the length, and
  the file in pieces of 256 bytes) is what the receiver, reading pieces of 1024 bytes into its
  temporary file, ends up with, byte for byte, and nothing of it is left unread.
\<close>

theorem copied_database:
  assumes "SDISK_GetFile UOK f [] s = (UOK, out, v, s1)" and "faults (dphys (db s)) = []"
    and "length (files (dphys (db s)) f) < 2147483648" and "faults q = []"
  shows "\<exists>tmp. receive_loop q (drop 4 out) (ntohl_bytes (take 4 out)) [] = (Inr (tmp, []), q) \<and>
    (\<forall>k. fbyte tmp (k + 64) = disk_byte (dphys (db s)) f k)"
proof -
  let ?p = "dphys (db s)" and ?F = "files (dphys (db s)) f"
  define size where "size = length ?F - 64"
  define data where "data = take size (drop 64 ?F)"
  have st: "uphys_stat ?p f = (UOK, int size, ?p)" using assms(2) by (auto simp: uphys_stat_def io_step_def size_def)
  have gl: "getfile_loop 256 ?p f 0 (int size) [] (htonl_bytes (int size)) = (UOK, htonl_bytes (int size) @ data, ?p)"
  proof (cases "size = 0")
    case True
    then show ?thesis by (subst getfile_loop.simps) (simp add: data_def)
  next
    case False
    then have "size + 64 \<le> length ?F" by (simp add: size_def)
    then show ?thesis using getfile_loop_quiet[OF assms(2), of 0 "int size" f 256] by (simp add: data_def)
  qed
  have out: "out = htonl_bytes (int size) @ data"
    using assms(1) st gl by (auto simp: SDISK_GetFile_def rx_step_def split: prod.splits)
  have dl: "length data = size" by (simp add: data_def size_def)
  have "fits32 (int size)" using assms(3) by (auto simp: fits32_def size_def)
  then have n: "ntohl_bytes (take 4 out) = int size" "drop 4 out = data" using out by simp_all
  have "fbyte (if data = [] then [] else replicate 64 0 @ data) (k + 64) = disk_byte ?p f k" for k
    by (auto simp: fbyte_def disk_byte_def data_def size_def nth_append add.commute)
  then show ?thesis using receive_loop_quiet[OF assms(4), of data "int size" "[]"] n dl by auto
qed

section \<open>Failing copies\<close>

lemma setlabel_data: "uphys_setlabel p f v = (code, p') \<Longrightarrow> disk_byte p' g k = disk_byte p g k"
proof -
  assume "uphys_setlabel p f v = (code, p')"
  moreover have "fbyte (pwrite (files p f) 0 (hdr_bytes v)) (k + 64) = fbyte (files p f) (k + 64)"
    by (simp add: fbyte_pwrite hdr_bytes_def)
  ultimately show ?thesis
    by (auto simp: uphys_setlabel_def io_step_def set_file_def fsync_def disk_byte_def Let_def split: list.splits if_splits)
qed

lemma receive_loop_files:
  "receive_loop p stream alen tmp = (r, p') \<Longrightarrow> files p' = files p"
proof (induction "nat alen" arbitrary: p stream alen tmp rule: less_induct)
  case less
  show ?case
  proof (cases "alen \<le> 0")
    case True
    then show ?thesis using less(2) by (subst (asm) receive_loop.simps) simp
  next
    case False
    define n where "n = nat (min alen 1024)"
    obtain bad p1 where io: "io_step p = (bad, p1)" by fastforce
    have f: "files p1 = files p" using io by (auto simp: io_step_def split: list.splits)
    have n: "0 < n" using False by (simp add: n_def)
    show ?thesis
      using less(2) False io f less(1)[of "alen - int n" p1 "drop n stream"] n
      by (subst (asm) receive_loop.simps) (auto simp: Let_def simp flip: n_def split: if_splits)
  qed
qed

text \<open>
  C28: after a copy that failed at the renaming of the new file, the server holds the old
  data under the new version: \<^verbatim>\<open>SDISK_SendFile\<close> notes the version of the sync site's database whether
  or not the file was replaced.  As long as the sync site's beacons announce that
  version, the server takes its database for current, and serves the old data.
\<close>

theorem failed_copy_taken_for_current:
  assumes "receive_loop (dphys (db s)) stream alen [] = (Inr (tmp, rest), p)" and "faults p = False # True # fs"
    and "dbVersion s = avers" and "lastYesState s" and "now \<le> lastYesClaim s + SMALLTIME"
  shows "\<exists>s'. SendFile_receive 0 alen avers stream junk s = (UERR ESYSCALL, s') \<and>
    disk_byte (dphys (db s')) = disk_byte (dphys (db s)) \<and> fst (urecovery_AllBetter s' now False)"
proof -
  define p2 where "p2 = p\<lparr>faults := fs\<rparr>"
  obtain c p3 where l: "uphys_setlabel p2 0 \<lparr>epoch = 0, counter = junk\<rparr> = (c, p3)" by fastforce
  define s' where "s' = set_phys p3 (invalidate 0 (set_version avers (set_phys p2 s)))"
  have r: "SendFile_receive 0 alen avers stream junk s = (UERR ESYSCALL, s')"
    using assms(1,2) l by (simp add: SendFile_receive_def io_step_def install_file_def SendFile_failed_def p2_def s'_def
        set_phys_def set_version_def invalidate_def)
  have "disk_byte p3 = disk_byte p2" using setlabel_data[OF l] by (intro ext) simp
  also have "\<dots> = disk_byte (dphys (db s))" using receive_loop_files[OF assms(1)] by (simp add: disk_byte_def p2_def fun_eq_iff)
  finally have d: "disk_byte (dphys (db s')) = disk_byte (dphys (db s))"
    by (simp add: s'_def set_phys_def invalidate_def set_version_def)
  obtain am s1 where a: "ubeacon_AmSyncSite s' now = (am, s1)" by fastforce
  have "db s1 = db s'" using AmSyncSite_keeps(1)[of s' now] a by simp
  moreover have "dbVersion s1 = dbVersion s'" "lastYesState s1 = lastYesState s'" "lastYesClaim s1 = lastYesClaim s'"
    using a by (auto simp: ubeacon_AmSyncSite_def amSyncSite_def urecovery_ResetState_def Let_def split: if_splits)
  ultimately have "fst (urecovery_AllBetter s' now False)"
    using assms(3-5) a by (auto simp: urecovery_AllBetter_def uvote_HaveSyncAndVersion_def s'_def set_phys_def invalidate_def set_version_def)
  then show ?thesis using r d by blast
qed

lemma SendFile_receive_broken:
  assumes "SendFile_receive f alen avers stream junk s = (UERR BULK_ERROR, s')"
  shows "version (db s') = version (db s)"
proof -
  obtain r p where rl: "receive_loop (dphys (db s)) stream alen [] = (r, p)" by fastforce
  have i: "install_file p1 f tmp avers \<noteq> (UERR BULK_ERROR, p2)" for p1 tmp p2
    by (auto simp: install_file_def uphys_setlabel_def Let_def split: prod.splits if_splits)
  show ?thesis
    using assms rl i by (auto simp: SendFile_receive_def SendFile_failed_def set_phys_def Let_def split: sum.splits prod.splits if_splits)
qed

text \<open>
  C29: after a copy that broke off, reads are refused, even those that accept any version:
  \<^verbatim>\<open>SDISK_SendFile\<close> says it allows them again, but leaves the epoch of the database at 0.
\<close>

theorem broken_copy_refuses_reads:
  assumes "SDISK_SendFile UOK caller f alen avers stream junk now s = (UERR BULK_ERROR, s')"
  shows "\<not> fst (urecovery_AllBetter s' now' True)"
proof -
  obtain x where "SendFile_receive f alen avers stream junk (set_version \<lparr>epoch = 0, counter = junk\<rparr> x) = (UERR BULK_ERROR, s')"
    using assms by (auto simp: SDISK_SendFile_def authorized_def SendFile_failed_def Let_def
        split: if_splits prod.splits elim!: andthen_cases)
  from SendFile_receive_broken[OF this] show ?thesis by (simp add: urecovery_AllBetter_def set_version_def)
qed

section \<open>Small runs\<close>

definition demo_vec :: ubik_trans where
  "demo_vec = (new_trans UBIK_WRITETRANS)\<lparr>iovec_info := [\<lparr>iofile = 0, ioposition = 5, iolength = 1\<rparr>], iovec_data := [9]\<rparr>"

definition demo_replica :: site where
  "demo_replica = (small_site demo_begun)\<lparr>currentTrans := Some 0\<rparr>"

lemma demo_begun_trans: "tr demo_begun 0 = new_trans UBIK_WRITETRANS"
  by code_simp

theorem replica_agrees_witness:
  "\<exists>E. idle E (snd (commit_local demo_written 0)) \<and>
     idle E (snd (commit_local (db (snd (SDISK_WriteV UOK \<lparr>tepoch = 0, tcounter = 0\<rparr> (iovec_info demo_vec) (iovec_data demo_vec) demo_replica))) 0))"
proof -
  have t: "in_trans zeros [LNew] demo_begun" using begin_ok(1)[OF demo_idle demo_begin] by simp
  have r: "db demo_replica = demo_begun" "currentTrans demo_replica = Some 0" by (simp_all add: demo_replica_def)
  have v: "vec_ok demo_vec" by (simp add: vec_ok_def iovec_ok_def demo_vec_def fits32_def)
  have w: "write_all 0 (unpack (iovec_info demo_vec) (iovec_data demo_vec)) demo_begun = (UOK, demo_written)"
    using demo_write by (simp add: demo_vec_def)
  have td: "tid (tr demo_begun 0) = \<lparr>tepoch = 0, tcounter = 0\<rparr>" by (simp add: demo_begun_trans new_trans_def)
  have s: "SDISK_WriteV UOK \<lparr>tepoch = 0, tcounter = 0\<rparr> (iovec_info demo_vec) (iovec_data demo_vec) demo_replica =
      (UOK, demo_replica\<lparr>db := demo_written\<rparr>)"
    using with_current_same[OF r(2), of "\<lparr>tepoch = 0, tcounter = 0\<rparr>" "\<lambda>t. writev_loop t (iovec_info demo_vec) (iovec_data demo_vec) 0"] r td demo_write
    by (simp add: SDISK_WriteV_def authorized_def demo_vec_def on_db_def demo_begun_trans new_trans_def)
  obtain d2 where c: "commit_local demo_written 0 = (UOK, d2)" using demo_commit_code by (metis prod.collapse)
  have "\<exists>E. idle E d2 \<and> idle E d2"
    using replica_agrees[OF t demo_begun_writer, of demo_replica 0 "\<lparr>tepoch = 0, tcounter = 0\<rparr>" demo_vec demo_written _ d2 d2]
      t demo_begun_writer r td v w s c by simp
  then show ?thesis using s c by simp
qed

theorem ubik_Write_collects_witness:
  "unpack (iovec_info (tr (db (snd (ubik_Write1 (\<lambda>_ _. UOK) True 0 [9] 101 (small_site (upd_trans demo_begun 0 (\<lambda>tt. tt\<lparr>iovec_alloc := True\<rparr>)))))) 0))
     (iovec_data (tr (db (snd (ubik_Write1 (\<lambda>_ _. UOK) True 0 [9] 101 (small_site (upd_trans demo_begun 0 (\<lambda>tt. tt\<lparr>iovec_alloc := True\<rparr>)))))) 0)) =
   [(0, 0, [9])]"
proof -
  let ?d0 = "upd_trans demo_begun 0 (\<lambda>tt. tt\<lparr>iovec_alloc := True\<rparr>)"
  let ?r = "ubik_Write1 (\<lambda>_ _. UOK) True 0 [9] 101 (small_site ?d0)"
  have u: "fst (udisk_write ?d0 0 0 [9] 0) = UOK" by code_simp
  have d0: "tr ?d0 0 = (new_trans UBIK_WRITETRANS)\<lparr>iovec_alloc := True\<rparr>" by (simp add: upd_trans_def demo_begun_trans)
  have "?r = write_local 0 [9] 101 (small_site ?d0)"
    using d0 by (simp add: ubik_Write1_def write_flush_def new_trans_def)
  moreover have "fst (write_local 0 [9] 101 (small_site ?d0)) = UOK"
    using u d0 small_may_write[of 101 ?d0 0]
    by (cases "udisk_write ?d0 0 0 [9] 0") (simp add: write_local_def new_trans_def andthen_def on_db_def)
  ultimately have r: "?r = (UOK, snd ?r)" by (metis prod.collapse)
  have fl: "ubik_Flush (\<lambda>_ _. UOK) 0 101 (small_site ?d0) = (UOK, s0) \<Longrightarrow> s0 = small_site ?d0" for s0
    using d0 by (simp add: ubik_Flush_def new_trans_def)
  show ?thesis
    using ubik_Write_collects[OF r] d0 fl by (auto simp: iovec_ok_def new_trans_def)
qed

theorem copied_database_witness:
  "\<exists>tmp. receive_loop demo_phys [7, 8] 2 [] = (Inr (tmp, []), demo_phys) \<and> fbyte tmp 65 = 8"
proof -
  let ?s = "small_site (demo_db\<lparr>dphys := demo_phys\<lparr>files := (\<lambda>_. replicate 64 0 @ [7, 8])\<rparr>\<rparr>)"
  obtain v s1 where g: "SDISK_GetFile UOK 0 [] ?s = (UOK, [0, 0, 0, 2, 7, 8], v, s1)"
  proof -
    have "fst (SDISK_GetFile UOK 0 [] ?s) = UOK" "fst (snd (SDISK_GetFile UOK 0 [] ?s)) = [0, 0, 0, 2, 7, 8]" by code_simp+
    then show thesis using that by (metis prod.collapse)
  qed
  have n: "ntohl_bytes [0, 0, 0, 2] = 2" by code_simp
  have f: "faults (dphys (db ?s)) = []" "length (files (dphys (db ?s)) 0) < 2147483648" "faults demo_phys = []"
    "disk_byte (dphys (db ?s)) 0 1 = 8"
    by (simp_all add: demo_phys_def disk_byte_def fbyte_def nth_append)
  obtain tmp where "receive_loop demo_phys [7, 8] 2 [] = (Inr (tmp, []), demo_phys)"
    "\<forall>k. fbyte tmp (k + 64) = disk_byte (dphys (db ?s)) 0 k"
    using copied_database[OF g f(1-3)] n by auto
  moreover from this(2)[rule_format, of 1] f(4) have "fbyte tmp 65 = 8" by simp
  ultimately show ?thesis by blast
qed

theorem failed_copy_taken_for_current_witness:
  "\<exists>s'. SendFile_receive 0 0 \<lparr>epoch = 5, counter = 9\<rparr> [] 0
      ((small_site (demo_db\<lparr>dphys := demo_phys\<lparr>faults := [False, True]\<rparr>\<rparr>))\<lparr>dbVersion := \<lparr>epoch = 5, counter = 9\<rparr>, lastYesState := True, lastYesClaim := 100\<rparr>) =
      (UERR ESYSCALL, s') \<and> fst (urecovery_AllBetter s' 120 False)"
proof -
  let ?s = "(small_site (demo_db\<lparr>dphys := demo_phys\<lparr>faults := [False, True]\<rparr>\<rparr>))\<lparr>dbVersion := \<lparr>epoch = 5, counter = 9\<rparr>, lastYesState := True, lastYesClaim := 100\<rparr>"
  have "receive_loop (dphys (db ?s)) [] 0 [] = (Inr ([], []), dphys (db ?s))" by (subst receive_loop.simps) simp
  from failed_copy_taken_for_current[OF this, of "[]" "\<lparr>epoch = 5, counter = 9\<rparr>" 120 0] show ?thesis by auto
qed

theorem broken_copy_refuses_reads_witness:
  "\<not> fst (urecovery_AllBetter (snd (SDISK_SendFile UOK 0x02000000 0 5 \<lparr>epoch = 5, counter = 9\<rparr> [] 0 100 (small_site demo_db))) 101 True)"
proof -
  let ?r = "SDISK_SendFile UOK 0x02000000 0 5 \<lparr>epoch = 5, counter = 9\<rparr> [] 0 100 (small_site demo_db)"
  have "fst ?r = UERR BULK_ERROR" by code_simp
  then have "?r = (UERR BULK_ERROR, snd ?r)" by (metis prod.collapse)
  from broken_copy_refuses_reads[OF this] show ?thesis .
qed

end
