(* ===== verification/Ubik_Recovery_Proofs.thy ===== *)
theory Ubik_Recovery_Proofs
  imports Ubik_Recovery Ubik_Replica
begin

text \<open>
  What recovery promises: a new sync site settles on a database at least as new as any
  that was committed; and what happens when the newest one cannot be installed.
\<close>

section \<open>The newest database\<close>

lemma vcmp_trans: "0 \<le> vcmp a b \<Longrightarrow> 0 \<le> vcmp b c \<Longrightarrow> 0 \<le> vcmp a c"
  by (auto simp: vcmp_def split: if_splits)

lemma vcmp_refl [simp]: "vcmp a a = 0"
  by (simp add: vcmp_def)

lemma vcmp_total: "\<not> 0 < vcmp a b \<Longrightarrow> 0 \<le> vcmp b a"
  by (auto simp: vcmp_def split: if_splits)

text \<open>The servers that say what they have.\<close>

definition telling :: "answers \<Rightarrow> site \<Rightarrow> nat \<Rightarrow> bool" where
  "telling ans s i \<longleftrightarrow> up (servers s ! i) \<and> \<not> isClone (servers s ! i) \<and> getVersion ans i \<noteq> None"

lemma ask_version_fold:
  assumes "fold (ask_version ans) [0..<n] (s, None, no_version, 0) = (s', best, bestv, ok)" and "n \<le> length (servers s)"
  shows "ok = int (card {i. i < n \<and> telling ans s i}) \<and> db s' = db s \<and> ubik_quorum s' = ubik_quorum s \<and>
    urecovery_state s' = urecovery_state s \<and> length (servers s') = length (servers s) \<and>
    (\<forall>i. n \<le> i \<longrightarrow> servers s' ! i = servers s ! i) \<and>
    (\<forall>i < n. \<forall>v. telling ans s i \<longrightarrow> getVersion ans i = Some v \<longrightarrow> 0 \<le> vcmp bestv v)"
  using assms
proof (induction n arbitrary: s' best bestv ok)
  case 0
  then show ?case by simp
next
  case (Suc n)
  obtain s1 b1 v1 o1 where f: "fold (ask_version ans) [0..<n] (s, None, no_version, 0) = (s1, b1, v1, o1)"
    by (metis prod_cases4)
  note IH = Suc(1)[OF f]
  have n: "n < length (servers s)" "n \<le> length (servers s)" using Suc(3) by auto
  have st: "ask_version ans n (s1, b1, v1, o1) = (s', best, bestv, ok)" using Suc(2) f by simp
  have same: "servers s1 ! n = servers s ! n" using IH n by simp
  have tl: "telling ans s n \<longleftrightarrow> up (servers s1 ! n) \<and> \<not> isClone (servers s1 ! n) \<and> getVersion ans n \<noteq> None"
    using same by (simp add: telling_def)
  have card: "card {i. i < Suc n \<and> telling ans s i} = card {i. i < n \<and> telling ans s i} + (if telling ans s n then 1 else 0)"
  proof -
    have e: "{i. i < Suc n \<and> telling ans s i} = {i. i < n \<and> telling ans s i} \<union> (if telling ans s n then {n} else {})"
      by (auto simp: less_Suc_eq)
    show ?thesis unfolding e by (subst card_Un_disjoint) auto
  qed
  show ?case
  proof (cases "telling ans s n")
    case False
    then have "s' = s1" "bestv = v1" "ok = o1" using st tl by (auto simp: ask_version_def Let_def split: if_splits option.splits)
    then show ?thesis using IH n card False by (auto simp: less_Suc_eq)
  next
    case True
    then obtain v where v: "getVersion ans n = Some v" by (auto simp: telling_def)
    have r: "s' = upd_server s1 n (\<lambda>ts. ts\<lparr>sversion := v\<rparr>)" "bestv = (if 0 < vcmp v v1 then v else v1)" "ok = o1 + 1"
      using st True tl v by (auto simp: ask_version_def Let_def split: if_splits)
    have "0 \<le> vcmp bestv v1" "0 \<le> vcmp bestv v" using r(2) vcmp_total[of v v1] by auto
    then have "\<forall>i < n. \<forall>u. telling ans s i \<longrightarrow> getVersion ans i = Some u \<longrightarrow> 0 \<le> vcmp bestv u"
      using IH n vcmp_trans by blast
    then show ?thesis using IH n card True r v \<open>0 \<le> vcmp bestv v\<close>
      by (auto simp: less_Suc_eq upd_server_def)
  qed
qed

section \<open>Majorities\<close>

definition majority :: "cell \<Rightarrow> u32 set \<Rightarrow> bool" where
  "majority cfg Q \<longleftrightarrow> Q \<subseteq> voters cfg \<and> int (card (voters cfg)) div 2 + 1 \<le> int (card Q)"

text \<open>A majority outweighs the cell, so majorities meet each other and the voters that elect.\<close>

lemma majority_electing: "majority cfg Q \<Longrightarrow> electing cfg Q"
  by (auto simp: majority_def electing_def weight_def)

interpretation commits: quorum_system "majority cfg" for cfg
  using voting.meet majority_electing by unfold_locales blast

text \<open>The servers a sync site has heard of, and itself.\<close>

definition heard :: "answers \<Rightarrow> site \<Rightarrow> u32 set" where
  "heard ans s = insert (hd (ubik_host s)) ((\<lambda>i. hd (addr (servers s ! i))) ` {i. i < length (servers s) \<and> telling ans s i})"

lemma heard_majority:
  assumes ok: "site_ok cfg h s" and v: "h \<in> voters cfg" and q: "ubik_quorum s = nServers s div 2 + 1"
    and c: "ubik_quorum s \<le> int (card {i. i < length (servers s) \<and> telling ans s i}) + 1"
  shows "majority cfg (heard ans s)"
proof -
  let ?I = "{i. i < length (servers s) \<and> telling ans s i}" and ?a = "\<lambda>i. hd (addr (servers s ! i))"
  have d: "distinct (map (hd \<circ> addr) (servers s))" "set (map (hd \<circ> addr) (servers s)) = hosts cfg - {h}"
    and h: "hd (ubik_host s) = h" and n: "nServers s = int (card (voters cfg))"
    and cl: "\<forall>ts \<in> set (servers s). isClone ts \<longleftrightarrow> hd (addr ts) \<notin> voters cfg" using ok by (auto simp: site_ok_def)
  have inj: "inj_on ?a ?I"
  proof (rule inj_onI)
    fix i j
    assume "i \<in> ?I" "j \<in> ?I" "?a i = ?a j"
    then show "i = j" using nth_eq_iff_index_eq[OF d(1), of i j] by simp
  qed
  have nh: "h \<notin> ?a ` ?I"
  proof
    assume "h \<in> ?a ` ?I"
    then obtain i where "i < length (servers s)" "h = ?a i" by auto
    then have "h \<in> set (map (hd \<circ> addr) (servers s))" by auto
    then show False using d(2) by auto
  qed
  have "card (heard ans s) = card ?I + 1" using nh inj by (simp add: heard_def h card_image)
  moreover have "?a ` ?I \<subseteq> voters cfg" using cl by (auto simp: telling_def)
  ultimately show ?thesis using c q n v h by (auto simp: majority_def heard_def)
qed

text \<open>
  C7: the database a new sync site settles on is not older than any that a majority has
  committed.  If every member of some majority holds a version at least \<open>w\<close> (each of
  them that is asked and answers says so, and so does the site's own label if it is one of them),
  then, once \<^verbatim>\<open>urecovery_Interact\<close> declares the best database found, the best version is at least \<open>w\<close>.
\<close>

theorem found_db_not_older:
  assumes "site_ok cfg h s" and "h \<in> voters cfg" and "ubik_quorum s = nServers s div 2 + 1" and "majority cfg Q"
    and "\<forall>i < length (servers s). \<forall>v. hd (addr (servers s ! i)) \<in> Q \<longrightarrow> getVersion ans i = Some v \<longrightarrow> 0 \<le> vcmp v w"
    and "h \<in> Q \<longrightarrow> 0 \<le> vcmp (version (db s)) w"
    and "RECFOUNDDB \<notin> urecovery_state s" and "find_best ans s r = (s', r')" and "RECFOUNDDB \<in> urecovery_state s'"
  shows "0 \<le> vcmp (bestDBVersion r') w"
proof -
  obtain s1 best bestv ok where f: "fold (ask_version ans) [0..<length (servers s)] (s, None, no_version, 0) = (s1, best, bestv, ok)"
    by (metis prod_cases4)
  note F = ask_version_fold[OF f le_refl]
  have q: "ubik_quorum s \<le> ok + 1"
    using assms(7-9) f F by (auto simp: find_best_def Let_def split: if_splits)
  have best: "bestDBVersion r' = (if 0 \<le> vcmp (version (db s)) bestv then version (db s) else bestv)"
    using assms(8) f F q by (auto simp: find_best_def Let_def split: if_splits)
  have ge: "0 \<le> vcmp (bestDBVersion r') (version (db s))" "0 \<le> vcmp (bestDBVersion r') bestv"
    using best vcmp_total[of "version (db s)" bestv] by (auto simp: not_less split: if_splits)
  have m: "majority cfg (heard ans s)" using heard_majority[OF assms(1-3)] q F by simp
  obtain v where v: "v \<in> heard ans s" "v \<in> Q" using commits.common_member[OF m assms(4)] .
  have h: "hd (ubik_host s) = h" using assms(1) by (simp add: site_ok_def)
  consider "v = h" | i where "i < length (servers s)" "telling ans s i" "v = hd (addr (servers s ! i))"
    using v(1) h by (auto simp: heard_def)
  then show ?thesis
  proof cases
    case 1
    then show ?thesis using assms(6) v(2) ge(1) vcmp_trans by blast
  next
    case (2 i)
    then obtain u where u: "getVersion ans i = Some u" by (auto simp: telling_def)
    have "0 \<le> vcmp bestv u" using F 2 u by blast
    moreover have "0 \<le> vcmp u w" using assms(5) 2 u v(2) by blast
    ultimately show ?thesis using ge(2) vcmp_trans by blast
  qed
qed

section \<open>A fetch that fails late\<close>

lemma fetch_data_frame:
  assumes "fetch_data ans i junk s = (r, s')"
  shows "\<exists>p. disk_byte p = disk_byte (dphys (db s)) \<and> s' = set_phys p s"
proof -
  let ?v = "\<lparr>epoch = 0, counter = junk\<rparr>"
  have io: "io_step p = (b, p') \<Longrightarrow> disk_byte p' = disk_byte p" for p b p'
    by (auto simp: io_step_def disk_byte_def fun_eq_iff split: list.splits)
  have sl: "uphys_setlabel p 0 ?v = (c, p') \<Longrightarrow> disk_byte p' = disk_byte p" for p c p'
    using setlabel_data by (intro ext) blast
  have rl: "receive_loop p x l t = (y, p') \<Longrightarrow> disk_byte p' = disk_byte p" for p x l t y p'
    using receive_loop_files by (simp add: disk_byte_def fun_eq_iff)
  have s: "s = set_phys (dphys (db s)) s" by (simp add: set_phys_def)
  show ?thesis
    using assms s unfolding fetch_data_def
    by (auto simp: Let_def split: if_splits prod.splits sum.splits dest!: io sl rl)
qed

lemma send_db_quiet:
  assumes "faults (dphys (db s)) = []" and "k < length (servers s)" and "up (servers s ! k)"
    and "sendCall ans k = UOK" and "sendBreaks ans k = []"
  shows "send_db ans k (s, ok) = (upd_server s k (\<lambda>ts. ts\<lparr>sversion := version (db s), currentDB := True\<rparr>), ok)"
proof -
  let ?p = "dphys (db s)"
  have st: "uphys_stat ?p 0 = (UOK, max 0 (int (length (files ?p 0)) - 64), ?p)"
    using assms(1) by (auto simp: uphys_stat_def io_step_def)
  have gl: "\<exists>out. getfile_loop 1024 ?p 0 0 (max 0 (int (length (files ?p 0)) - 64)) [] [] = (UOK, out, ?p)"
  proof (cases "length (files ?p 0) \<le> 64")
    case True
    then show ?thesis by (subst getfile_loop.simps) simp
  next
    case False
    then show ?thesis using getfile_loop_quiet[OF assms(1), of 0 "int (length (files ?p 0)) - 64" 0 1024 "[]"] by (simp add: max_def)
  qed
  have v: "vcmp (sversion (servers s ! k)) (version (db s)) = 0 \<Longrightarrow>
      (servers s ! k)\<lparr>sversion := version (db s), currentDB := True\<rparr> = (servers s ! k)\<lparr>currentDB := True\<rparr>"
    by (cases "servers s ! k") (auto simp: vcmp_def split: if_splits)
  have p: "set_phys ?p s = s" by (simp add: set_phys_def)
  show ?thesis using assms st gl v p by (auto simp: send_db_def upd_server_def Let_def)
qed

lemma send_all_quiet:
  assumes "faults (dphys (db s)) = []" and "\<forall>k < length (servers s). up (servers s ! k) \<and> sendCall ans k = UOK \<and> sendBreaks ans k = []"
  shows "\<exists>s'. send_all ans s = s' \<and> db s' = db s \<and> RECSENTDB \<in> urecovery_state s' \<and>
    (\<forall>k < length (servers s). currentDB (servers s' ! k) \<and> sversion (servers s' ! k) = version (db s))"
proof -
  have "\<exists>s'. fold (send_db ans) [0..<n] (s, True) = (s', True) \<and> db s' = db s \<and> length (servers s') = length (servers s) \<and>
      (\<forall>k < n. currentDB (servers s' ! k) \<and> sversion (servers s' ! k) = version (db s)) \<and>
      (\<forall>k < length (servers s). up (servers s' ! k))" if "n \<le> length (servers s)" for n
    using that
  proof (induction n)
    case 0
    then show ?case using assms(2) by auto
  next
    case (Suc n)
    then obtain s1 where s1: "fold (send_db ans) [0..<n] (s, True) = (s1, True)" "db s1 = db s" "length (servers s1) = length (servers s)"
      "\<forall>k < n. currentDB (servers s1 ! k) \<and> sversion (servers s1 ! k) = version (db s)" "\<forall>k < length (servers s). up (servers s1 ! k)"
      by auto
    have "send_db ans n (s1, True) = (upd_server s1 n (\<lambda>ts. ts\<lparr>sversion := version (db s), currentDB := True\<rparr>), True)"
      using send_db_quiet[of s1 n ans True] s1 Suc(2) assms by simp
    then show ?case using s1 Suc(2) by (auto simp: upd_server_def nth_list_update less_Suc_eq)
  qed
  from this[OF le_refl] show ?thesis by (auto simp: send_all_def set_state_def)
qed

text \<open>
  C27: when the fetched database cannot be installed, the old one is sent to everyone.
  \<^verbatim>\<open>urecovery_Interact\<close> marks the database as present before the new file has been renamed; if the
  renaming fails it sets the version to 0.0 but leaves the mark, and goes on to send the
  file it has (the old one) as version 0.0 to all servers, including the one with the newest data.
\<close>

theorem failed_fetch_is_spread:
  assumes "bestServer r = Some i" and "RECHAVEDB \<notin> urecovery_state s" and "RECSENTDB \<notin> urecovery_state s"
    and "activeTrans (db s) = []" and "fetch_data ans i junk s = (Inr tmp, s1)" and "faults (dphys (db s1)) = [True]"
    and "\<forall>k < length (servers s). up (servers s ! k) \<and> sendCall ans k = UOK \<and> sendBreaks ans k = []"
  shows "\<exists>s'. recovery_own ans junk s r = (UOK, s') \<and> version (db s') = no_version \<and>
    disk_byte (dphys (db s')) = disk_byte (dphys (db s)) \<and>
    (\<forall>k < length (servers s). currentDB (servers s' ! k) \<and> sversion (servers s' ! k) = no_version)"
proof -
  obtain p0 where F: "disk_byte p0 = disk_byte (dphys (db s))" "s1 = set_phys p0 s" using fetch_data_frame[OF assms(5)] by blast
  define p where "p = p0\<lparr>faults := []\<rparr>"
  define s2 where "s2 = invalidate 0 (set_version no_version (set_phys p (set_version (snd (endGet ans i)) (set_state RECHAVEDB s1))))"
  have f0: "faults p0 = [True]" using assms(6) F(2) by (simp add: set_phys_def)
  have ab: "on_db urecovery_AbortAll s = (UOK, s)" using assms(4) by (simp add: on_db_def urecovery_AbortAll_def)
  have "install_file (dphys (db s1)) 0 tmp v = (UERR ESYSCALL, p)" for v
    using f0 F(2) by (simp add: install_file_def io_step_def p_def set_phys_def)
  then have fd: "fetch_db ans i junk s = (UOK, s2)"
    using assms(5) ab by (simp add: fetch_db_def andthen_def s2_def)
  have pd: "disk_byte p = disk_byte (dphys (db s))" using F(1) by (simp add: p_def disk_byte_def fun_eq_iff)
  have s2: "version (db s2) = no_version" "faults (dphys (db s2)) = []" "servers s2 = servers s"
    "urecovery_state s2 = insert RECHAVEDB (urecovery_state s)" "dphys (db s2) = p"
    unfolding s2_def F(2) by (simp_all add: p_def invalidate_def set_version_def set_phys_def set_state_def)
  obtain s' where s': "send_all ans s2 = s'" "db s' = db s2"
    "\<forall>k < length (servers s). currentDB (servers s' ! k) \<and> sversion (servers s' ! k) = version (db s2)"
    using send_all_quiet[of s2 ans] s2(2,3) assms(7) by auto
  have "recovery_own ans junk s r = (UOK, s')"
    using assms(1-3) fd s2(1,4) s'(1) by (simp add: recovery_own_def andthen_def relabel_new_def)
  then show ?thesis using s'(2,3) s2(1,5) pd by auto
qed

section \<open>Small runs\<close>

definition demo_answers :: answers where
  "demo_answers = \<lparr>probe_ok = (\<lambda>_ _. True), getVersion = (\<lambda>_. Some \<lparr>epoch = 6, counter = 1\<rparr>), startGet = (\<lambda>_. UOK),
     getStream = (\<lambda>_. [0, 0, 0, 0]), endGet = (\<lambda>_. (UOK, \<lparr>epoch = 6, counter = 1\<rparr>)), sendCall = (\<lambda>_. UOK), sendBreaks = (\<lambda>_. [])\<rparr>"

definition demo_recovery :: recovery where
  "demo_recovery = \<lparr>lastProbeTime = 0, bestServer = Some 0, bestDBVersion = \<lparr>epoch = 6, counter = 1\<rparr>\<rparr>"

theorem found_db_not_older_witness:
  "0 \<le> vcmp (bestDBVersion (snd (find_best demo_answers ((small_site demo_db)\<lparr>amIMagic := True\<rparr>) demo_recovery))) \<lparr>epoch = 5, counter = 7\<rparr>"
proof -
  let ?s = "(small_site demo_db)\<lparr>amIMagic := True\<rparr>"
  let ?cfg = "[(0x01000000, False), (0x02000000, False)] :: cell"
  have v: "voters ?cfg = {0x01000000, 0x02000000}" by (auto simp: voters_def)
  have n: "ntohl 0x01000000 = 1" "ntohl 0x02000000 = 2" "\<not> (2 :: u32) \<le> 1" by (simp_all add: ntohl_def word_le_nat_alt)
  have m: "is_magic ?cfg h \<longleftrightarrow> h = 0x01000000" for h using v n by (auto simp: is_magic_def)
  have so: "site_ok ?cfg 0x01000000 ?s"
    using v by (auto simp: site_ok_def m hosts_def small_site_def blank_site_def small_server_def)
  have mj: "majority ?cfg {0x01000000, 0x02000000}" using v by (simp add: majority_def)
  obtain s' r' where f: "find_best demo_answers ?s demo_recovery = (s', r')" by fastforce
  have st: "RECFOUNDDB \<in> urecovery_state (fst (find_best demo_answers ?s demo_recovery))" by code_simp
  have "0 \<le> vcmp (bestDBVersion r') \<lparr>epoch = 5, counter = 7\<rparr>"
    by (rule found_db_not_older[OF so _ _ mj _ _ _ f])
      (use v st f in \<open>auto simp: demo_answers_def small_site_def blank_site_def vcmp_def demo_db_def\<close>)
  then show ?thesis using f by simp
qed

theorem failed_fetch_is_spread_witness:
  "\<exists>s'. recovery_own demo_answers 0 ((small_site (demo_db\<lparr>dphys := demo_phys\<lparr>faults := [False, False, False, False, False, True]\<rparr>\<rparr>))\<lparr>urecovery_state := {RECSYNCSITE, RECFOUNDDB}\<rparr>) demo_recovery = (UOK, s') \<and>
     sversion (servers s' ! 0) = no_version"
proof -
  let ?s = "(small_site (demo_db\<lparr>dphys := demo_phys\<lparr>faults := [False, False, False, False, False, True]\<rparr>\<rparr>))\<lparr>urecovery_state := {RECSYNCSITE, RECFOUNDDB}\<rparr>"
  obtain tmp s1 where f: "fetch_data demo_answers 0 0 ?s = (Inr tmp, s1)" "faults (dphys (db s1)) = [True]"
  proof -
    have "fst (fetch_data demo_answers 0 0 ?s) = Inr []" "faults (dphys (db (snd (fetch_data demo_answers 0 0 ?s)))) = [True]" by code_simp+
    then show thesis using that by (metis prod.collapse)
  qed
  show ?thesis
    using failed_fetch_is_spread[of demo_recovery 0 ?s demo_answers 0 tmp s1] f
    by (auto simp: demo_recovery_def small_site_def blank_site_def small_server_def demo_answers_def demo_db_def)
qed

end
