(* ===== verification/Rxkad_Fcrypt.thy ===== *)
theory Rxkad_Fcrypt
  imports Prelude
begin

text \<open>
  The cipher of rxkad: the key schedule, one block and cipher block chaining of
  \<^verbatim>\<open>rxkad/fcrypt.c\<close>, and the encryption of a packet of \<^verbatim>\<open>rxkad/crypt_conn.c\<close>.

  A block is a pair of 32-bit words as they stand in memory on a little-endian host; a
  buffer is the list of the bytes from the pointer on.
\<close>

type_synonym block = "u32 \<times> u32"

section \<open>The tables\<close>

definition sbox0 :: "byte list" where
  "sbox0 = [
     0xea, 0x7f, 0xb2, 0x64, 0x9d, 0xb0, 0xd9, 0x11, 0xcd, 0x86, 0x86, 0x91, 0x0a, 0xb2, 0x93, 0x06,
     0x0e, 0x06, 0xd2, 0x65, 0x73, 0xc5, 0x28, 0x60, 0xf2, 0x20, 0xb5, 0x38, 0x7e, 0xda, 0x9f, 0xe3,
     0xd2, 0xcf, 0xc4, 0x3c, 0x61, 0xff, 0x4a, 0x4a, 0x35, 0xac, 0xaa, 0x5f, 0x2b, 0xbb, 0xbc, 0x53,
     0x4e, 0x9d, 0x78, 0xa3, 0xdc, 0x09, 0x32, 0x10, 0xc6, 0x6f, 0x66, 0xd6, 0xab, 0xa9, 0xaf, 0xfd,
     0x3b, 0x95, 0xe8, 0x34, 0x9a, 0x81, 0x72, 0x80, 0x9c, 0xf3, 0xec, 0xda, 0x9f, 0x26, 0x76, 0x15,
     0x3e, 0x55, 0x4d, 0xde, 0x84, 0xee, 0xad, 0xc7, 0xf1, 0x6b, 0x3d, 0xd3, 0x04, 0x49, 0xaa, 0x24,
     0x0b, 0x8a, 0x83, 0xba, 0xfa, 0x85, 0xa0, 0xa8, 0xb1, 0xd4, 0x01, 0xd8, 0x70, 0x64, 0xf0, 0x51,
     0xd2, 0xc3, 0xa7, 0x75, 0x8c, 0xa5, 0x64, 0xef, 0x10, 0x4e, 0xb7, 0xc6, 0x61, 0x03, 0xeb, 0x44,
     0x3d, 0xe5, 0xb3, 0x5b, 0xae, 0xd5, 0xad, 0x1d, 0xfa, 0x5a, 0x1e, 0x33, 0xab, 0x93, 0xa2, 0xb7,
     0xe7, 0xa8, 0x45, 0xa4, 0xcd, 0x29, 0x63, 0x44, 0xb6, 0x69, 0x7e, 0x2e, 0x62, 0x03, 0xc8, 0xe0,
     0x17, 0xbb, 0xc7, 0xf3, 0x3f, 0x36, 0xba, 0x71, 0x8e, 0x97, 0x65, 0x60, 0x69, 0xb6, 0xf6, 0xe6,
     0x6e, 0xe0, 0x81, 0x59, 0xe8, 0xaf, 0xdd, 0x95, 0x22, 0x99, 0xfd, 0x63, 0x19, 0x74, 0x61, 0xb1,
     0xb6, 0x5b, 0xae, 0x54, 0xb3, 0x70, 0xff, 0xc6, 0x3b, 0x3e, 0xc1, 0xd7, 0xe1, 0x0e, 0x76, 0xe5,
     0x36, 0x4f, 0x59, 0xc7, 0x08, 0x6e, 0x82, 0xa6, 0x93, 0xc4, 0xaa, 0x26, 0x49, 0xe0, 0x21, 0x64,
     0x07, 0x9f, 0x64, 0x81, 0x9c, 0xbf, 0xf9, 0xd1, 0x43, 0xf8, 0xb6, 0xb9, 0xf1, 0x24, 0x75, 0x03,
     0xe4, 0xb0, 0x99, 0x46, 0x3d, 0xf5, 0xd1, 0x39, 0x72, 0x12, 0xf6, 0xba, 0x0c, 0x0d, 0x42, 0x2e]"

definition sbox1 :: "byte list" where
  "sbox1 = [
     0x77, 0x14, 0xa6, 0xfe, 0xb2, 0x5e, 0x8c, 0x3e, 0x67, 0x6c, 0xa1, 0x0d, 0xc2, 0xa2, 0xc1, 0x85,
     0x6c, 0x7b, 0x67, 0xc6, 0x23, 0xe3, 0xf2, 0x89, 0x50, 0x9c, 0x03, 0xb7, 0x73, 0xe6, 0xe1, 0x39,
     0x31, 0x2c, 0x27, 0x9f, 0xa5, 0x69, 0x44, 0xd6, 0x23, 0x83, 0x98, 0x7d, 0x3c, 0xb4, 0x2d, 0x99,
     0x1c, 0x1f, 0x8c, 0x20, 0x03, 0x7c, 0x5f, 0xad, 0xf4, 0xfa, 0x95, 0xca, 0x76, 0x44, 0xcd, 0xb6,
     0xb8, 0xa1, 0xa1, 0xbe, 0x9e, 0x54, 0x8f, 0x0b, 0x16, 0x74, 0x31, 0x8a, 0x23, 0x17, 0x04, 0xfa,
     0x79, 0x84, 0xb1, 0xf5, 0x13, 0xab, 0xb5, 0x2e, 0xaa, 0x0c, 0x60, 0x6b, 0x5b, 0xc4, 0x4b, 0xbc,
     0xe2, 0xaf, 0x45, 0x73, 0xfa, 0xc9, 0x49, 0xcd, 0x00, 0x92, 0x7d, 0x97, 0x7a, 0x18, 0x60, 0x3d,
     0xcf, 0x5b, 0xde, 0xc6, 0xe2, 0xe6, 0xbb, 0x8b, 0x06, 0xda, 0x08, 0x15, 0x1b, 0x88, 0x6a, 0x17,
     0x89, 0xd0, 0xa9, 0xc1, 0xc9, 0x70, 0x6b, 0xe5, 0x43, 0xf4, 0x68, 0xc8, 0xd3, 0x84, 0x28, 0x0a,
     0x52, 0x66, 0xa3, 0xca, 0xf2, 0xe3, 0x7f, 0x7a, 0x31, 0xf7, 0x88, 0x94, 0x5e, 0x9c, 0x63, 0xd5,
     0x24, 0x66, 0xfc, 0xb3, 0x57, 0x25, 0xbe, 0x89, 0x44, 0xc4, 0xe0, 0x8f, 0x23, 0x3c, 0x12, 0x52,
     0xf5, 0x1e, 0xf4, 0xcb, 0x18, 0x33, 0x1f, 0xf8, 0x69, 0x10, 0x9d, 0xd3, 0xf7, 0x28, 0xf8, 0x30,
     0x05, 0x5e, 0x32, 0xc0, 0xd5, 0x19, 0xbd, 0x45, 0x8b, 0x5b, 0xfd, 0xbc, 0xe2, 0x5c, 0xa9, 0x96,
     0xef, 0x70, 0xcf, 0xc2, 0x2a, 0xb3, 0x61, 0xad, 0x80, 0x48, 0x81, 0xb7, 0x1d, 0x43, 0xd9, 0xd7,
     0x45, 0xf0, 0xd8, 0x8a, 0x59, 0x7c, 0x57, 0xc1, 0x79, 0xc7, 0x34, 0xd6, 0x43, 0xdf, 0xe4, 0x78,
     0x16, 0x06, 0xda, 0x92, 0x76, 0x51, 0xe1, 0xd4, 0x70, 0x03, 0xe0, 0x2f, 0x96, 0x91, 0x82, 0x80]"

definition sbox2 :: "byte list" where
  "sbox2 = [
     0xf0, 0x37, 0x24, 0x53, 0x2a, 0x03, 0x83, 0x86, 0xd1, 0xec, 0x50, 0xf0, 0x42, 0x78, 0x2f, 0x6d,
     0xbf, 0x80, 0x87, 0x27, 0x95, 0xe2, 0xc5, 0x5d, 0xf9, 0x6f, 0xdb, 0xb4, 0x65, 0x6e, 0xe7, 0x24,
     0xc8, 0x1a, 0xbb, 0x49, 0xb5, 0x0a, 0x7d, 0xb9, 0xe8, 0xdc, 0xb7, 0xd9, 0x45, 0x20, 0x1b, 0xce,
     0x59, 0x9d, 0x6b, 0xbd, 0x0e, 0x8f, 0xa3, 0xa9, 0xbc, 0x74, 0xa6, 0xf6, 0x7f, 0x5f, 0xb1, 0x68,
     0x84, 0xbc, 0xa9, 0xfd, 0x55, 0x50, 0xe9, 0xb6, 0x13, 0x5e, 0x07, 0xb8, 0x95, 0x02, 0xc0, 0xd0,
     0x6a, 0x1a, 0x85, 0xbd, 0xb6, 0xfd, 0xfe, 0x17, 0x3f, 0x09, 0xa3, 0x8d, 0xfb, 0xed, 0xda, 0x1d,
     0x6d, 0x1c, 0x6c, 0x01, 0x5a, 0xe5, 0x71, 0x3e, 0x8b, 0x6b, 0xbe, 0x29, 0xeb, 0x12, 0x19, 0x34,
     0xcd, 0xb3, 0xbd, 0x35, 0xea, 0x4b, 0xd5, 0xae, 0x2a, 0x79, 0x5a, 0xa5, 0x32, 0x12, 0x7b, 0xdc,
     0x2c, 0xd0, 0x22, 0x4b, 0xb1, 0x85, 0x59, 0x80, 0xc0, 0x30, 0x9f, 0x73, 0xd3, 0x14, 0x48, 0x40,
     0x07, 0x2d, 0x8f, 0x80, 0x0f, 0xce, 0x0b, 0x5e, 0xb7, 0x5e, 0xac, 0x24, 0x94, 0x4a, 0x18, 0x15,
     0x05, 0xe8, 0x02, 0x77, 0xa9, 0xc7, 0x40, 0x45, 0x89, 0xd1, 0xea, 0xde, 0x0c, 0x79, 0x2a, 0x99,
     0x6c, 0x3e, 0x95, 0xdd, 0x8c, 0x7d, 0xad, 0x6f, 0xdc, 0xff, 0xfd, 0x62, 0x47, 0xb3, 0x21, 0x8a,
     0xec, 0x8e, 0x19, 0x18, 0xb4, 0x6e, 0x3d, 0xfd, 0x74, 0x54, 0x1e, 0x04, 0x85, 0xd8, 0xbc, 0x1f,
     0x56, 0xe7, 0x3a, 0x56, 0x67, 0xd6, 0xc8, 0xa5, 0xf3, 0x8e, 0xde, 0xae, 0x37, 0x49, 0xb7, 0xfa,
     0xc8, 0xf4, 0x1f, 0xe0, 0x2a, 0x9b, 0x15, 0xd1, 0x34, 0x0e, 0xb5, 0xe0, 0x44, 0x78, 0x84, 0x59,
     0x56, 0x68, 0x77, 0xa5, 0x14, 0x06, 0xf5, 0x2f, 0x8c, 0x8a, 0x73, 0x80, 0x76, 0xb4, 0x10, 0x86]"

definition sbox3 :: "byte list" where
  "sbox3 = [
     0xa9, 0x2a, 0x48, 0x51, 0x84, 0x7e, 0x49, 0xe2, 0xb5, 0xb7, 0x42, 0x33, 0x7d, 0x5d, 0xa6, 0x12,
     0x44, 0x48, 0x6d, 0x28, 0xaa, 0x20, 0x6d, 0x57, 0xd6, 0x6b, 0x5d, 0x72, 0xf0, 0x92, 0x5a, 0x1b,
     0x53, 0x80, 0x24, 0x70, 0x9a, 0xcc, 0xa7, 0x66, 0xa1, 0x01, 0xa5, 0x41, 0x97, 0x41, 0x31, 0x82,
     0xf1, 0x14, 0xcf, 0x53, 0x0d, 0xa0, 0x10, 0xcc, 0x2a, 0x7d, 0xd2, 0xbf, 0x4b, 0x1a, 0xdb, 0x16,
     0x47, 0xf6, 0x51, 0x36, 0xed, 0xf3, 0xb9, 0x1a, 0xa7, 0xdf, 0x29, 0x43, 0x01, 0x54, 0x70, 0xa4,
     0xbf, 0xd4, 0x0b, 0x53, 0x44, 0x60, 0x9e, 0x23, 0xa1, 0x18, 0x68, 0x4f, 0xf0, 0x2f, 0x82, 0xc2,
     0x2a, 0x41, 0xb2, 0x42, 0x0c, 0xed, 0x0c, 0x1d, 0x13, 0x3a, 0x3c, 0x6e, 0x35, 0xdc, 0x60, 0x65,
     0x85, 0xe9, 0x64, 0x02, 0x9a, 0x3f, 0x9f, 0x87, 0x96, 0xdf, 0xbe, 0xf2, 0xcb, 0xe5, 0x6c, 0xd4,
     0x5a, 0x83, 0xbf, 0x92, 0x1b, 0x94, 0x00, 0x42, 0xcf, 0x4b, 0x00, 0x75, 0xba, 0x8f, 0x76, 0x5f,
     0x5d, 0x3a, 0x4d, 0x09, 0x12, 0x08, 0x38, 0x95, 0x17, 0xe4, 0x01, 0x1d, 0x4c, 0xa9, 0xcc, 0x85,
     0x82, 0x4c, 0x9d, 0x2f, 0x3b, 0x66, 0xa1, 0x34, 0x10, 0xcd, 0x59, 0x89, 0xa5, 0x31, 0xcf, 0x05,
     0xc8, 0x84, 0xfa, 0xc7, 0xba, 0x4e, 0x8b, 0x1a, 0x19, 0xf1, 0xa1, 0x3b, 0x18, 0x12, 0x17, 0xb0,
     0x98, 0x8d, 0x0b, 0x23, 0xc3, 0x3a, 0x2d, 0x20, 0xdf, 0x13, 0xa0, 0xa8, 0x4c, 0x0d, 0x6c, 0x2f,
     0x47, 0x13, 0x13, 0x52, 0x1f, 0x2d, 0xf5, 0x79, 0x3d, 0xa2, 0x54, 0xbd, 0x69, 0xc8, 0x6b, 0xf3,
     0x05, 0x28, 0xf1, 0x16, 0x46, 0x40, 0xb0, 0x11, 0xd3, 0xb7, 0x95, 0x49, 0xcf, 0xc3, 0x1d, 0x8f,
     0xd8, 0xe1, 0x73, 0xdb, 0xad, 0xc8, 0xc9, 0xa9, 0xa1, 0xc2, 0xc5, 0xe3, 0xba, 0xfc, 0x0e, 0x25]"

section \<open>The key schedule\<close>

text \<open>The seven key bits of a byte are shifted in below the ones that are there.\<close>

definition key_shift :: "u32 \<Rightarrow> byte \<Rightarrow> u32" where
  "key_shift k c = push_bit 7 k + ucast (drop_bit 1 c)"

text \<open>The two words of the key, low word first.\<close>

definition fc_kword :: "byte list \<Rightarrow> u32 \<times> u32" where
  "fc_kword key =
     (let k = foldl key_shift 0 (take 4 key)
      in (foldl key_shift (k AND 0xf) (take 4 (drop 4 key)), drop_bit 4 k))"

definition fc_rotate :: "u32 \<times> u32 \<Rightarrow> u32 \<times> u32" where
  "fc_rotate k =
     (let temp = fst k AND (push_bit 11 1 - 1)
      in (drop_bit 11 (fst k) OR push_bit (32 - 11) (snd k AND (push_bit 11 1 - 1)),
          drop_bit 11 (snd k) OR push_bit (56 - 32 - 11) temp))"

abbreviation ROUNDS :: nat where "ROUNDS \<equiv> 16"

fun schedule_from :: "nat \<Rightarrow> u32 \<times> u32 \<Rightarrow> u32 list" where
  "schedule_from 0 k = []"
| "schedule_from (Suc n) k = fst k # schedule_from n (fc_rotate k)"

definition fc_keysched :: "byte list \<Rightarrow> u32 list" where
  "fc_keysched key = schedule_from ROUNDS (fc_kword key)"

section \<open>One block\<close>

text \<open>The substitution, the permutation of the bytes, and the rotation by 5.\<close>

definition fc_round :: "u32 \<Rightarrow> u32 \<Rightarrow> u32" where
  "fc_round k x =
     (let S = k XOR x;
          P = word_of_bytes (sbox3 ! unat (word_byte S 3)) (sbox2 ! unat (word_byte S 2))
                (sbox0 ! unat (word_byte S 0)) (sbox1 ! unat (word_byte S 1))
      in drop_bit 5 P OR push_bit (32 - 5) (P AND (push_bit 5 1 - 1)))"

definition encrypt_step :: "u32 list \<Rightarrow> nat \<Rightarrow> block \<Rightarrow> block" where
  "encrypt_step schedule i b =
     (let L = fst b XOR fc_round (schedule ! (2 * i)) (snd b);
          R = snd b XOR fc_round (schedule ! (2 * i + 1)) L
      in (L, R))"

definition decrypt_step :: "u32 list \<Rightarrow> nat \<Rightarrow> block \<Rightarrow> block" where
  "decrypt_step schedule i b =
     (let R = snd b XOR fc_round (schedule ! (ROUNDS - 1 - 2 * i)) (fst b);
          L = fst b XOR fc_round (schedule ! (ROUNDS - 1 - (2 * i + 1))) R
      in (L, R))"

definition fc_ecb_encrypt :: "block \<Rightarrow> u32 list \<Rightarrow> bool \<Rightarrow> block" where
  "fc_ecb_encrypt clear schedule encrypt =
     (let (L, R) = fold (if encrypt then encrypt_step schedule else decrypt_step schedule) [0..<ROUNDS div 2]
                     (ntohl (fst clear), ntohl (snd clear))
      in (ntohl L, ntohl R))"

section \<open>Cipher block chaining\<close>

definition load32 :: "byte list \<Rightarrow> u32" where
  "load32 bs = word_of_bytes (fbyte bs 3) (fbyte bs 2) (fbyte bs 1) (fbyte bs 0)"

definition store32 :: "u32 \<Rightarrow> byte list" where
  "store32 w = [word_byte w 3, word_byte w 2, word_byte w 1, word_byte w 0]"

definition load_block :: "byte list \<Rightarrow> block" where
  "load_block bs = (load32 bs, load32 (drop 4 bs))"

definition store_block :: "block \<Rightarrow> byte list" where
  "store_block b = store32 (fst b) @ store32 (snd b)"

definition xor_block :: "block \<Rightarrow> block \<Rightarrow> block" where
  "xor_block a b = (fst a XOR fst b, snd a XOR snd b)"

text \<open>
  What is written to the output, and the vector for the next segment.  The last block is
  padded with zeros when it is encrypted, and written in full.
\<close>

function cbc_loop :: "byte list \<Rightarrow> int \<Rightarrow> u32 list \<Rightarrow> block \<Rightarrow> bool \<Rightarrow> byte list \<times> block" where
  "cbc_loop input alen key iv encrypt =
     (if alen \<le> 0 then ([], iv)
      else
        let t_input = load_block (if encrypt then take (nat alen) (take 8 input) else take 8 input);
            t_output = (if encrypt then fc_ecb_encrypt (xor_block iv t_input) key True
                        else xor_block (fc_ecb_encrypt t_input key False) iv);
            (rest, iv1) = cbc_loop (drop 8 input) (alen - 8) key (xor_block t_input t_output) encrypt
        in (store_block t_output @ rest, iv1))"
  by pat_completeness auto
termination
  by (relation "measure (\<lambda>(input, alen, key, iv, encrypt). nat alen)") auto

declare cbc_loop.simps [simp del]

text \<open>The output buffer is the input buffer: what lies behind the last block stays.\<close>

definition fc_cbc_encrypt :: "byte list \<Rightarrow> int \<Rightarrow> u32 list \<Rightarrow> block \<Rightarrow> bool \<Rightarrow> byte list \<times> block" where
  "fc_cbc_encrypt buf alen key iv encrypt =
     (let (out, iv1) = cbc_loop buf alen key iv encrypt
      in (out @ drop (length out) buf, iv1))"

section \<open>Packets\<close>

text \<open>
  The segments of the packet's vector with their lengths; a segment's buffer may be longer
  than its length.
\<close>

type_synonym segment = "byte list \<times> int"

fun crypt_segments :: "segment list \<Rightarrow> int \<Rightarrow> u32 list \<Rightarrow> block \<Rightarrow> bool \<Rightarrow> segment list" where
  "crypt_segments [] len key iv encrypt = []"
| "crypt_segments ((buf, tlen) # segs) len key iv encrypt =
     (if len = 0 \<or> tlen = 0 then (buf, tlen) # segs
      else let (out, iv1) = fc_cbc_encrypt buf (min len tlen) key iv encrypt
           in (out, tlen) # crypt_segments segs (len - min len tlen) key iv1 encrypt)"

text \<open>The four bytes of a word at an offset into the packet, in whichever segment it falls.\<close>

fun rx_PutInt32 :: "segment list \<Rightarrow> int \<Rightarrow> u32 \<Rightarrow> segment list" where
  "rx_PutInt32 [] offset w = []"
| "rx_PutInt32 ((buf, tlen) # segs) offset w =
     (if offset < tlen then (pwrite buf (nat offset) (store32 w), tlen) # segs
      else (buf, tlen) # rx_PutInt32 segs (offset - tlen) w)"

definition rxkad_EncryptPacket :: "u32 list \<Rightarrow> block \<Rightarrow> int \<Rightarrow> segment list \<Rightarrow> segment list" where
  "rxkad_EncryptPacket schedule ivec inlen packet =
     crypt_segments (rx_PutInt32 packet 4 0) inlen schedule ivec True"

definition rxkad_DecryptPacket :: "u32 list \<Rightarrow> block \<Rightarrow> int \<Rightarrow> segment list \<Rightarrow> segment list" where
  "rxkad_DecryptPacket schedule ivec inlen packet = crypt_segments packet inlen schedule ivec False"

section \<open>The schedule is a rotation of the 56 key bits\<close>

definition key56_step :: "56 word \<Rightarrow> byte \<Rightarrow> 56 word" where
  "key56_step k c = push_bit 7 k OR ucast (drop_bit 1 c)"

definition key56 :: "byte list \<Rightarrow> 56 word" where
  "key56 key = foldl key56_step 0 key"

lemma bit_key_shift: "bit (key_shift k c) n \<longleftrightarrow> n < 32 \<and> (if n < 7 then bit c (n + 1) else bit k (n - 7))"
proof -
  have "push_bit 7 k AND ucast (drop_bit 1 c) = 0"
    by (rule bit_word_eqI) (auto simp: bit_simps dest: bit_imp_le_length)
  then have "key_shift k c = push_bit 7 k OR ucast (drop_bit 1 c)"
    unfolding key_shift_def by (rule disjunctive_add_eq_or)
  then show ?thesis by (auto simp: bit_simps dest: bit_imp_le_length)
qed

lemma bit_key_shift4:
  "bit (foldl key_shift k [a, b, c, d]) n \<longleftrightarrow>
     n < 32 \<and> (if n < 7 then bit d (Suc n) else if n < 14 then bit c (Suc (n - 7)) else if n < 21 then bit b (Suc (n - 14))
       else if n < 28 then bit a (Suc (n - 21)) else bit k (n - 28))"
  by (auto simp: bit_key_shift)

lemma bit_key56_4:
  "bit (foldl key56_step k [a, b, c, d]) n \<longleftrightarrow>
     n < 56 \<and> (if n < 7 then bit d (Suc n) else if n < 14 then bit c (Suc (n - 7)) else if n < 21 then bit b (Suc (n - 14))
       else if n < 28 then bit a (Suc (n - 21)) else bit k (n - 28))"
proof -
  have step: "bit (key56_step k c) n \<longleftrightarrow> n < 56 \<and> (if n < 7 then bit c (n + 1) else bit k (n - 7))"
    for k c n
    by (auto simp: key56_step_def bit_simps dest: bit_imp_le_length)
  show ?thesis unfolding foldl_Cons foldl_Nil step by auto
qed

lemma fc_kword_key56:
  assumes "length key = 8"
  shows "fc_kword key = (ucast (key56 key), ucast (drop_bit 32 (key56 key)))"
proof -
  obtain a b c d e f g h where k: "key = [a, b, c, d] @ [e, f, g, h]"
    using assms by (auto simp: numeral_eq_Suc length_Suc_conv)
  have m: "(0xf :: u32) = mask 4" by (simp add: mask_eq_exp_minus_1)
  have "bit (fst (fc_kword key)) n = bit (ucast (key56 key) :: u32) n" for n
    unfolding k fc_kword_def key56_def Let_def foldl_append m
    by (auto simp: bit_key_shift4 bit_key56_4 bit_simps simp del: foldl_Cons)
  moreover have "bit (snd (fc_kword key)) n = bit (ucast (drop_bit 32 (key56 key)) :: u32) n" for n
    unfolding k fc_kword_def key56_def Let_def foldl_append
    by (auto simp: bit_key_shift4 bit_key56_4 bit_simps add.commute simp del: foldl_Cons)
  ultimately show ?thesis by (simp add: prod_eq_iff bit_eq_iff)
qed

lemma bit_rotr_11:
  fixes w :: "56 word"
  shows "bit (word_rotr 11 w) n \<longleftrightarrow> n < 56 \<and> bit w (if n < 45 then n + 11 else n - 45)"
proof -
  have "(n + 11) mod 56 = (if n < 45 then n + 11 else n - 45)" if "n < 56" using that by (simp add: mod_if)
  then show ?thesis by (auto simp: bit_word_rotr_iff)
qed

lemma fc_rotate_56:
  fixes w :: "56 word"
  shows "fc_rotate (ucast w, ucast (drop_bit 32 w)) = (ucast (word_rotr 11 w), ucast (drop_bit 32 (word_rotr 11 w)))"
proof -
  let ?r = "fc_rotate (ucast w, ucast (drop_bit 32 w))"
  have l: "LENGTH(32) = 32" by simp
  have m: "(push_bit 11 1 - 1 :: u32) = mask 11" by (simp add: mask_eq_exp_minus_1)
  have "bit (fst ?r) n = bit (ucast (word_rotr 11 w) :: u32) n" if "n < 32" for n
    using that unfolding fc_rotate_def Let_def m fst_conv snd_conv by (auto simp: bit_simps bit_rotr_11 add.commute simp del: bit_word_rotr_iff)
  moreover have "bit (snd ?r) n = bit (ucast (drop_bit 32 (word_rotr 11 w)) :: u32) n" if "n < 32" for n
    using that unfolding fc_rotate_def Let_def m fst_conv snd_conv
    by (cases "n < 13") (auto simp: bit_simps bit_rotr_11 add.commute simp del: bit_word_rotr_iff dest: bit_imp_le_length)
  ultimately have "fst ?r = ucast (word_rotr 11 w)" "snd ?r = ucast (drop_bit 32 (word_rotr 11 w))"
    using bit_word_eqI[of "fst ?r"] bit_word_eqI[of "snd ?r"] by (metis l)+
  then show ?thesis by (simp only: prod_eq_iff fst_conv snd_conv)
qed

lemma word_rotr_add: "word_rotr m (word_rotr n w) = word_rotr (n + m) w"
  by (rule bit_word_eqI) (simp add: bit_word_rotr_iff mod_simps ac_simps)

lemma word_rotr_0: "word_rotr 0 w = w"
  by (rule bit_word_eqI) (simp add: bit_word_rotr_iff)

lemma schedule_from_56:
  fixes w :: "56 word"
  assumes "i < n"
  shows "schedule_from n (ucast w, ucast (drop_bit 32 w)) ! i = ucast (word_rotr (11 * i) w)"
  using assms
proof (induction n arbitrary: i w)
  case (Suc n)
  show ?case
  proof (cases i)
    case (Suc j)
    then have "schedule_from n (ucast (word_rotr 11 w), ucast (drop_bit 32 (word_rotr 11 w))) ! j =
        ucast (word_rotr (11 * j) (word_rotr 11 w))"
      using Suc.IH Suc.prems by simp
    then show ?thesis using Suc by (simp add: fc_rotate_56 word_rotr_add)
  qed (simp add: word_rotr_0)
qed simp

lemma length_schedule_from [simp]: "length (schedule_from n k) = n"
  by (induction n arbitrary: k) simp_all

text \<open>
  C13: the sixteen keys of the schedule, computed with two words and masks, are the low words
  of the 56 key bits rotated right by 11 bits each time; the parity bit of each key byte plays
  no part.
\<close>

theorem fc_keysched_rotates:
  assumes "length key = 8" and "i < ROUNDS"
  shows "fc_keysched key ! i = ucast (word_rotr (11 * i) (key56 key))"
  using assms by (simp only: fc_keysched_def fc_kword_key56 schedule_from_56)

section \<open>Decryption inverts encryption\<close>

lemma xor_cancel [simp]: "(a XOR x) XOR x = (a :: u32)"
  by (simp add: xor.assoc)

lemma decrypt_step_inverts:
  assumes "i < ROUNDS div 2"
  shows "decrypt_step ks (ROUNDS div 2 - 1 - i) (encrypt_step ks i b) = b"
proof -
  have "ROUNDS - 1 - 2 * (ROUNDS div 2 - 1 - i) = 2 * i + 1" "ROUNDS - 1 - (2 * (ROUNDS div 2 - 1 - i) + 1) = 2 * i"
    using assms by simp_all
  then show ?thesis unfolding decrypt_step_def encrypt_step_def Let_def by (simp add: prod_eq_iff)
qed

lemma decrypt_fold_inverts:
  assumes "n \<le> ROUNDS div 2"
  shows "fold (decrypt_step ks) [ROUNDS div 2 - n..<ROUNDS div 2] (fold (encrypt_step ks) [0..<n] b) = b"
  using assms
proof (induction n arbitrary: b)
  case (Suc n)
  have "[ROUNDS div 2 - Suc n..<ROUNDS div 2] = (ROUNDS div 2 - 1 - n) # [ROUNDS div 2 - n..<ROUNDS div 2]"
    using Suc.prems Suc_diff_le[of n 7] by (subst upt_conv_Cons) simp_all
  then show ?case using Suc decrypt_step_inverts[of n ks] by simp
qed simp

lemma ecb_inverts: "fc_ecb_encrypt (fc_ecb_encrypt b ks True) ks False = b"
  using decrypt_fold_inverts[of "ROUNDS div 2" ks "(ntohl (fst b), ntohl (snd b))"]
  by (simp add: fc_ecb_encrypt_def split_beta)

lemma length_store_block [simp]: "length (store_block b) = 8"
  by (simp add: store_block_def store32_def)

lemma load_store [simp]: "load_block (store_block b @ r) = b"
  by (simp add: load_block_def store_block_def store32_def load32_def fbyte_def prod_eq_iff)

lemma xor_block_simps [simp]: "xor_block a (xor_block a b) = b" "xor_block (xor_block a b) b = a" "xor_block (xor_block a b) a = b"
  by (simp_all add: xor_block_def prod_eq_iff xor.commute xor.left_commute)

lemma xor_block_commute: "xor_block a b = xor_block b a"
  by (simp add: xor_block_def xor.commute)

text \<open>The bytes that are encrypted: the message with zeros up to a full block.\<close>

definition pad8 :: "nat \<Rightarrow> byte list \<Rightarrow> byte list" where
  "pad8 n bs = map (fbyte (take n bs)) [0..<8 * ((n + 7) div 8)]"

lemma length_pad8 [simp]: "length (pad8 n bs) = 8 * ((n + 7) div 8)"
  by (simp add: pad8_def)

lemma pad8_0 [simp]: "pad8 0 bs = []"
  by (simp add: pad8_def)

lemma pad_blocks: "0 < n \<Longrightarrow> 8 * ((n + 7) div 8) = 8 + 8 * ((n - 8 + 7) div 8)" for n :: nat
proof (cases "n \<le> 8")
  case True
  assume "0 < n"
  with True have "n + 7 = 8 + (n - 1)" "n - 1 < 8" by simp_all
  then show ?thesis using True by simp
next
  case False
  then have "n + 7 = 8 + (n - 8 + 7)" by simp
  then show ?thesis by (simp only: div_add_self1) simp
qed

lemma pad8_step:
  assumes "0 < n"
  shows "pad8 n bs = map (fbyte (take n (take 8 bs))) [0..<8] @ pad8 (n - 8) (drop 8 bs)"
proof (rule nth_equalityI)
  have e: "8 * ((n + 7) div 8) = 8 + 8 * ((n - 8 + 7) div 8)" using assms by (rule pad_blocks)
  then show "length (pad8 n bs) = length (map (fbyte (take n (take 8 bs))) [0..<8] @ pad8 (n - 8) (drop 8 bs))" by simp
  fix i
  assume "i < length (pad8 n bs)"
  then have i: "i < 8 + 8 * ((n - 8 + 7) div 8)" using e by simp
  show "pad8 n bs ! i = (map (fbyte (take n (take 8 bs))) [0..<8] @ pad8 (n - 8) (drop 8 bs)) ! i"
    using i by (auto simp: pad8_def e nth_append fbyte_def)
qed

lemma take_pad8: "n \<le> length bs \<Longrightarrow> take n (pad8 n bs) = take n bs"
  by (rule nth_equalityI) (auto simp: pad8_def fbyte_def)

lemma store_load: "store_block (load_block bs) = map (fbyte bs) [0..<8]"
proof -
  have "[0..<8] = [0, 1, 2, 3, 4, 5, 6, 7 :: nat]" by (simp add: upt_rec)
  moreover have "fbyte (drop 4 bs) n = fbyte bs (4 + n)" for n by (auto simp: fbyte_def)
  ultimately show ?thesis by (simp add: store_block_def store32_def load_block_def load32_def)
qed

lemma cbc_0 [simp]: "alen \<le> 0 \<Longrightarrow> cbc_loop input alen key iv e = ([], iv)"
  by (simp add: cbc_loop.simps)

lemma cbc_inverts:
  assumes "cbc_loop input alen ks iv True = (out, iv1)"
  shows "length out = 8 * ((nat alen + 7) div 8) \<and> cbc_loop (out @ rest) alen ks iv False = (pad8 (nat alen) input, iv1)"
  using assms
proof (induction "nat alen" arbitrary: input alen iv out rule: less_induct)
  case less
  show ?case
  proof (cases "alen \<le> 0")
    case True
    then show ?thesis using less.prems by simp
  next
    case False
    define ti where "ti = load_block (take (nat alen) (take 8 input))"
    define tout where "tout = fc_ecb_encrypt (xor_block iv ti) ks True"
    obtain r where r: "cbc_loop (drop 8 input) (alen - 8) ks (xor_block ti tout) True = (r, iv1)" "out = store_block tout @ r"
      using less.prems False by (auto simp: cbc_loop.simps[of input] ti_def[symmetric] tout_def[symmetric] Let_def simp del: take_take split: prod.splits)
    have ih: "length r = 8 * ((nat (alen - 8) + 7) div 8)"
      "cbc_loop (r @ rest) (alen - 8) ks (xor_block ti tout) False = (pad8 (nat (alen - 8)) (drop 8 input), iv1)"
      using less.hyps[OF _ r(1)] False by auto
    have bk: "xor_block (fc_ecb_encrypt tout ks False) iv = ti" by (simp add: tout_def ecb_inverts)
    have "cbc_loop (out @ rest) alen ks iv False = (store_block ti @ pad8 (nat (alen - 8)) (drop 8 input), iv1)"
      using False ih(2) bk xor_block_commute[of tout ti] load_store[of tout "[]"] by (simp add: Let_def cbc_loop.simps[of "store_block tout @ r @ rest"] r(2))
    moreover have "store_block ti = map (fbyte (take (nat alen) (take 8 input))) [0..<8]"
      by (simp only: ti_def store_load)
    moreover have "nat (alen - 8) = nat alen - 8" "0 < nat alen" using False by auto
    ultimately show ?thesis using pad8_step[of "nat alen" input] pad_blocks[of "nat alen"] ih(1) r(2) by simp
  qed
qed

section \<open>Segments\<close>

definition cbc_block :: "byte list \<Rightarrow> u32 list \<Rightarrow> block \<Rightarrow> bool \<Rightarrow> byte list \<times> block" where
  "cbc_block bs ks iv e =
     (let ti = load_block bs;
          to = (if e then fc_ecb_encrypt (xor_block iv ti) ks True else xor_block (fc_ecb_encrypt ti ks False) iv)
      in (store_block to, xor_block ti to))"

lemma cbc_step:
  assumes "8 \<le> alen"
  shows "cbc_loop input alen ks iv e =
    (let (b, iv0) = cbc_block (take 8 input) ks iv e; (r, iv1) = cbc_loop (drop 8 input) (alen - 8) ks iv0 e in (b @ r, iv1))"
proof -
  have "take (nat alen) (take 8 input) = take 8 input" using assms by (simp add: min_absorb2 nat_le_iff le_nat_iff)
  then show ?thesis using assms unfolding cbc_block_def by (subst cbc_loop.simps) (simp add: Let_def split_beta del: take_take)
qed

lemma length_cbc_block [simp]: "length (fst (cbc_block bs ks iv e)) = 8"
  by (simp add: cbc_block_def Let_def)

lemma blocksE:
  fixes n :: int
  assumes "0 \<le> n" and "8 dvd n"
  obtains k where "n = 8 * int k"
  using assms that[of "nat (n div 8)"] by auto

lemma cbc_append:
  assumes "length a = 8 * k" and "0 \<le> n"
  shows "cbc_loop (a @ b) (8 * int k + n) ks iv e =
    (let (o1, iv1) = cbc_loop a (8 * int k) ks iv e; (o2, iv2) = cbc_loop b n ks iv1 e in (o1 @ o2, iv2))"
  using assms
proof (induction k arbitrary: a iv)
  case (Suc k)
  have "8 * int (Suc k) + n - 8 = 8 * int k + n" "8 * int (Suc k) - 8 = 8 * int k" by simp_all
  moreover have "take 8 (a @ b) = take 8 a" "drop 8 (a @ b) = drop 8 a @ b" using Suc.prems by simp_all
  moreover have "8 \<le> 8 * int (Suc k) + n" "8 \<le> 8 * int (Suc k)" using assms(2) by simp_all
  moreover have "cbc_loop (drop 8 a @ b) (8 * int k + n) ks iv e =
      (let (o1, iv1) = cbc_loop (drop 8 a) (8 * int k) ks iv e; (o2, iv2) = cbc_loop b n ks iv1 e in (o1 @ o2, iv2))" for iv
    using Suc by simp
  ultimately show ?case by (simp only: cbc_step Let_def split_beta fst_conv snd_conv append_assoc)
qed simp

lemma cbc_take: "cbc_loop (take (8 * k) input) (8 * int k) ks iv e = cbc_loop input (8 * int k) ks iv e"
proof (induction k arbitrary: input iv)
  case (Suc k)
  have "8 * int (Suc k) - 8 = 8 * int k" "8 \<le> 8 * int (Suc k)" by simp_all
  moreover have "take 8 (take (8 * Suc k) input) = take 8 input" "drop 8 (take (8 * Suc k) input) = take (8 * k) (drop 8 input)"
    by (simp_all add: drop_take)
  ultimately show ?case using Suc by (simp only: cbc_step)
qed simp

lemma cbc_length: "length (fst (cbc_loop input (8 * int k) ks iv e)) = 8 * k"
proof (induction k arbitrary: input iv)
  case (Suc k)
  have "8 * int (Suc k) - 8 = 8 * int k" "8 \<le> 8 * int (Suc k)" by simp_all
  then show ?case using Suc by (simp add: cbc_step split_beta)
qed simp

section \<open>Packets\<close>

definition payload :: "int \<Rightarrow> segment list \<Rightarrow> byte list" where
  "payload len segs = take (nat len) (concat (map (\<lambda>(buf, tlen). take (nat tlen) buf) segs))"

text \<open>Every segment holds data, and all but the last full blocks.\<close>

fun wf_segs :: "segment list \<Rightarrow> bool" where
  "wf_segs [] = True"
| "wf_segs ((buf, tlen) # segs) = (0 < tlen \<and> tlen \<le> int (length buf) \<and> (segs = [] \<or> 8 dvd tlen) \<and> wf_segs segs)"

lemma payload_Cons:
  assumes "0 \<le> tlen" and "tlen \<le> int (length buf)"
  shows "payload len ((buf, tlen) # segs) = (if len \<le> tlen then take (nat len) buf else take (nat tlen) buf @ payload (len - tlen) segs)"
proof -
  have l: "nat tlen \<le> length buf" using assms by simp
  show ?thesis
  proof (cases "len \<le> tlen")
    case True
    then have "nat len \<le> nat tlen" by simp
    then show ?thesis using l True by (simp add: payload_def min_absorb1)
  next
    case False
    then have "nat tlen \<le> nat len" "nat (len - tlen) = nat len - nat tlen" using assms by (simp_all add: nat_diff_distrib)
    then show ?thesis using l False by (simp add: payload_def min_absorb2)
  qed
qed

lemma crypt_payload:
  assumes "wf_segs segs" and "0 \<le> len" and "8 dvd len" and "len \<le> sum_list (map snd segs)"
  shows "payload len (crypt_segments segs len ks iv e) = fst (cbc_loop (payload len segs) len ks iv e)"
  using assms
proof (induction segs arbitrary: len iv)
  case (Cons s segs)
  obtain buf tlen where s: "s = (buf, tlen)" by fastforce
  have t: "0 < tlen" "tlen \<le> int (length buf)" using Cons.prems(1) s by simp_all
  show ?case
  proof (cases "len = 0")
    case False
    have "0 \<le> min len tlen" using t Cons.prems(2) by simp
    moreover have "8 dvd min len tlen" using Cons.prems s by (auto simp: min_def)
    ultimately obtain k where k: "min len tlen = 8 * int k" by (rule blocksE)
    obtain out iv1 where c: "cbc_loop buf (8 * int k) ks iv e = (out, iv1)" by (metis prod.collapse)
    have lo: "length out = 8 * k" using cbc_length[of buf k ks iv e] c by simp
    have cs: "crypt_segments (s # segs) len ks iv e =
        (out @ drop (length out) buf, tlen) # crypt_segments segs (len - min len tlen) ks iv1 e"
      using False t(1) s k c by (simp add: fc_cbc_encrypt_def)
    have n8: "nat (8 * int k) = 8 * k" by simp
    have lb: "tlen \<le> int (length (out @ drop (length out) buf))" using t(2) by simp
    show ?thesis
    proof (cases "len \<le> tlen")
      case True
      then show ?thesis unfolding cs unfolding s using c lo k t lb cbc_take[of k buf ks iv e] n8 by (simp add: payload_Cons)
    next
      case False
      then have k': "tlen = 8 * int k" using k by simp
      have lt: "length (take (8 * k) buf) = 8 * k" using t(2) k' by simp
      have ih: "payload (len - tlen) (crypt_segments segs (len - tlen) ks iv1 e) = fst (cbc_loop (payload (len - tlen) segs) (len - tlen) ks iv1 e)"
        using Cons.IH[of "len - tlen" iv1] Cons.prems s k' False by simp
      have "cbc_loop (take (8 * k) buf @ payload (len - tlen) segs) (8 * int k + (len - tlen)) ks iv e =
          (let (o2, iv2) = cbc_loop (payload (len - tlen) segs) (len - tlen) ks iv1 e in (out @ o2, iv2))"
        using cbc_append[OF lt, of "len - tlen"] cbc_take[of k buf ks iv e] c False by simp
      then show ?thesis unfolding cs unfolding s using ih lo k' t lb n8 False by (simp add: payload_Cons split_beta)
    qed
  qed (simp add: payload_def)
qed (simp add: payload_def)

lemma pad8_full: "length bs = 8 * k \<Longrightarrow> pad8 (8 * k) bs = bs"
  using take_pad8[of "8 * k" bs] by simp

lemma length_payload:
  "wf_segs segs \<Longrightarrow> 0 \<le> len \<Longrightarrow> len \<le> sum_list (map snd segs) \<Longrightarrow> length (payload len segs) = nat len"
proof (induction segs arbitrary: len)
  case (Cons s segs)
  then show ?case by (cases s) (auto simp: payload_Cons)
qed (simp add: payload_def)

lemma put_wf: "wf_segs segs \<Longrightarrow> 0 \<le> off \<Longrightarrow> wf_segs (rx_PutInt32 segs off w) \<and> map snd (rx_PutInt32 segs off w) = map snd segs"
  by (induction segs off w rule: rx_PutInt32.induct) (auto simp: length_pwrite intro: order_trans)

text \<open>
  C14: a packet that was encrypted by one side is read by the other as it was, apart from the
  word that is reserved for a checksum: whatever segments the receiver's buffers fall into,
  as long as all but the last hold full blocks, decrypting with the same schedule and vector
  gives back the data.
\<close>

theorem packet_roundtrip:
  assumes "wf_segs p" and "wf_segs q" and "0 \<le> len" and "8 dvd len"
    and "len \<le> sum_list (map snd p)" and "len \<le> sum_list (map snd q)"
    and "payload len q = payload len (rxkad_EncryptPacket ks iv len p)"
  shows "payload len (rxkad_DecryptPacket ks iv len q) = payload len (rx_PutInt32 p 4 0)"
proof -
  let ?p = "rx_PutInt32 p 4 0"
  have p: "wf_segs ?p" "len \<le> sum_list (map snd ?p)" using put_wf[OF assms(1), of 4 0] assms(5) by simp_all
  obtain k where k: "len = 8 * int k" using assms(3,4) by (rule blocksE)
  obtain out iv1 where c: "cbc_loop (payload len ?p) len ks iv True = (out, iv1)" by (metis prod.collapse)
  have "payload len q = out" using crypt_payload[OF p(1) assms(3,4) p(2), of ks iv True] assms(7) c
    by (simp add: rxkad_EncryptPacket_def)
  then have "payload len (rxkad_DecryptPacket ks iv len q) = pad8 (nat len) (payload len ?p)"
    using crypt_payload[OF assms(2,3,4,6), of ks iv False] cbc_inverts[OF c, of "[]"] by (simp add: rxkad_DecryptPacket_def)
  moreover have "length (payload len ?p) = nat len" using p assms(3) by (simp add: length_payload)
  moreover have "nat len = 8 * k" using k by simp
  ultimately show ?thesis by (simp add: pad8_full)
qed

definition demo_packet :: "segment list" where
  "demo_packet = [([1, 2, 3, 4, 5, 6, 7, 8, 9, 10, 11, 12, 13, 14, 15, 16], 16)]"

definition demo_sched :: "u32 list" where
  "demo_sched = fc_keysched [1, 2, 3, 4, 5, 6, 7, 8]"

definition demo_cipher :: "byte list" where
  "demo_cipher = payload 16 (rxkad_EncryptPacket demo_sched (1, 2) 16 demo_packet)"

theorem packet_roundtrip_witness:
  "payload 16 (rxkad_DecryptPacket demo_sched (1, 2) 16 [(take 8 demo_cipher, 8), (drop 8 demo_cipher, 8)]) =
   [1, 2, 3, 4, 0, 0, 0, 0, 9, 10, 11, 12, 13, 14, 15, 16]"
proof -
  let ?q = "[(take 8 demo_cipher, 8), (drop 8 demo_cipher, 8)] :: segment list"
  have p: "wf_segs demo_packet" "wf_segs (rx_PutInt32 demo_packet 4 0)"
    "payload 16 (rx_PutInt32 demo_packet 4 0) = [1, 2, 3, 4, 0, 0, 0, 0, 9, 10, 11, 12, 13, 14, 15, 16]"
    by code_simp+
  have "demo_cipher = fst (cbc_loop (payload 16 (rx_PutInt32 demo_packet 4 0)) 16 demo_sched (1, 2) True)"
    using crypt_payload[OF p(2), of 16 demo_sched "(1, 2)" True]
    by (simp add: demo_cipher_def rxkad_EncryptPacket_def demo_packet_def)
  then have l: "length demo_cipher = 16"
    using cbc_length[of "payload 16 (rx_PutInt32 demo_packet 4 0)" 2 demo_sched "(1, 2)" True] by simp
  have "payload 16 ?q = demo_cipher" using l by (simp add: payload_def)
  then show ?thesis using packet_roundtrip[of demo_packet ?q 16 demo_sched "(1, 2)"] p l
    by (simp add: demo_cipher_def[symmetric]) (simp add: demo_packet_def)
qed

theorem fc_keysched_rotates_witness:
  "fc_keysched [1, 2, 3, 4, 5, 6, 7, 8] ! 3 = ucast (word_rotr 33 (key56 [1, 2, 3, 4, 5, 6, 7, 8]))"
  using fc_keysched_rotates[of "[1, 2, 3, 4, 5, 6, 7, 8]" 3] by simp

end
