(* ===== verification/Dir.thy ===== *)
theory Dir
  imports Prelude
begin

text \<open>
  Directories as the file server and the cache manager store them: \<^verbatim>\<open>dir/dir.c\<close>.

  A directory is an array of pages of 2048 bytes, each cut into 64 blobs of 32 bytes.  The
  first blob of a page is its header with a bitmap of the allocated blobs; the first 13
  blobs of the first page also hold the number of free blobs of the first 128 pages and the
  hash table.  An entry takes one or more blobs of a page: flag, link to the next
  entry of its hash chain, file identifier, and the name with its final NUL.

  The state is the memory the buffers show: a byte at each offset, the pages that exist, and
  the outcomes of the reads to come (\<open>True\<close>: the read fails).  \<^verbatim>\<open>DRelease\<close> does not change what
  the buffers show and has no counterpart.
\<close>

datatype derr = Ok | Enoent | Eexist | Einval | Efbig | Eio | E2big

record dirfile =
  dmem :: "nat \<Rightarrow> byte"
  dpages :: "nat \<Rightarrow> bool"
  dreads :: "bool list"

type_synonym mkfid = "u32 \<times> u32"

abbreviation (input) AFS_PAGESIZE :: nat where "AFS_PAGESIZE \<equiv> 2048"
abbreviation (input) NHASHENT :: nat where "NHASHENT \<equiv> 128"
abbreviation (input) MAXPAGES :: nat where "MAXPAGES \<equiv> 128"
abbreviation (input) BIGMAXPAGES :: nat where "BIGMAXPAGES \<equiv> 1023"
abbreviation (input) EPP :: nat where "EPP \<equiv> 64"
abbreviation (input) DHE :: nat where "DHE \<equiv> 12"

section \<open>Memory\<close>

definition mwrite :: "(nat \<Rightarrow> byte) \<Rightarrow> nat \<Rightarrow> byte list \<Rightarrow> nat \<Rightarrow> byte" where
  "mwrite m a bs = (\<lambda>i. if a \<le> i \<and> i < a + length bs then bs ! (i - a) else m i)"

definition wr :: "dirfile \<Rightarrow> nat \<Rightarrow> byte list \<Rightarrow> dirfile" where
  "wr d a bs = d\<lparr>dmem := mwrite (dmem d) a bs\<rparr>"

definition get16 :: "(nat \<Rightarrow> byte) \<Rightarrow> nat \<Rightarrow> nat" where
  "get16 m a = unat (m a) * 256 + unat (m (a + 1))"

definition bytes16 :: "nat \<Rightarrow> byte list" where
  "bytes16 n = [of_nat (n div 256), of_nat n]"

definition get32 :: "(nat \<Rightarrow> byte) \<Rightarrow> nat \<Rightarrow> u32" where
  "get32 m a = word_of_bytes (m a) (m (a + 1)) (m (a + 2)) (m (a + 3))"

definition bytes32 :: "u32 \<Rightarrow> byte list" where
  "bytes32 w = [word_byte w 0, word_byte w 1, word_byte w 2, word_byte w 3]"

text \<open>The fields of the headers and of an entry.\<close>

abbreviation (input) "pgcount_at \<equiv> (0 :: nat)"
abbreviation (input) "tag_at p \<equiv> AFS_PAGESIZE * p + 2"
abbreviation (input) "freecount_at p \<equiv> AFS_PAGESIZE * p + 4"
abbreviation (input) "freebitmap_at p \<equiv> AFS_PAGESIZE * p + 5"
abbreviation (input) "alloMap_at p \<equiv> 32 + p"
abbreviation (input) "hashTable_at i \<equiv> 160 + 2 * i"
abbreviation (input) "flag_at b \<equiv> 32 * b"
abbreviation (input) "next_at b \<equiv> 32 * b + 2"
abbreviation (input) "vnode_at b \<equiv> 32 * b + 4"
abbreviation (input) "vunique_at b \<equiv> 32 * b + 8"
abbreviation (input) "name_at b \<equiv> 32 * b + 12"

text \<open>The C string that starts at an address and is cut off at a limit.\<close>

function cstr :: "(nat \<Rightarrow> byte) \<Rightarrow> nat \<Rightarrow> nat \<Rightarrow> byte list" where
  "cstr m a lim = (if lim \<le> a \<or> m a = 0 then [] else m a # cstr m (a + 1) lim)"
  by pat_completeness auto
termination
  by (relation "measure (\<lambda>(m, a, lim). lim - a)") auto

declare cstr.simps [simp del]

definition page_end :: "nat \<Rightarrow> nat" where
  "page_end b = AFS_PAGESIZE * (b div EPP + 1)"

definition entry_name :: "(nat \<Rightarrow> byte) \<Rightarrow> nat \<Rightarrow> byte list" where
  "entry_name m b = cstr m (name_at b) (page_end b)"

section \<open>Reading pages\<close>

definition dir_DRead :: "dirfile \<Rightarrow> nat \<Rightarrow> derr \<times> dirfile" where
  "dir_DRead d p =
     (case dreads d of
        [] \<Rightarrow> (if dpages d p then Ok else Eio, d)
      | bad # rest \<Rightarrow> (if bad \<or> \<not> dpages d p then Eio else Ok, d\<lparr>dreads := rest\<rparr>))"

text \<open>A page that is not read but set to zeros.\<close>

definition dir_DNew :: "dirfile \<Rightarrow> nat \<Rightarrow> dirfile" where
  "dir_DNew d p =
     d\<lparr>dmem := (\<lambda>a. if a div AFS_PAGESIZE = p then 0 else dmem d a), dpages := (dpages d)(p := True)\<rparr>"

section \<open>Blobs\<close>

definition afs_dir_NameBlobs :: "byte list \<Rightarrow> nat" where
  "afs_dir_NameBlobs name = 1 + (length name + 1 + 15) div 32"

definition blob_bit :: "(nat \<Rightarrow> byte) \<Rightarrow> nat \<Rightarrow> nat \<Rightarrow> bool" where
  "blob_bit m p x = bit (m (freebitmap_at p + x div 8)) (x mod 8)"

definition AddPage :: "dirfile \<Rightarrow> nat \<Rightarrow> dirfile" where
  "AddPage d p =
     (let d1 = wr (dir_DNew d p) (tag_at p) (bytes16 1234);
          d2 = (if 0 < p then wr d1 (AFS_PAGESIZE * p) (bytes16 0) else d1);
          d3 = wr d2 (freecount_at p) [of_nat (EPP - 1)]
      in wr d3 (freebitmap_at p) (0x01 # replicate (EPP div 8 - 1) 0))"

text \<open>The page is added when it is not there.\<close>

definition page_ready :: "dirfile \<Rightarrow> nat \<Rightarrow> dirfile" where
  "page_ready d i =
     (if MAXPAGES \<le> i
      then let pgcount = get16 (dmem d) pgcount_at;
               d1 = (if pgcount = 0 then wr d pgcount_at (bytes16 MAXPAGES) else d);
               pgcount1 = (if pgcount = 0 then MAXPAGES else pgcount)
           in if pgcount1 \<le> i then wr (AddPage d1 i) pgcount_at (bytes16 (i + 1)) else d1
      else if dmem d (alloMap_at i) = of_nat EPP
      then wr (wr (AddPage d i) (alloMap_at i) [of_nat (EPP - 1)]) pgcount_at (bytes16 (i + 1))
      else d)"

definition run_free :: "(nat \<Rightarrow> byte) \<Rightarrow> nat \<Rightarrow> nat \<Rightarrow> nat \<Rightarrow> bool" where
  "run_free m p nblobs j = list_all (\<lambda>k. \<not> blob_bit m p (j + k)) [0..<nblobs]"

text \<open>The variable \<^verbatim>\<open>failed\<close> is not reset between pages.\<close>

fun free_run :: "(nat \<Rightarrow> byte) \<Rightarrow> nat \<Rightarrow> nat \<Rightarrow> bool \<Rightarrow> nat list \<Rightarrow> bool \<times> nat" where
  "free_run m p nblobs failed [] = (failed, 0)"
| "free_run m p nblobs failed (j # js) =
     (if run_free m p nblobs j then (False, j) else free_run m p nblobs True js)"

definition set_blob :: "nat \<Rightarrow> bool \<Rightarrow> nat \<Rightarrow> (nat \<Rightarrow> byte) \<Rightarrow> nat \<Rightarrow> byte" where
  "set_blob p v x m =
     m(freebitmap_at p + x div 8 := (if v then m (freebitmap_at p + x div 8) OR push_bit (x mod 8) 1
                                     else m (freebitmap_at p + x div 8) AND NOT (push_bit (x mod 8) 1)))"

definition take_blobs :: "dirfile \<Rightarrow> nat \<Rightarrow> nat \<Rightarrow> nat \<Rightarrow> dirfile" where
  "take_blobs d i nblobs j =
     (let d1 = (if i < MAXPAGES then wr d (alloMap_at i) [dmem d (alloMap_at i) - of_nat nblobs] else d)
      in d1\<lparr>dmem := fold (\<lambda>k. set_blob i True (j + k)) [0..<nblobs] (dmem d1)\<rparr>)"

fun find_pages :: "dirfile \<Rightarrow> nat \<Rightarrow> bool \<Rightarrow> nat list \<Rightarrow> nat option \<times> dirfile" where
  "find_pages d nblobs failed [] = (None, d)"
| "find_pages d nblobs failed (i # is) =
     (if MAXPAGES \<le> i \<or> int nblobs \<le> sint (dmem d (alloMap_at i))
      then let (code, d1) = dir_DRead (page_ready d i) i in
        if code \<noteq> Ok then (None, d1)
        else let (failed1, j) = free_run (dmem d1) i nblobs failed [0..<Suc EPP - nblobs] in
          if \<not> failed1 then (Some (j + i * EPP), take_blobs d1 i nblobs j)
          else find_pages d1 nblobs failed1 is
      else find_pages d nblobs failed is)"

definition FindBlobs :: "dirfile \<Rightarrow> nat \<Rightarrow> nat option \<times> dirfile" where
  "FindBlobs d nblobs =
     (let (code, d1) = dir_DRead d 0 in
      if code \<noteq> Ok then (None, d1) else find_pages d1 nblobs False [0..<BIGMAXPAGES])"

definition FreeBlobs :: "dirfile \<Rightarrow> nat \<Rightarrow> nat \<Rightarrow> dirfile" where
  "FreeBlobs d firstblob nblobs =
     (let p = firstblob div EPP;
          first = firstblob - EPP * p;
          (code, d1) = dir_DRead d 0 in
      if code \<noteq> Ok then d1
      else let d2 = (if p < MAXPAGES then wr d1 (alloMap_at p) [dmem d1 (alloMap_at p) + of_nat nblobs] else d1);
               (code2, d3) = dir_DRead d2 p in
        if code2 \<noteq> Ok then d3
        else d3\<lparr>dmem := fold (\<lambda>k. set_blob p False (first + k)) [0..<nblobs] (dmem d3)\<rparr>)"

text \<open>\<^verbatim>\<open>afs_dir_GetBlob\<close> gives the address; the verified variant looks for the end of the name.\<close>

definition afs_dir_GetBlob :: "dirfile \<Rightarrow> nat \<Rightarrow> derr \<times> dirfile" where
  "afs_dir_GetBlob d b = dir_DRead d (b div EPP)"

function find_nul :: "(nat \<Rightarrow> byte) \<Rightarrow> nat \<Rightarrow> nat \<Rightarrow> nat" where
  "find_nul m cp lim = (if m cp \<noteq> 0 \<and> cp < lim then find_nul m (cp + 1) lim else cp)"
  by pat_completeness auto
termination
  by (relation "measure (\<lambda>(m, cp, lim). lim - cp)") auto

declare find_nul.simps [simp del]

definition afs_dir_GetVerifiedBlob :: "dirfile \<Rightarrow> nat \<Rightarrow> derr \<times> dirfile" where
  "afs_dir_GetVerifiedBlob d b =
     (let (code, d1) = dir_DRead d (b div EPP);
          pos = 32 * (b mod EPP);
          maxlen = AFS_PAGESIZE - pos - 1 in
      if code \<noteq> Ok then (code, d1)
      else if dmem d1 (find_nul (dmem d1) (name_at b) (32 * b + maxlen)) \<noteq> 0 then (Eio, d1)
      else (Ok, d1))"

section \<open>Finding an entry\<close>

definition afs_dir_DirHash :: "byte list \<Rightarrow> nat" where
  "afs_dir_DirHash s =
     (let hval = foldl (\<lambda>h c. h * 173 + ucast c) (0 :: u32) s;
          tval = unat (hval AND 127)
      in if tval = 0 then tval
         else if 2147483648 \<le> hval then NHASHENT - tval else tval)"

text \<open>
  The loop with the address of the link that leads to the current blob; the counter is what is
  left of the limit on the length of a chain.
\<close>

fun find_loop :: "nat \<Rightarrow> dirfile \<Rightarrow> byte list \<Rightarrow> nat \<Rightarrow> nat \<Rightarrow> derr \<times> nat \<times> nat \<times> dirfile" where
  "find_loop 0 d ename prev b = (Eio, prev, b, d)"
| "find_loop (Suc n) d ename prev b =
     (if ename = entry_name (dmem d) b then (Ok, prev, b, d)
      else if get16 (dmem d) (next_at b) = 0 then (Enoent, prev, b, d)
      else let b1 = get16 (dmem d) (next_at b);
               (code, d1) = afs_dir_GetVerifiedBlob d b1
           in if code \<noteq> Ok then (code, prev, b, d1) else find_loop n d1 ename (next_at b) b1)"

definition FindItem :: "dirfile \<Rightarrow> byte list \<Rightarrow> derr \<times> nat \<times> nat \<times> dirfile" where
  "FindItem d ename =
     (let (code, d1) = dir_DRead d 0 in
      if code \<noteq> Ok then (code, 0, 0, d1)
      else let i = afs_dir_DirHash ename; b = get16 (dmem d1) (hashTable_at i) in
        if b = 0 then (Enoent, 0, 0, d1)
        else let (code, d2) = afs_dir_GetVerifiedBlob d1 b in
          if code \<noteq> Ok then (code, 0, 0, d2)
          else find_loop (BIGMAXPAGES * EPP) d2 ename (hashTable_at i) b)"

section \<open>The operations\<close>

definition afs_dir_Create :: "dirfile \<Rightarrow> byte list \<Rightarrow> mkfid \<Rightarrow> derr \<times> dirfile" where
  "afs_dir_Create d entry fid =
     (if entry = [] then (Einval, d)
      else let (code, _, _, d1) = FindItem d entry in
        if code = Ok then (Eexist, d1)
        else if code \<noteq> Enoent then (code, d1)
        else case FindBlobs d1 (afs_dir_NameBlobs entry) of
          (None, d2) \<Rightarrow> (Efbig, d2)
        | (Some b, d2) \<Rightarrow>
            let (code, d3) = afs_dir_GetBlob d2 b in
            if code \<noteq> Ok then (Eio, d3)
            else let d4 = wr (wr (wr (wr d3 (flag_at b) [1]) (vnode_at b) (bytes32 (fst fid)))
                               (vunique_at b) (bytes32 (snd fid))) (name_at b) (entry @ [0]);
                     (code, d5) = dir_DRead d4 0 in
              if code \<noteq> Ok then (Eio, d5)
              else let i = afs_dir_DirHash entry;
                       d6 = wr d5 (next_at b) (bytes16 (get16 (dmem d5) (hashTable_at i)))
                   in (Ok, wr d6 (hashTable_at i) (bytes16 b)))"

definition afs_dir_Length :: "dirfile \<Rightarrow> nat \<times> dirfile" where
  "afs_dir_Length d =
     (let (code, d1) = dir_DRead d 0 in
      if code \<noteq> Ok then (0, d1)
      else let pgcount = get16 (dmem d1) pgcount_at;
               ctr = (if pgcount \<noteq> 0 then pgcount
                      else length (filter (\<lambda>i. dmem d1 (alloMap_at i) \<noteq> of_nat EPP) [0..<MAXPAGES]))
           in (ctr * AFS_PAGESIZE, d1))"

text \<open>The size of \<^verbatim>\<open>struct DirEntry\<close>, which is less than that of a blob.\<close>

abbreviation (input) sizeof_DirEntry :: nat where "sizeof_DirEntry \<equiv> 28"

definition afs_dir_Delete :: "dirfile \<Rightarrow> byte list \<Rightarrow> derr \<times> dirfile" where
  "afs_dir_Delete d entry =
     (let (code, prev, b, d1) = FindItem d entry in
      if code \<noteq> Ok then (code, d1)
      else let d2 = wr d1 prev (bytes16 (get16 (dmem d1) (next_at b)));
               nitems = afs_dir_NameBlobs (entry_name (dmem d2) b);
               d3 = wr d2 (flag_at b) (replicate (nitems * sizeof_DirEntry) 0)
           in (Ok, FreeBlobs d3 b nitems))"

definition afs_dir_MakeDir :: "dirfile \<Rightarrow> mkfid \<Rightarrow> mkfid \<Rightarrow> dirfile" where
  "afs_dir_MakeDir d me parent =
     (let d1 = wr (wr (wr (wr (dir_DNew d 0) pgcount_at (bytes16 1)) (tag_at 0) (bytes16 1234))
                     (freecount_at 0) [of_nat (EPP - DHE - 1)]) (freebitmap_at 0) (0xff # 0x1f # replicate (EPP div 8 - 2) 0);
          d2 = wr d1 (alloMap_at 0) (of_nat (EPP - DHE - 1) # replicate (MAXPAGES - 1) (of_nat EPP));
          d3 = wr d2 (hashTable_at 0) (concat (replicate NHASHENT (bytes16 0)));
          d4 = snd (afs_dir_Create d3 [46] me)
      in snd (afs_dir_Create d4 [46, 46] parent))"

definition afs_dir_LookupOffset :: "dirfile \<Rightarrow> byte list \<Rightarrow> derr \<times> mkfid \<times> nat \<times> dirfile" where
  "afs_dir_LookupOffset d entry =
     (let (code, _, b, d1) = FindItem d entry in
      if code \<noteq> Ok then (code, (0, 0), 0, d1)
      else (Ok, (get32 (dmem d1) (vnode_at b), get32 (dmem d1) (vunique_at b)), 32 * b, d1))"

definition afs_dir_Lookup :: "dirfile \<Rightarrow> byte list \<Rightarrow> derr \<times> mkfid \<times> dirfile" where
  "afs_dir_Lookup d entry =
     (let (code, _, b, d1) = FindItem d entry in
      if code \<noteq> Ok then (code, (0, 0), d1)
      else (Ok, (get32 (dmem d1) (vnode_at b), get32 (dmem d1) (vunique_at b)), d1))"

text \<open>The walk stops early when a blob cannot be read or the hook says so.\<close>

type_synonym 'h hook = "'h \<Rightarrow> byte list \<Rightarrow> u32 \<Rightarrow> u32 \<Rightarrow> int \<times> 'h"

fun enum_chain :: "'h hook \<Rightarrow> nat \<Rightarrow> nat \<Rightarrow> 'h \<Rightarrow> dirfile \<Rightarrow> bool \<times> 'h \<times> dirfile" where
  "enum_chain proc 0 num h d = (False, h, d)"
| "enum_chain proc (Suc n) num h d =
     (if num = 0 then (False, h, d)
      else let (code, d1) = afs_dir_GetVerifiedBlob d num in
        if code \<noteq> Ok then (True, h, d1)
        else let next = get16 (dmem d1) (next_at num);
                 (code, h1) = proc h (entry_name (dmem d1) num) (get32 (dmem d1) (vnode_at num)) (get32 (dmem d1) (vunique_at num))
             in if code \<noteq> 0 then (True, h1, d1) else enum_chain proc n next h1 d1)"

fun enum_table :: "'h hook \<Rightarrow> nat list \<Rightarrow> 'h \<Rightarrow> dirfile \<Rightarrow> 'h \<times> dirfile" where
  "enum_table proc [] h d = (h, d)"
| "enum_table proc (i # is) h d =
     (let (stop, h1, d1) = enum_chain proc (BIGMAXPAGES * EPP) (get16 (dmem d) (hashTable_at i)) h d
      in if stop then (h1, d1) else enum_table proc is h1 d1)"

definition afs_dir_EnumerateDir :: "dirfile \<Rightarrow> 'h hook \<Rightarrow> 'h \<Rightarrow> derr \<times> 'h \<times> dirfile" where
  "afs_dir_EnumerateDir d proc h =
     (let (code, d1) = dir_DRead d 0 in
      if code \<noteq> Ok then (Eio, h, d1)
      else let (h1, d2) = enum_table proc [0..<NHASHENT] h d1 in (Ok, h1, d2))"

text \<open>\<open>True\<close> where the code answers 1: an entry besides \<^verbatim>\<open>.\<close> and \<^verbatim>\<open>..\<close> was seen.\<close>

fun other_chain :: "nat \<Rightarrow> nat \<Rightarrow> dirfile \<Rightarrow> bool \<times> dirfile" where
  "other_chain 0 num d = (False, d)"
| "other_chain (Suc n) num d =
     (if num = 0 then (False, d)
      else let (code, d1) = afs_dir_GetVerifiedBlob d num in
        if code \<noteq> Ok then (False, d1)
        else if entry_name (dmem d1) num \<noteq> [46, 46] \<and> entry_name (dmem d1) num \<noteq> [46] then (True, d1)
        else other_chain n (get16 (dmem d1) (next_at num)) d1)"

fun other_table :: "nat list \<Rightarrow> dirfile \<Rightarrow> bool \<times> dirfile" where
  "other_table [] d = (False, d)"
| "other_table (i # is) d =
     (let (found, d1) = other_chain (BIGMAXPAGES * EPP) (get16 (dmem d) (hashTable_at i)) d
      in if found then (True, d1) else other_table is d1)"

definition afs_dir_IsEmpty :: "dirfile \<Rightarrow> bool \<times> dirfile" where
  "afs_dir_IsEmpty d =
     (let (code, d1) = dir_DRead d 0 in
      if code \<noteq> Ok then (False, d1) else other_table [0..<NHASHENT] d1)"

text \<open>A blob with the identifier, or no blob where the chain has none.\<close>

fun fid_chain :: "nat \<Rightarrow> dirfile \<Rightarrow> mkfid \<Rightarrow> nat \<Rightarrow> derr \<times> nat option \<times> dirfile" where
  "fid_chain 0 d fid b = (Ok, None, d)"
| "fid_chain (Suc n) d fid b =
     (if fst fid = get32 (dmem d) (vnode_at b) \<and> snd fid = get32 (dmem d) (vunique_at b) then (Ok, Some b, d)
      else if get16 (dmem d) (next_at b) = 0 then (Ok, None, d)
      else let (code, d1) = afs_dir_GetVerifiedBlob d (get16 (dmem d) (next_at b)) in
        if code \<noteq> Ok then (code, None, d1) else fid_chain n d1 fid (get16 (dmem d) (next_at b)))"

fun fid_table :: "nat list \<Rightarrow> dirfile \<Rightarrow> mkfid \<Rightarrow> derr \<times> nat \<times> dirfile" where
  "fid_table [] d fid = (Enoent, 0, d)"
| "fid_table (i # is) d fid =
     (let b = get16 (dmem d) (hashTable_at i) in
      if b = 0 then fid_table is d fid
      else let (code, d1) = afs_dir_GetVerifiedBlob d b in
        if code \<noteq> Ok then (code, 0, d1)
        else case fid_chain (BIGMAXPAGES * EPP) d1 fid b of
          (code, r, d2) \<Rightarrow>
            if code \<noteq> Ok then (code, 0, d2)
            else case r of Some b1 \<Rightarrow> (Ok, b1, d2) | None \<Rightarrow> fid_table is d2 fid)"

definition FindFid :: "dirfile \<Rightarrow> mkfid \<Rightarrow> derr \<times> nat \<times> dirfile" where
  "FindFid d fid =
     (let (code, d1) = dir_DRead d 0 in
      if code \<noteq> Ok then (code, 0, d1) else fid_table [0..<NHASHENT] d1 fid)"

definition afs_dir_InverseLookup :: "dirfile \<Rightarrow> mkfid \<Rightarrow> nat \<Rightarrow> derr \<times> byte list \<times> dirfile" where
  "afs_dir_InverseLookup d fid len =
     (let (code, b, d1) = FindFid d fid in
      if code \<noteq> Ok then (code, [], d1)
      else if len \<le> length (entry_name (dmem d1) b) then (E2big, [], d1)
      else (Ok, entry_name (dmem d1) b, d1))"

definition afs_dir_ChangeFid :: "dirfile \<Rightarrow> byte list \<Rightarrow> mkfid option \<Rightarrow> mkfid \<Rightarrow> derr \<times> dirfile" where
  "afs_dir_ChangeFid d entry old new =
     (let (code, _, b, d1) = FindItem d entry in
      if code \<noteq> Ok then (code, d1)
      else if old = None \<or> old = Some (get32 (dmem d1) (vnode_at b), get32 (dmem d1) (vunique_at b))
      then (Ok, wr (wr d1 (vnode_at b) (bytes32 (fst new))) (vunique_at b) (bytes32 (snd new)))
      else (Ok, d1))"

end
