(* ===== verification/Dir_Rep.thy ===== *)
theory Dir_Rep
  imports Dir
begin

text \<open>
  What the bytes of a directory mean: the chains of the hash table as lists of entries, the
  blobs of an entry, the bitmaps and the counts of free blobs.  \<open>rep d ch\<close> says that the bytes
  of \<open>d\<close> hold the chains \<open>ch\<close>.  The frame lemmas say which writes leave the chains as they are;
  the search for a name and the search for free blobs are specified for reads that may fail.
\<close>

section \<open>Memory\<close>

lemma wr_sel [simp]: "dmem (wr d a bs) = mwrite (dmem d) a bs" "dpages (wr d a bs) = dpages d" "dreads (wr d a bs) = dreads d"
  by (simp_all add: wr_def)

lemma mwrite_same [simp]: "x < a \<or> a + length bs \<le> x \<Longrightarrow> mwrite m a bs x = m x"
  by (auto simp: mwrite_def)

lemma mwrite_in: "a \<le> x \<Longrightarrow> x < a + length bs \<Longrightarrow> mwrite m a bs x = bs ! (x - a)"
  by (simp add: mwrite_def)

lemma length_bytes [simp]: "length (bytes16 n) = 2" "length (bytes32 w) = 4"
  by (simp_all add: bytes16_def bytes32_def)

lemma mwrite16_other: "x \<noteq> a \<Longrightarrow> x \<noteq> a + 1 \<Longrightarrow> mwrite m a (bytes16 n) x = m x"
  by (auto simp: mwrite_def)

lemma get16_bytes16 [simp]: "n < 65536 \<Longrightarrow> get16 (mwrite m a (bytes16 n)) a = n"
  by (simp add: get16_def bytes16_def mwrite_in unat_of_nat less_mult_imp_div_less)

lemma get32_bytes32 [simp]: "get32 (mwrite m a (bytes32 w)) a = w"
  by (simp add: get32_def bytes32_def mwrite_in)

lemma unat_byte: "unat (x :: byte) < 256"
proof -
  have "unat x < 2 ^ LENGTH(8)" by (rule unsigned_less)
  then show ?thesis by simp
qed

lemma get16_bound: "get16 m a < 65536"
  using unat_byte[of "m a"] unat_byte[of "m (a + 1)"] by (simp add: get16_def)

lemma get16_cong: "m a = m' a \<Longrightarrow> m (a + 1) = m' (a + 1) \<Longrightarrow> get16 m a = get16 m' a"
  by (simp add: get16_def)

lemma get32_cong:
  assumes "\<And>i. i < 4 \<Longrightarrow> m (a + i) = m' (a + i)"
  shows "get32 m a = get32 m' a"
  using assms[of 0] assms[of 1] assms[of 2] assms[of 3] by (simp add: get32_def)

lemma DRead_cases:
  assumes "dir_DRead d p = (code, d')"
  obtains r where "d' = d\<lparr>dreads := r\<rparr>" "code = Ok \<and> dpages d p \<or> code = Eio"
  using assms that[of "dreads d"] that[of "tl (dreads d)"] by (auto simp: dir_DRead_def split: list.splits if_splits)

lemma page_read_quiet [simp]: "dreads d = [] \<Longrightarrow> dpages d p \<Longrightarrow> dir_DRead d p = (Ok, d)"
  by (simp add: dir_DRead_def)

section \<open>Entries\<close>

definition entry_at :: "(nat \<Rightarrow> byte) \<Rightarrow> nat \<Rightarrow> byte list \<Rightarrow> mkfid \<Rightarrow> bool" where
  "entry_at m b n f \<longleftrightarrow> n \<noteq> [] \<and> 0 \<notin> set n \<and> (\<forall>k < length n. m (name_at b + k) = n ! k) \<and>
     m (name_at b + length n) = 0 \<and> get32 m (vnode_at b) = fst f \<and> get32 m (vunique_at b) = snd f"

text \<open>The blobs of an entry lie in one page, behind the headers.\<close>

definition room :: "nat \<Rightarrow> nat \<Rightarrow> bool" where
  "room b n \<longleftrightarrow> 0 < n \<and> 13 \<le> b \<and> 0 < b mod EPP \<and> b mod EPP + n \<le> EPP"

lemma NameBlobs_fits: "12 + length n < 32 * afs_dir_NameBlobs n"
  by (simp add: afs_dir_NameBlobs_def)

lemma NameBlobs_pos [simp]: "0 < afs_dir_NameBlobs n"
  by (simp add: afs_dir_NameBlobs_def)

lemma blobE:
  fixes b :: nat
  obtains p x where "b = 64 * p + x" "x < 64" "b div 64 = p" "b mod 64 = x"
  using that[of "b div 64" "b mod 64"] by simp

lemma room_end: "room b k \<Longrightarrow> 32 * b + 32 * k \<le> page_end b"
  by (rule blobE[of b]) (simp add: room_def page_end_def)

lemma cstr_string:
  assumes "\<forall>k < length n. m (a + k) = n ! k" and "m (a + length n) = 0" and "0 \<notin> set n" and "a + length n < lim"
  shows "cstr m a lim = n"
  using assms
proof (induction n arbitrary: a)
  case (Cons c n)
  have "cstr m (a + 1) lim = n"
    using Cons.prems by (intro Cons.IH) auto
  moreover have "m a = c" "c \<noteq> 0" using Cons.prems by (auto dest: spec[of _ 0])
  ultimately show ?case using Cons.prems(4) by (subst cstr.simps) simp
qed (simp add: cstr.simps)

lemma find_nul_zero:
  assumes "m x = 0" and "a \<le> x" and "x \<le> lim"
  shows "m (find_nul m a lim) = 0"
  using assms
proof (induction m a lim rule: find_nul.induct)
  case (1 m a lim)
  show ?case
  proof (cases "m a \<noteq> 0 \<and> a < lim")
    case True
    then have "Suc a \<le> x" using "1.prems" by (cases "a = x") auto
    then show ?thesis using 1 True by (subst find_nul.simps) simp
  next
    case False
    then have "m a = 0" using "1.prems" by (cases "a = x") auto
    then show ?thesis using False by (subst find_nul.simps) simp
  qed
qed

lemma entry_name_at: "entry_at m b n f \<Longrightarrow> room b (afs_dir_NameBlobs n) \<Longrightarrow> entry_name m b = n"
  using NameBlobs_fits[of n] room_end[of b "afs_dir_NameBlobs n"] unfolding entry_name_def
  by (intro cstr_string) (auto simp: entry_at_def)

lemma verified_entry:
  assumes "entry_at (dmem d) b n f" and "room b (afs_dir_NameBlobs n)" and "dpages d (b div EPP)"
    and "afs_dir_GetVerifiedBlob d b = (code, d')"
  obtains r where "d' = d\<lparr>dreads := r\<rparr>" "code = Ok \<or> code = Eio" "dreads d = [] \<Longrightarrow> code = Ok \<and> d' = d"
proof -
  obtain c d1 where c: "dir_DRead d (b div EPP) = (c, d1)" by (metis prod.collapse)
  obtain r where r: "d1 = d\<lparr>dreads := r\<rparr>" "c = Ok \<or> c = Eio" using DRead_cases[OF c] by metis
  have "name_at b + length n \<le> 32 * b + (AFS_PAGESIZE - 32 * (b mod EPP) - 1)"
    using NameBlobs_fits[of n] assms(2) unfolding room_def by (elim conjE) linarith
  then have "dmem d (find_nul (dmem d) (name_at b) (32 * b + (AFS_PAGESIZE - 32 * (b mod EPP) - 1))) = 0"
    using find_nul_zero[of "dmem d" "name_at b + length n" "name_at b"] assms(1) by (simp add: entry_at_def)
  then have "d' = d1" "code = c" using assms(4) c r by (auto simp: afs_dir_GetVerifiedBlob_def Let_def split: if_splits)
  moreover have "dreads d = [] \<Longrightarrow> c = Ok \<and> d1 = d" using c assms(3) by simp
  ultimately show thesis using that r by blast
qed

section \<open>What a directory holds\<close>

type_synonym dentry = "nat \<times> byte list \<times> mkfid"

text \<open>The entries on the chain that starts at a blob.\<close>

fun chain :: "(nat \<Rightarrow> byte) \<Rightarrow> nat \<Rightarrow> dentry list \<Rightarrow> bool" where
  "chain m x [] = (x = 0)"
| "chain m x ((b, n, f) # es) = (x = b \<and> b \<noteq> 0 \<and> entry_at m b n f \<and> chain m (get16 m (next_at b)) es)"

definition blobs :: "dentry \<Rightarrow> nat set" where
  "blobs e = {fst e..<fst e + afs_dir_NameBlobs (fst (snd e))}"

definition alloc :: "(nat \<Rightarrow> byte) \<Rightarrow> nat \<Rightarrow> bool" where
  "alloc m b = blob_bit m (b div EPP) (b mod EPP)"

abbreviation (input) "npages m \<equiv> get16 m pgcount_at"

definition nfree :: "(nat \<Rightarrow> byte) \<Rightarrow> nat \<Rightarrow> nat" where
  "nfree m p = card {x. x < EPP \<and> \<not> blob_bit m p x}"

text \<open>The pages there are, and the counts of their free blobs.\<close>

definition pages_ok :: "dirfile \<Rightarrow> bool" where
  "pages_ok d \<longleftrightarrow> 0 < npages (dmem d) \<and> npages (dmem d) \<le> BIGMAXPAGES \<and> (\<forall>p. dpages d p \<longleftrightarrow> p < npages (dmem d)) \<and>
     (\<forall>b < 13. alloc (dmem d) b) \<and> (\<forall>p < npages (dmem d). blob_bit (dmem d) p 0) \<and>
     (\<forall>p < MAXPAGES. dmem d (alloMap_at p) = of_nat (if p < npages (dmem d) then nfree (dmem d) p else EPP))"

definition entry_ok :: "(nat \<Rightarrow> byte) \<Rightarrow> nat \<Rightarrow> dentry \<Rightarrow> bool" where
  "entry_ok m i e \<longleftrightarrow> afs_dir_DirHash (fst (snd e)) = i \<and> room (fst e) (afs_dir_NameBlobs (fst (snd e))) \<and>
     fst e div EPP < npages m \<and> (\<forall>x \<in> blobs e. alloc m x)"

definition bucket_ok :: "(nat \<Rightarrow> byte) \<Rightarrow> nat \<Rightarrow> dentry list \<Rightarrow> bool" where
  "bucket_ok m i es \<longleftrightarrow> chain m (get16 m (hashTable_at i)) es \<and> distinct (map fst es) \<and> distinct (map (fst \<circ> snd) es) \<and>
     (\<forall>e \<in> set es. entry_ok m i e)"

definition entries :: "(nat \<Rightarrow> dentry list) \<Rightarrow> dentry set" where
  "entries ch = (\<Union>i < NHASHENT. set (ch i))"

definition rep :: "dirfile \<Rightarrow> (nat \<Rightarrow> dentry list) \<Rightarrow> bool" where
  "rep d ch \<longleftrightarrow> pages_ok d \<and> (\<forall>i < NHASHENT. bucket_ok (dmem d) i (ch i)) \<and>
     (\<forall>e \<in> entries ch. \<forall>e' \<in> entries ch. e \<noteq> e' \<longrightarrow> blobs e \<inter> blobs e' = {})"

lemma DirHash_bound [simp]: "afs_dir_DirHash s < NHASHENT"
proof -
  have "unat (h AND 127 :: u32) < 128" for h :: u32
  proof -
    have "h AND 127 = take_bit 7 h" by (simp add: take_bit_eq_mask mask_eq_exp_minus_1)
    then show ?thesis using take_bit_nat_less_exp[of 7 "unat h"] by (simp add: unsigned_take_bit_eq)
  qed
  then show ?thesis by (simp add: afs_dir_DirHash_def Let_def)
qed

section \<open>Finding an entry\<close>

definition found :: "dentry list \<Rightarrow> byte list \<Rightarrow> nat \<Rightarrow> nat \<Rightarrow> nat \<Rightarrow> bool" where
  "found es n a prev b \<longleftrightarrow> (\<exists>es1 f es2. es = es1 @ (b, n, f) # es2 \<and> n \<notin> set (map (fst \<circ> snd) es1) \<and>
     prev = (if es1 = [] then a else next_at (fst (last es1))))"

lemma find_loop_spec:
  assumes "find_loop k d n a b = (code, prev, b', d')" and "chain (dmem d) b es" and "es \<noteq> []" and "length es \<le> k"
    and "\<forall>e \<in> set es. room (fst e) (afs_dir_NameBlobs (fst (snd e))) \<and> dpages d (fst e div EPP)"
  shows "(\<exists>r. d' = d\<lparr>dreads := r\<rparr>) \<and> (code = Eio \<or> code = Enoent \<and> n \<notin> set (map (fst \<circ> snd) es) \<or> code = Ok \<and> found es n a prev b') \<and>
    (dreads d = [] \<longrightarrow> code \<noteq> Eio \<and> d' = d)"
  using assms
proof (induction k arbitrary: d a b es)
  case (Suc k)
  obtain n0 f0 es' where es: "es = (b, n0, f0) # es'" and e0: "entry_at (dmem d) b n0 f0"
    and ch: "chain (dmem d) (get16 (dmem d) (next_at b)) es'"
    using Suc.prems(2,3) by (cases es) auto
  have nm: "entry_name (dmem d) b = n0" using entry_name_at[OF e0] Suc.prems(5) es by simp
  have same: "\<exists>r. d = d\<lparr>dreads := r\<rparr>" by (rule exI[of _ "dreads d"]) simp
  consider "n = n0" | "n \<noteq> n0" "get16 (dmem d) (next_at b) = 0" | "n \<noteq> n0" "get16 (dmem d) (next_at b) \<noteq> 0" by blast
  then show ?case
  proof cases
    case 1
    then have "code = Ok" "prev = a" "b' = b" "d' = d" using Suc.prems(1) nm by simp_all
    moreover have "found es n a a b" unfolding found_def es 1 by (rule exI[of _ "[]"]) simp
    ultimately show ?thesis using same by simp
  next
    case 2
    then have "code = Enoent" "d' = d" using Suc.prems(1) nm by simp_all
    moreover have "es' = []" using ch 2(2) by (cases es') auto
    ultimately show ?thesis using same es 2 by simp
  next
    case 3
    let ?b1 = "get16 (dmem d) (next_at b)"
    obtain n1 f1 es2 where es': "es' = (?b1, n1, f1) # es2" and e1: "entry_at (dmem d) ?b1 n1 f1" using ch 3(2) by (cases es') auto
    obtain c d1 where c: "afs_dir_GetVerifiedBlob d ?b1 = (c, d1)" by (metis prod.collapse)
    have ok1: "room ?b1 (afs_dir_NameBlobs n1)" "dpages d (?b1 div EPP)" using Suc.prems(5) unfolding es es' by simp_all
    obtain r where r: "d1 = d\<lparr>dreads := r\<rparr>" "c = Ok \<or> c = Eio" "dreads d = [] \<Longrightarrow> c = Ok \<and> d1 = d"
      using verified_entry[OF e1 ok1 c] by blast
    show ?thesis
    proof (cases "c = Ok")
      case True
      then have run: "find_loop k d1 n (next_at b) ?b1 = (code, prev, b', d')" using Suc.prems(1) 3 nm c by simp
      have ih: "(\<exists>r. d' = d1\<lparr>dreads := r\<rparr>) \<and> (code = Eio \<or> code = Enoent \<and> n \<notin> set (map (fst \<circ> snd) es') \<or> code = Ok \<and> found es' n (next_at b) prev b') \<and>
        (dreads d1 = [] \<longrightarrow> code \<noteq> Eio \<and> d' = d1)"
        using Suc.IH[OF run, of es'] ch Suc.prems(4,5) es es' r(1) by auto
      have "found es n a prev b'" if "found es' n (next_at b) prev b'"
      proof -
        obtain as f bs where "es' = as @ (b', n, f) # bs" "n \<notin> set (map (fst \<circ> snd) as)"
          "prev = (if as = [] then next_at b else next_at (fst (last as)))" using \<open>found es' n (next_at b) prev b'\<close> by (auto simp: found_def)
        then show ?thesis unfolding found_def es using 3(1) by (intro exI[of _ "(b, n0, f0) # as"] exI[of _ f] exI[of _ bs]) auto
      qed
      moreover have "\<exists>r. d' = d\<lparr>dreads := r\<rparr>" using ih r(1) by auto
      moreover have "dreads d = [] \<longrightarrow> code \<noteq> Eio \<and> d' = d" using ih r(3) by metis
      ultimately show ?thesis using ih 3(1) es by auto
    next
      case False
      then have "code = c" "d' = d1" using Suc.prems(1) 3 nm c by auto
      then show ?thesis using r False by auto
    qed
  qed
qed simp

lemma repD:
  assumes "rep d ch" and "i < NHASHENT"
  shows "chain (dmem d) (get16 (dmem d) (hashTable_at i)) (ch i)" "distinct (map fst (ch i))" "distinct (map (fst \<circ> snd) (ch i))"
    "e \<in> set (ch i) \<Longrightarrow> entry_ok (dmem d) i e" "e \<in> set (ch i) \<Longrightarrow> e \<in> entries ch"
  using assms by (auto simp: rep_def bucket_ok_def entries_def)

lemma rep_pages: "rep d ch \<Longrightarrow> pages_ok d"
  by (simp add: rep_def)

lemma rep_entry:
  assumes "rep d ch" and "i < NHASHENT" and "e \<in> set (ch i)"
  shows "room (fst e) (afs_dir_NameBlobs (fst (snd e)))" "dpages d (fst e div EPP)"
  using repD(4)[OF assms] rep_pages[OF assms(1)] by (simp_all add: entry_ok_def pages_ok_def)

lemma chain_entry: "chain m x es \<Longrightarrow> (b, n, f) \<in> set es \<Longrightarrow> entry_at m b n f"
  by (induction m x es rule: chain.induct) auto

lemma chain_length:
  assumes "rep d ch" and "i < NHASHENT"
  shows "length (ch i) \<le> BIGMAXPAGES * EPP"
proof -
  have "fst e < BIGMAXPAGES * EPP" if "e \<in> set (ch i)" for e
  proof -
    have "fst e div EPP < BIGMAXPAGES" using repD(4)[OF assms that] rep_pages[OF assms(1)] by (simp add: entry_ok_def pages_ok_def)
    then show ?thesis by (simp add: div_less_iff_less_mult)
  qed
  then have "set (map fst (ch i)) \<subseteq> {..<BIGMAXPAGES * EPP}" by auto
  then have "card (set (map fst (ch i))) \<le> card {..<BIGMAXPAGES * EPP}" by (rule card_mono[rotated]) simp
  then show ?thesis using distinct_card[OF repD(2)[OF assms]] by simp
qed

lemma rep_reads [simp]: "rep (d\<lparr>dreads := r\<rparr>) ch = rep d ch"
  by (simp add: rep_def pages_ok_def)

text \<open>The search, whatever reads fail.\<close>

lemma FindItem_spec:
  assumes "rep d ch" and "FindItem d n = (code, prev, b, d')"
  shows "(\<exists>r. d' = d\<lparr>dreads := r\<rparr>) \<and>
    (code = Eio \<or> code = Enoent \<and> n \<notin> set (map (fst \<circ> snd) (ch (afs_dir_DirHash n))) \<or>
     code = Ok \<and> found (ch (afs_dir_DirHash n)) n (hashTable_at (afs_dir_DirHash n)) prev b) \<and>
    (dreads d = [] \<longrightarrow> code \<noteq> Eio \<and> d' = d)"
proof -
  let ?i = "afs_dir_DirHash n" and ?h = "get16 (dmem d) (hashTable_at (afs_dir_DirHash n))"
  note R = repD[OF assms(1) DirHash_bound[of n]]
  obtain c1 d1 where c1: "dir_DRead d 0 = (c1, d1)" by (metis prod.collapse)
  obtain r1 where r1: "d1 = d\<lparr>dreads := r1\<rparr>" "c1 = Ok \<or> c1 = Eio" using DRead_cases[OF c1] by metis
  have p0: "dpages d 0" using rep_pages[OF assms(1)] by (simp add: pages_ok_def)
  have q1: "dreads d = [] \<Longrightarrow> c1 = Ok \<and> d1 = d" using c1 p0 by simp
  have fr: "\<exists>r. d1 = d\<lparr>dreads := r\<rparr>" using r1(1) by blast
  consider "c1 = Eio" | "c1 = Ok" "?h = 0" | "c1 = Ok" "?h \<noteq> 0" using r1(2) by blast
  then show ?thesis
  proof cases
    case 1
    then have "code = Eio" "d' = d1" using assms(2) c1 by (simp_all add: FindItem_def)
    then show ?thesis using fr q1 1 by auto
  next
    case 2
    then have "code = Enoent" "d' = d1" using assms(2) c1 r1(1) by (simp_all add: FindItem_def)
    moreover have "ch ?i = []" using R(1) 2(2) by (cases "ch ?i") auto
    ultimately show ?thesis using fr q1 by auto
  next
    case 3
    obtain n0 f0 es where e: "ch ?i = (?h, n0, f0) # es" "entry_at (dmem d1) ?h n0 f0" using R(1) 3(2) r1(1) by (cases "ch ?i") auto
    have ok: "room ?h (afs_dir_NameBlobs n0)" "dpages d1 (?h div EPP)"
      using rep_entry[OF assms(1) DirHash_bound[of n], of "(?h, n0, f0)"] e(1) r1(1) by simp_all
    obtain c2 d2 where c2: "afs_dir_GetVerifiedBlob d1 ?h = (c2, d2)" by (metis prod.collapse)
    obtain r2 where r2: "d2 = d1\<lparr>dreads := r2\<rparr>" "c2 = Ok \<or> c2 = Eio" "dreads d1 = [] \<Longrightarrow> c2 = Ok \<and> d2 = d1"
      using verified_entry[OF e(2) ok c2] by blast
    have fr2: "\<exists>r. d2 = d\<lparr>dreads := r\<rparr>" using r1(1) r2(1) by auto
    show ?thesis
    proof (cases "c2 = Ok")
      case True
      then have run: "find_loop (BIGMAXPAGES * EPP) d2 n (hashTable_at ?i) ?h = (code, prev, b, d')"
        using assms(2) c1 c2 3 r1(1) by (simp add: FindItem_def Let_def)
      have "chain (dmem d2) ?h (ch ?i)" using R(1) r1(1) r2(1) by simp
      moreover have "\<forall>e \<in> set (ch ?i). room (fst e) (afs_dir_NameBlobs (fst (snd e))) \<and> dpages d2 (fst e div EPP)"
        using rep_entry[OF assms(1) DirHash_bound[of n]] r1(1) r2(1) by simp
      ultimately have s: "(\<exists>r. d' = d2\<lparr>dreads := r\<rparr>) \<and> (code = Eio \<or> code = Enoent \<and> n \<notin> set (map (fst \<circ> snd) (ch ?i)) \<or> code = Ok \<and> found (ch ?i) n (hashTable_at ?i) prev b) \<and>
          (dreads d2 = [] \<longrightarrow> code \<noteq> Eio \<and> d' = d2)"
        using find_loop_spec[OF run, of "ch ?i"] chain_length[OF assms(1) DirHash_bound[of n]] e(1) by simp
      moreover have "\<exists>r. d' = d\<lparr>dreads := r\<rparr>" using s fr2 by auto
      moreover have "dreads d = [] \<longrightarrow> code \<noteq> Eio \<and> d' = d" using s q1 r2(3) by metis
      ultimately show ?thesis by blast
    next
      case False
      then have "code = Eio" "d' = d2" using assms(2) c1 c2 3 r1(1) r2(2) by (auto simp: FindItem_def)
      moreover have "dreads d \<noteq> []" using False q1 r2(3) by metis
      ultimately show ?thesis using fr2 by blast
    qed
  qed
qed

section \<open>The bitmaps\<close>

lemma div8: "x < 64 \<Longrightarrow> x div 8 < 8" for x :: nat
  by (simp add: less_mult_imp_div_less)

lemma bitmap_addr:
  assumes "x < 64" and "y < 64"
  shows "freebitmap_at p + x div 8 = freebitmap_at q + y div 8 \<longleftrightarrow> p = q \<and> x div 8 = y div 8"
proof
  assume e: "freebitmap_at p + x div 8 = freebitmap_at q + y div 8"
  have l: "x div 8 < 8" "y div 8 < 8" using assms div8 by auto
  have "p = q" using e l by (cases p q rule: linorder_cases) linarith+
  then show "p = q \<and> x div 8 = y div 8" using e by simp
qed simp

lemma blob_bit_set_blob:
  assumes "x < 64" and "y < 64"
  shows "blob_bit (set_blob p v x m) q y = (if q = p \<and> y = x then v else blob_bit m q y)"
proof (cases "q = p \<and> y div 8 = x div 8")
  case True
  have "y mod 8 = x mod 8 \<longleftrightarrow> y = x" using True div_mult_mod_eq[of x 8] div_mult_mod_eq[of y 8] by metis
  then show ?thesis using True
    by (auto simp: blob_bit_def set_blob_def bit_simps)
next
  case False
  then have "freebitmap_at q + y div 8 \<noteq> freebitmap_at p + x div 8" using bitmap_addr[OF assms(2,1), of q p] by blast
  moreover have "\<not> (q = p \<and> y = x)" using False by auto
  ultimately show ?thesis unfolding blob_bit_def set_blob_def by (simp only: fun_upd_apply if_False)
qed

lemma set_blob_other:
  assumes "x < 64" and "a < freebitmap_at p \<or> freebitmap_at p + 8 \<le> a"
  shows "set_blob p v x m a = m a"
  using assms div8[of x] by (auto simp: set_blob_def)

abbreviation set_blobs :: "nat \<Rightarrow> bool \<Rightarrow> nat \<Rightarrow> nat \<Rightarrow> (nat \<Rightarrow> byte) \<Rightarrow> nat \<Rightarrow> byte" where
  "set_blobs p v j n m \<equiv> fold (\<lambda>k. set_blob p v (j + k)) [0..<n] m"

lemma blob_bit_set_blobs:
  assumes "j + n \<le> 64" and "y < 64"
  shows "blob_bit (set_blobs p v j n m) q y = (if q = p \<and> j \<le> y \<and> y < j + n then v else blob_bit m q y)"
  using assms by (induction n) (auto simp: blob_bit_set_blob)

lemma set_blobs_other:
  assumes "j + n \<le> 64" and "a < freebitmap_at p \<or> freebitmap_at p + 8 \<le> a"
  shows "set_blobs p v j n m a = m a"
  using assms(1) by (induction n) (simp_all add: set_blob_other[OF _ assms(2)])

lemma alloc_set_blobs:
  assumes "j + n \<le> 64"
  shows "alloc (set_blobs p v j n m) b = (if 64 * p + j \<le> b \<and> b < 64 * p + j + n then v else alloc m b)"
proof -
  obtain q x where b: "b = 64 * q + x" "x < 64" "b div 64 = q" "b mod 64 = x" by (rule blobE)
  have "64 * p + j \<le> b \<and> b < 64 * p + j + n \<longleftrightarrow> q = p \<and> j \<le> x \<and> x < j + n"
    using assms b(1,2) by (cases p q rule: linorder_cases) auto
  then show ?thesis using assms b by (simp add: alloc_def blob_bit_set_blobs)
qed

lemma nfree_le: "nfree m p \<le> 64"
proof -
  have "nfree m p \<le> card {..<64 :: nat}" unfolding nfree_def by (rule card_mono) auto
  then show ?thesis by simp
qed

lemma nfree_less: "blob_bit m p 0 \<Longrightarrow> nfree m p < 64"
proof -
  assume b: "blob_bit m p 0"
  have "{x. x < EPP \<and> \<not> blob_bit m p x} \<subseteq> {1..<64}" using b by (auto simp: Suc_le_eq intro!: gr0I)
  then have "nfree m p \<le> card {1..<64 :: nat}" unfolding nfree_def by (rule card_mono[rotated]) simp
  then show ?thesis by simp
qed

lemma nfree_take:
  assumes "j + n \<le> 64" and "\<And>x. j \<le> x \<Longrightarrow> x < j + n \<Longrightarrow> \<not> blob_bit m p x"
  shows "nfree (set_blobs p True j n m) p + n = nfree m p"
proof -
  have "{x. x < EPP \<and> \<not> blob_bit m p x} = {x. x < EPP \<and> \<not> blob_bit (set_blobs p True j n m) p x} \<union> {j..<j + n}"
    using assms by (auto simp: blob_bit_set_blobs split: if_splits)
  moreover have "{x. x < EPP \<and> \<not> blob_bit (set_blobs p True j n m) p x} \<inter> {j..<j + n} = {}"
    using assms by (auto simp: blob_bit_set_blobs)
  ultimately show ?thesis unfolding nfree_def by (simp add: card_Un_disjoint)
qed

lemma nfree_free:
  assumes "j + n \<le> 64" and "\<And>x. j \<le> x \<Longrightarrow> x < j + n \<Longrightarrow> blob_bit m p x"
  shows "nfree (set_blobs p False j n m) p = nfree m p + n"
proof -
  have "{x. x < EPP \<and> \<not> blob_bit (set_blobs p False j n m) p x} = {x. x < EPP \<and> \<not> blob_bit m p x} \<union> {j..<j + n}"
    using assms by (auto simp: blob_bit_set_blobs split: if_splits)
  moreover have "{x. x < EPP \<and> \<not> blob_bit m p x} \<inter> {j..<j + n} = {}"
    using assms by auto
  ultimately show ?thesis unfolding nfree_def by (simp add: card_Un_disjoint)
qed

lemma nfree_cong: "(\<And>x. x < 64 \<Longrightarrow> blob_bit m p x = blob_bit m' p x) \<Longrightarrow> nfree m p = nfree m' p"
  unfolding nfree_def by (rule arg_cong[of _ _ card]) auto

section \<open>Frames\<close>

definition in_entry :: "dentry \<Rightarrow> nat \<Rightarrow> bool" where
  "in_entry e a \<longleftrightarrow> 32 * fst e \<le> a \<and> a < 32 * (fst e + afs_dir_NameBlobs (fst (snd e)))"

lemma chain_cong:
  assumes "chain m x es" and "\<And>e a. e \<in> set es \<Longrightarrow> in_entry e a \<Longrightarrow> m' a = m a"
  shows "chain m' x es"
  using assms
proof (induction m x es rule: chain.induct)
  case (2 m x b n f es)
  have s: "m' a = m a" if "32 * b \<le> a" "a < 32 * (b + afs_dir_NameBlobs n)" for a using "2.prems"(2)[of "(b, n, f)" a] that by (simp add: in_entry_def)
  have l: "12 + length n < 32 * afs_dir_NameBlobs n" by (rule NameBlobs_fits)
  have "get16 m' (next_at b) = get16 m (next_at b)" using l by (intro get16_cong s) simp_all
  moreover have "get32 m' (vnode_at b) = get32 m (vnode_at b)" "get32 m' (vunique_at b) = get32 m (vunique_at b)"
    using l by (intro get32_cong s; simp)+
  moreover have "m' (name_at b + k) = m (name_at b + k)" if "k \<le> length n" for k using l that by (intro s) simp_all
  ultimately have "entry_at m' b n f" "get16 m' (next_at b) = get16 m (next_at b)" using "2.prems"(1) by (auto simp: entry_at_def)
  moreover have "chain m' (get16 m (next_at b)) es" 
  proof (rule "2.IH")
    show "chain m (get16 m (next_at b)) es" using "2.prems"(1) by simp
    show "m' a = m a" if "e \<in> set es" "in_entry e a" for e a
      using "2.prems"(2)[of e a] that by simp
  qed
  ultimately show ?case using "2.prems"(1) by simp
qed simp

text \<open>A byte behind the headers, in a page there is.\<close>

lemma room_addr:
  assumes "room b n" and "32 * b \<le> a" and "a < 32 * (b + n)"
  shows "416 \<le> a" "32 \<le> a mod 2048" "a div 2048 = b div 64"
proof -
  obtain p x where b: "b = 64 * p + x" "x < 64" "b div 64 = p" "b mod 64 = x" by (rule blobE)
  obtain y where y: "a = 2048 * p + y" "y < 2048" "32 \<le> y"
    using assms b that[of "a - 2048 * p"] by (auto simp: room_def)
  show "416 \<le> a" using assms by (simp add: room_def)
  show "32 \<le> a mod 2048" "a div 2048 = b div 64" using y b(3) by simp_all
qed

lemma rep_frame:
  assumes "rep d ch" and "pages_ok d'" and "npages (dmem d) \<le> npages (dmem d')"
    and "\<And>e a. e \<in> entries ch \<Longrightarrow> in_entry e a \<Longrightarrow>
      416 \<le> a \<Longrightarrow> 32 \<le> a mod 2048 \<Longrightarrow> a div 2048 < npages (dmem d) \<Longrightarrow> dmem d' a = dmem d a"
    and "\<And>a. 160 \<le> a \<Longrightarrow> a < 416 \<Longrightarrow> dmem d' a = dmem d a"
    and "\<And>e b. e \<in> entries ch \<Longrightarrow> b \<in> blobs e \<Longrightarrow> alloc (dmem d') b"
  shows "rep d' ch"
proof -
  have "bucket_ok (dmem d') i (ch i)" if i: "i < NHASHENT" for i
  proof -
    note R = repD[OF assms(1) i]
    have "get16 (dmem d') (hashTable_at i) = get16 (dmem d) (hashTable_at i)" using i by (intro get16_cong assms(5)) simp_all
    moreover have "chain (dmem d') (get16 (dmem d) (hashTable_at i)) (ch i)"
    proof (rule chain_cong[OF R(1)])
      fix e a
      assume e: "e \<in> set (ch i)" "in_entry e a"
      have "room (fst e) (afs_dir_NameBlobs (fst (snd e)))" "fst e div 64 < npages (dmem d)" using R(4)[OF e(1)] by (simp_all add: entry_ok_def)
      then show "dmem d' a = dmem d a" using room_addr[of "fst e" _ a] e(2) assms(4)[OF R(5)[OF e(1)] e(2)] by (auto simp: in_entry_def)
    qed
    moreover have "entry_ok (dmem d') i e" if "e \<in> set (ch i)" for e
      using R(4)[OF that] R(5)[OF that] assms(3,6) by (auto simp: entry_ok_def)
    ultimately show ?thesis using R by (simp add: bucket_ok_def)
  qed
  then show ?thesis using assms(1,2) by (simp add: rep_def)
qed

section \<open>Allocation\<close>

lemma addrE:
  fixes a :: nat
  obtains p y where "a = 2048 * p + y" "y < 2048" "a div 2048 = p" "a mod 2048 = y"
  using that[of "a div 2048" "a mod 2048"] by simp

lemma other_page: "a div 2048 \<noteq> p \<Longrightarrow> a < 2048 * p \<or> 2048 * p + 2048 \<le> a" for a p :: nat
  by (rule addrE[of a]) (cases "a div 2048" p rule: linorder_cases; simp)

lemma blob_bit_cong: "(\<And>a. 2048 * p + 5 \<le> a \<Longrightarrow> a < 2048 * p + 13 \<Longrightarrow> m a = m' a) \<Longrightarrow> x < 64 \<Longrightarrow> blob_bit m p x = blob_bit m' p x"
  using div8[of x] by (simp add: blob_bit_def)

lemma sint_small: "k < 128 \<Longrightarrow> sint (of_nat k :: byte) = int k"
  by (simp add: sint_uint unsigned_of_nat take_bit_nat_eq_self signed_take_bit_int_eq_self)

lemma AddPage_other: "a div 2048 \<noteq> p \<Longrightarrow> dmem (AddPage d p) a = dmem d a"
  using other_page[of a p] by (auto simp: AddPage_def Let_def dir_DNew_def)

lemma AddPage_bits: "x < 64 \<Longrightarrow> blob_bit (dmem (AddPage d p)) p x = (x = 0)"
  using div8[of x] by (auto simp: AddPage_def Let_def blob_bit_def mwrite_in nth_Cons' bit_1_iff mod_eq_0_iff_dvd div_eq_0_iff)

lemma AddPage_sel [simp]: "dpages (AddPage d p) = (dpages d)(p := True)" "dreads (AddPage d p) = dreads d"
  by (simp_all add: AddPage_def Let_def dir_DNew_def)

lemma entriesE:
  assumes "e \<in> entries ch"
  obtains i where "i < NHASHENT" "e \<in> set (ch i)"
  using assms by (auto simp: entries_def)

lemma entry_room: "rep d ch \<Longrightarrow> e \<in> entries ch \<Longrightarrow> room (fst e) (afs_dir_NameBlobs (fst (snd e)))"
  by (auto elim!: entriesE dest: rep_entry(1))

lemma room_blob: "room b n \<Longrightarrow> b \<le> x \<Longrightarrow> x < b + n \<Longrightarrow> x div 64 = b div 64 \<and> 13 \<le> x \<and> 0 < x mod 64"
proof -
  assume a: "room b n" "b \<le> x" "x < b + n"
  obtain p y where b: "b = 64 * p + y" "y < 64" "b div 64 = p" "b mod 64 = y" by (rule blobE)
  obtain z where "x = 64 * p + z" "z < 64" "0 < z" using a b that[of "x - 64 * p"] by (auto simp: room_def)
  then show ?thesis using a b(3) by (simp add: room_def)
qed

lemma entry_blob:
  assumes "rep d ch" and "e \<in> entries ch" and "b \<in> blobs e"
  shows "alloc (dmem d) b" "b div 64 < npages (dmem d)" "13 \<le> b" "0 < b mod 64"
proof -
  obtain i where "i < NHASHENT" "e \<in> set (ch i)" using assms(2) by (rule entriesE)
  then have "entry_ok (dmem d) i e" using repD(4)[OF assms(1)] by blast
  then show "alloc (dmem d) b" "b div 64 < npages (dmem d)" "13 \<le> b" "0 < b mod 64"
    using assms(3) room_blob[of "fst e" "afs_dir_NameBlobs (fst (snd e))" b] by (auto simp: entry_ok_def blobs_def)
qed

lemma new_page_ok:
  assumes "rep d ch" and "i = npages (dmem d)" and "i < BIGMAXPAGES" and "npages (dmem d') = i + 1"
    and "\<And>a. 2 \<le> a \<Longrightarrow> a div 2048 \<noteq> i \<Longrightarrow> a \<noteq> 32 + i \<Longrightarrow> dmem d' a = dmem d a"
    and "MAXPAGES \<le> i \<Longrightarrow> dmem d' (32 + i) = dmem d (32 + i)" and "i < MAXPAGES \<Longrightarrow> dmem d' (32 + i) = of_nat 63"
    and "\<And>x. x < 64 \<Longrightarrow> blob_bit (dmem d') i x = (x = 0)" and "dpages d' = (dpages d)(i := True)"
  shows "rep d' ch"
proof -
  have P: "pages_ok d" using assms(1) by (rule rep_pages)
  have i0: "0 < i" using P assms(2) by (simp add: pages_ok_def)
  have bits: "blob_bit (dmem d') p x = blob_bit (dmem d) p x" if "p < i" "x < 64" for p x
  proof (rule blob_bit_cong)
    fix a
    assume a: "2048 * p + 5 \<le> a" "a < 2048 * p + 13"
    then have "a div 2048 = p" by simp
    then have "a \<noteq> 32 + i \<or> MAXPAGES \<le> i" using that(1) a by (cases p) auto
    then show "dmem d' a = dmem d a" using assms(5,6) a \<open>a div 2048 = p\<close> that(1) by (cases "a = 32 + i") auto
  qed (rule that(2))
  have al: "alloc (dmem d') b = alloc (dmem d) b" if "b div 64 < i" for b using bits that by (simp add: alloc_def)
  have nf: "nfree (dmem d') p = nfree (dmem d) p" if "p < i" for p using bits[OF that] by (intro nfree_cong) simp
  have "{x. x < EPP \<and> \<not> blob_bit (dmem d') i x} = {1..<64}" using assms(8) by auto
  then have nf': "nfree (dmem d') i = 63" by (simp add: nfree_def)
  have map: "dmem d' (32 + p) = dmem d (32 + p)" if "p < 128" "p \<noteq> i" for p using assms(5)[of "32 + p"] i0 that by simp
  have "pages_ok d'" unfolding pages_ok_def assms(4,9)
  proof (intro conjI allI impI)
    show "alloc (dmem d') b" if "b < 13" for b using al[of b] that i0 P by (simp add: pages_ok_def)
    show "blob_bit (dmem d') p 0" if "p < i + 1" for p using that bits[of p 0] assms(2,8) P by (cases "p = i") (auto simp: pages_ok_def)
    show "dmem d' (32 + p) = of_nat (if p < i + 1 then nfree (dmem d') p else 64)" if "p < 128" for p
      using that P map nf nf' assms(2,7) by (cases "p = i") (auto simp: pages_ok_def)
  qed (use assms(2,3) P in \<open>auto simp: pages_ok_def\<close>)
  then show ?thesis
  proof (rule rep_frame[OF assms(1)])
    show "dmem d' a = dmem d a" if "416 \<le> a" "a div 2048 < npages (dmem d)" for a
      using that assms(2,5,6) by (cases "a = 32 + i"; cases "MAXPAGES \<le> i") auto
    show "dmem d' a = dmem d a" if "160 \<le> a" "a < 416" for a
      using that i0 assms(5,6) by (cases "a = 32 + i"; cases "MAXPAGES \<le> i") auto
    show "alloc (dmem d') b" if "e \<in> entries ch" "b \<in> blobs e" for e b
      using entry_blob[OF assms(1) that] al[of b] assms(2) by simp
  qed (use assms(2,4) in simp)
qed

lemma page_ready_same:
  assumes "pages_ok d" and "i < npages (dmem d)"
  shows "page_ready d i = d"
proof -
  have "dmem d (32 + i) \<noteq> of_nat 64" if "i < 128"
  proof -
    have "nfree (dmem d) i < 64" using assms by (auto simp: pages_ok_def intro: nfree_less)
    then have "sint (of_nat (nfree (dmem d) i) :: byte) \<noteq> sint (of_nat 64 :: byte)" using sint_small[of "nfree (dmem d) i"] sint_small[of 64] by linarith
    then have "(of_nat (nfree (dmem d) i) :: byte) \<noteq> of_nat 64" by metis
    then show ?thesis using assms that by (simp add: pages_ok_def)
  qed
  then show ?thesis using assms(2) by (auto simp: page_ready_def Let_def)
qed

lemma page_ready_new:
  assumes "rep d ch" and "i = npages (dmem d)" and "i < BIGMAXPAGES"
  shows "rep (page_ready d i) ch" "npages (dmem (page_ready d i)) = i + 1" "dreads (page_ready d i) = dreads d"
    "x < 64 \<Longrightarrow> blob_bit (dmem (page_ready d i)) i x = (x = 0)"
proof -
  have P: "pages_ok d" using assms(1) by (rule rep_pages)
  have i: "0 < i" using assms(2) P by (simp add: pages_ok_def)
  let ?d = "if i < 128 then wr (wr (AddPage d i) (alloMap_at i) [of_nat (EPP - 1)]) pgcount_at (bytes16 (i + 1))
    else wr (AddPage d i) pgcount_at (bytes16 (i + 1))"
  have e: "page_ready d i = ?d" using i assms(2) P by (auto simp: page_ready_def Let_def pages_ok_def)
  have np: "npages (dmem ?d) = i + 1" using assms(3) by simp
  have bits: "blob_bit (dmem ?d) i x = (x = 0)" if "x < 64" for x
    using that i by (subst blob_bit_cong[where m' = "dmem (AddPage d i)"]) (auto simp: AddPage_bits)
  have "rep ?d ch"
  proof (rule new_page_ok[OF assms np])
    show "dmem ?d a = dmem d a" if "2 \<le> a" "a div 2048 \<noteq> i" "a \<noteq> 32 + i" for a
      using that AddPage_other[of a i d] by (cases "a < 32 + i") auto
    show "128 \<le> i \<Longrightarrow> dmem ?d (32 + i) = dmem d (32 + i)" using i AddPage_other[of "32 + i" i d] assms(3) by simp
    show "i < 128 \<Longrightarrow> dmem ?d (32 + i) = of_nat 63" by (simp add: mwrite_in)
    show "blob_bit (dmem ?d) i x = (x = 0)" if "x < 64" for x using that by (rule bits)
  qed simp
  then show "rep (page_ready d i) ch" "npages (dmem (page_ready d i)) = i + 1" "dreads (page_ready d i) = dreads d"
    "x < 64 \<Longrightarrow> blob_bit (dmem (page_ready d i)) i x = (x = 0)"
    using e np bits[of x] by simp_all
qed

lemma page_ready_ok:
  assumes "rep d ch" and "i \<le> npages (dmem d)" and "i < BIGMAXPAGES"
  shows "rep (page_ready d i) ch" "i < npages (dmem (page_ready d i))"
  using assms page_ready_same[OF rep_pages[OF assms(1)], of i] page_ready_new[OF assms(1) _ assms(3)] by (cases "i < npages (dmem d)"; simp)+

text \<open>Setting or clearing the bits of some blobs of a page and keeping its count.\<close>

definition mark :: "dirfile \<Rightarrow> nat \<Rightarrow> bool \<Rightarrow> nat \<Rightarrow> nat \<Rightarrow> dirfile" where
  "mark d i v j n = d\<lparr>dmem := set_blobs i v j n
     (if i < MAXPAGES then mwrite (dmem d) (alloMap_at i) [of_nat (nfree (set_blobs i v j n (dmem d)) i)] else dmem d)\<rparr>"

lemma mark_sel [simp]: "dpages (mark d i v j n) = dpages d" "dreads (mark d i v j n) = dreads d"
  by (simp_all add: mark_def)

lemma mark_mem:
  assumes "j + n \<le> 64"
  shows "a mod 2048 < 5 \<or> 13 \<le> a mod 2048 \<Longrightarrow> a \<noteq> 32 + i \<or> MAXPAGES \<le> i \<Longrightarrow> dmem (mark d i v j n) a = dmem d a"
    "i < MAXPAGES \<Longrightarrow> dmem (mark d i v j n) (32 + i) = of_nat (nfree (set_blobs i v j n (dmem d)) i)"
proof -
  have out: "a < 2048 * i + 5 \<or> 2048 * i + 5 + 8 \<le> a" if "a mod 2048 < 5 \<or> 13 \<le> a mod 2048" for a
  proof (cases "a div 2048 = i")
    case True
    then show ?thesis using that by (rule_tac addrE[of a]) auto
  next
    case False
    then show ?thesis using other_page[of a i] by auto
  qed
  show "a mod 2048 < 5 \<or> 13 \<le> a mod 2048 \<Longrightarrow> a \<noteq> 32 + i \<or> MAXPAGES \<le> i \<Longrightarrow> dmem (mark d i v j n) a = dmem d a"
    using set_blobs_other[OF assms out, of a] by (cases "a < 32 + i") (auto simp: mark_def)
  show "i < MAXPAGES \<Longrightarrow> dmem (mark d i v j n) (32 + i) = of_nat (nfree (set_blobs i v j n (dmem d)) i)"
    using set_blobs_other[OF assms out, of "32 + i"] by (simp add: mark_def mwrite_in)
qed

lemma mark_bit:
  assumes "j + n \<le> 64" and "x < 64"
  shows "blob_bit (dmem (mark d i v j n)) p x = (if p = i \<and> j \<le> x \<and> x < j + n then v else blob_bit (dmem d) p x)"
proof -
  let ?m = "if i < MAXPAGES then mwrite (dmem d) (alloMap_at i) [of_nat (nfree (set_blobs i v j n (dmem d)) i)] else dmem d"
  have "blob_bit ?m p x = blob_bit (dmem d) p x"
    using assms(2) by (cases p) (auto intro!: blob_bit_cong)
  then show ?thesis using assms by (simp add: mark_def blob_bit_set_blobs)
qed

lemma mark_alloc:
  assumes "j + n \<le> 64"
  shows "alloc (dmem (mark d i v j n)) b = (if 64 * i + j \<le> b \<and> b < 64 * i + j + n then v else alloc (dmem d) b)"
proof -
  have "alloc (dmem (mark d i v j n)) b = alloc (set_blobs i v j n (dmem d)) b"
    using assms by (simp add: alloc_def mark_bit blob_bit_set_blobs)
  then show ?thesis using assms by (simp add: alloc_set_blobs)
qed

lemma mark_nfree:
  assumes "j + n \<le> 64"
  shows "nfree (dmem (mark d i v j n)) p = (if p = i then nfree (set_blobs i v j n (dmem d)) i else nfree (dmem d) p)"
  using assms by (auto simp: mark_bit blob_bit_set_blobs intro!: nfree_cong)

lemma mark_ok:
  assumes "rep d ch" and "i < npages (dmem d)" and "j + n \<le> 64" and "v \<or> 13 \<le> 64 * i + j \<and> 0 < j"
    and "\<And>e b. \<not> v \<Longrightarrow> e \<in> entries ch \<Longrightarrow> 64 * i + j \<le> b \<Longrightarrow> b < 64 * i + j + n \<Longrightarrow> b \<notin> blobs e"
  shows "rep (mark d i v j n) ch" "npages (dmem (mark d i v j n)) = npages (dmem d)"
proof -
  let ?d = "mark d i v j n"
  note M = mark_mem[OF assms(3)]
  have P: "pages_ok d" using assms(1) by (rule rep_pages)
  show np: "npages (dmem ?d) = npages (dmem d)" by (intro get16_cong M) auto
  have "pages_ok ?d" unfolding pages_ok_def np
  proof (intro conjI allI impI)
    show "alloc (dmem ?d) b" if "b < 13" for b using that P assms(4) by (auto simp: mark_alloc[OF assms(3)] pages_ok_def)
    show "blob_bit (dmem ?d) p 0" if "p < npages (dmem d)" for p using that P assms(4) by (auto simp: mark_bit[OF assms(3)] pages_ok_def)
    show "dmem ?d (32 + p) = of_nat (if p < npages (dmem d) then nfree (dmem ?d) p else 64)" if "p < 128" for p
      using that P assms(2) M by (cases "p = i") (auto simp: mark_nfree[OF assms(3)] pages_ok_def)
  qed (use P in \<open>auto simp: pages_ok_def\<close>)
  then show "rep ?d ch"
  proof (rule rep_frame[OF assms(1)])
    show "dmem ?d a = dmem d a" if "416 \<le> a" "32 \<le> a mod 2048" for a using that by (cases "MAXPAGES \<le> i") (auto intro!: M)
    show "dmem ?d a = dmem d a" if "160 \<le> a" "a < 416" for a using that by (cases "MAXPAGES \<le> i") (auto intro!: M)
    show "alloc (dmem ?d) b" if "e \<in> entries ch" "b \<in> blobs e" for e b
      using that entry_blob(1)[OF assms(1) that] assms(5)[of e b] by (auto simp: mark_alloc[OF assms(3)])
  qed (simp add: np)
qed

section \<open>Finding blobs\<close>

text \<open>Blobs that were free and are taken now: no entry has them.\<close>

definition fresh :: "dirfile \<Rightarrow> (nat \<Rightarrow> dentry list) \<Rightarrow> nat \<Rightarrow> nat \<Rightarrow> bool" where
  "fresh d ch b n \<longleftrightarrow> room b n \<and> b div EPP < npages (dmem d) \<and> (\<forall>x. b \<le> x \<longrightarrow> x < b + n \<longrightarrow> alloc (dmem d) x) \<and>
     (\<forall>e \<in> entries ch. \<forall>x. b \<le> x \<longrightarrow> x < b + n \<longrightarrow> x \<notin> blobs e)"

lemma take_blobs_mark:
  assumes "pages_ok d" and "i < npages (dmem d)" and "j + n \<le> 64" and "\<And>x. j \<le> x \<Longrightarrow> x < j + n \<Longrightarrow> \<not> blob_bit (dmem d) i x"
  shows "take_blobs d i n j = mark d i True j n"
proof -
  have "nfree (dmem d) i = nfree (set_blobs i True j n (dmem d)) i + n" using nfree_take[OF assms(3,4)] by simp
  moreover have "dmem d (32 + i) = of_nat (nfree (dmem d) i)" if "i < 128" using assms(1,2) that by (simp add: pages_ok_def)
  ultimately show ?thesis by (simp add: take_blobs_def mark_def)
qed

lemma take_blobs_ok:
  assumes "rep d ch" and "i < npages (dmem d)" and "j + n \<le> 64" and "0 < n" and "run_free (dmem d) i n j"
  shows "rep (take_blobs d i n j) ch" "fresh (take_blobs d i n j) ch (j + i * EPP) n"
proof -
  have P: "pages_ok d" using assms(1) by (rule rep_pages)
  have free: "\<not> blob_bit (dmem d) i x" if "j \<le> x" "x < j + n" for x
    using assms(5) that by (auto simp: run_free_def list_all_iff dest: bspec[of _ _ "x - j"])
  have free': "\<not> alloc (dmem d) b" if "64 * i + j \<le> b" "b < 64 * i + j + n" for b
  proof -
    have "b div 64 = i" using that assms(3) by (simp add: div_nat_eqI)
    moreover have "b mod 64 = b - 64 * i" using calculation minus_mult_div_eq_mod[of b 64] by simp
    ultimately show ?thesis using free[of "b - 64 * i"] that by (auto simp: alloc_def)
  qed
  note e = take_blobs_mark[OF P assms(2,3) free]
  have r: "rep (mark d i True j n) ch" "npages (dmem (mark d i True j n)) = npages (dmem d)" using mark_ok[OF assms(1,2,3)] by auto
  then show "rep (take_blobs d i n j) ch" using e by simp
  have j: "0 < j" using free[of 0] P assms(2,4) by (cases j) (auto simp: pages_ok_def)
  moreover have "13 \<le> 64 * i + j" using free'[of "64 * i + j"] P assms(4) by (auto simp: pages_ok_def not_less[symmetric])
  ultimately have "room (j + i * EPP) n" using assms(3,4) by (simp add: room_def add.commute)
  moreover have "(j + i * EPP) div EPP = i" using assms(3,4) by simp
  moreover have "x \<notin> blobs e" if "e \<in> entries ch" "j + i * EPP \<le> x" "x < j + i * EPP + n" for e x
    using entry_blob(1)[OF assms(1) that(1), of x] free'[of x] that by (auto simp: add.commute)
  ultimately show "fresh (take_blobs d i n j) ch (j + i * EPP) n"
    using assms(2) r(2) e by (simp add: fresh_def mark_alloc[OF assms(3)] add.commute)
qed

lemma free_run_found:
  assumes "free_run m p n failed js = (False, j)" and "js \<noteq> []"
  shows "j \<in> set js \<and> run_free m p n j"
  using assms by (induction js arbitrary: failed) (auto split: if_splits, (metis free_run.simps(1) prod.inject)+)

lemma find_pages_ok:
  assumes "find_pages d n failed [k..<BIGMAXPAGES] = (r, d')" and "rep d ch" and "0 < n" and "n \<le> 63" and "k \<le> npages (dmem d)"
  shows "rep d' ch \<and> (\<forall>b. r = Some b \<longrightarrow> fresh d' ch b n)"
  using assms
proof (induction "[k..<BIGMAXPAGES]" arbitrary: k d failed)
  case Nil
  then show ?case by simp
next
  case (Cons i ps)
  have k: "i = k" "k < 1023" "ps = [Suc k..<1023]" using Cons.hyps(2)[symmetric] unfolding upt_eq_Cons_conv by auto
  have P: "pages_ok d" using Cons.prems(2) by (rule rep_pages)
  show ?case
  proof (cases "MAXPAGES \<le> i \<or> int n \<le> sint (dmem d (alloMap_at i))")
    case False
    have "i \<noteq> npages (dmem d)"
    proof
      assume "i = npages (dmem d)"
      then have "dmem d (32 + i) = of_nat 64" using P False by (simp add: pages_ok_def)
      then show False using False Cons.prems(4) sint_small[of 64] by simp
    qed
    then have "Suc k \<le> npages (dmem d)" using Cons.prems(5) k by simp
    moreover have "find_pages d n failed [Suc k..<1023] = (r, d')" using Cons.prems(1) Cons.hyps(2)[symmetric] False k by simp
    ultimately show ?thesis using Cons.hyps(1)[OF k(3)] Cons.prems(2-4) by blast
  next
    case True
    let ?d = "page_ready d i"
    note Q = page_ready_ok[OF Cons.prems(2), of i]
    obtain c d1 where c: "dir_DRead ?d i = (c, d1)" by (metis prod.collapse)
    obtain s where s: "d1 = ?d\<lparr>dreads := s\<rparr>" using DRead_cases[OF c] by metis
    have r1: "rep d1 ch" "i < npages (dmem d1)" using Q Cons.prems(5) k s by auto
    obtain f j where f: "free_run (dmem d1) i n failed [0..<Suc 64 - n] = (f, j)" by (metis prod.collapse)
    consider "c \<noteq> Ok" | "c = Ok" "f" | "c = Ok" "\<not> f" by blast
    then show ?thesis
    proof cases
      case 1
      then show ?thesis using Cons.prems(1) Cons.hyps(2)[symmetric] True c r1(1) by simp
    next
      case 2
      then have "find_pages d1 n True [Suc k..<1023] = (r, d')"
        using Cons.prems(1) Cons.hyps(2)[symmetric] True c f k by simp
      then show ?thesis using Cons.hyps(1)[OF k(3)] r1 k Cons.prems(3,4) by (metis Suc_leI)
    next
      case 3
      then have "r = Some (j + i * 64)" "d' = take_blobs d1 i n j" using Cons.prems(1) Cons.hyps(2)[symmetric] True c f by simp_all
      moreover have "j + n \<le> 64" "run_free (dmem d1) i n j" using free_run_found[of "dmem d1" i n failed "[0..<Suc 64 - n]" j] f 3 Cons.prems(4) by auto
      ultimately show ?thesis using take_blobs_ok[OF r1(1,2) _ Cons.prems(3)] by simp
    qed
  qed
qed

lemma FindBlobs_ok:
  assumes "rep d ch" and "FindBlobs d n = (r, d')" and "0 < n" and "n \<le> 63"
  shows "rep d' ch" "r = Some b \<Longrightarrow> fresh d' ch b n"
proof -
  obtain c d1 where c: "dir_DRead d 0 = (c, d1)" by (metis prod.collapse)
  obtain s where s: "d1 = d\<lparr>dreads := s\<rparr>" using DRead_cases[OF c] by metis
  have "rep d' ch \<and> (\<forall>b. r = Some b \<longrightarrow> fresh d' ch b n)"
  proof (cases "c = Ok")
    case True
    then have "find_pages d1 n False [0..<BIGMAXPAGES] = (r, d')" using assms(2) c by (simp add: FindBlobs_def)
    then show ?thesis using find_pages_ok assms(1,3,4) s by (metis rep_reads zero_le)
  next
    case False
    then show ?thesis using assms(1,2) c s by (auto simp: FindBlobs_def)
  qed
  then show "rep d' ch" "r = Some b \<Longrightarrow> fresh d' ch b n" by simp_all
qed

section \<open>Linking an entry\<close>

lemma pages_ok_cong:
  assumes "\<And>a. a < 160 \<or> 416 \<le> a \<and> a mod 2048 < 32 \<Longrightarrow> m' a = dmem d a"
  shows "pages_ok (d\<lparr>dmem := m'\<rparr>) = pages_ok d" "npages m' = npages (dmem d)" "alloc m' b = alloc (dmem d) b"
proof -
  have "m' a = dmem d a" if "2048 * p + 5 \<le> a" "a < 2048 * p + 13" for a p
  proof -
    have "a div 2048 = p" using that by (simp add: div_nat_eqI)
    then have "a mod 2048 = a - 2048 * p" using minus_mult_div_eq_mod[of a 2048] by simp
    then show ?thesis using that by (cases p) (auto intro!: assms)
  qed
  then have bits: "x < 64 \<Longrightarrow> blob_bit m' p x = blob_bit (dmem d) p x" for p x by (intro blob_bit_cong)
  then have "nfree m' p = nfree (dmem d) p" for p by (rule nfree_cong)
  moreover show "npages m' = npages (dmem d)" by (intro get16_cong assms) simp_all
  moreover show al: "alloc m' b = alloc (dmem d) b" for b using bits by (simp add: alloc_def)
  ultimately show "pages_ok (d\<lparr>dmem := m'\<rparr>) = pages_ok d" using bits assms by (simp add: pages_ok_def)
qed

lemma blob_byte: "32 * b \<le> a \<Longrightarrow> a < 32 * (b + n) \<Longrightarrow> b \<le> a div 32 \<and> a div 32 < b + n" for a b n :: nat
  by (simp add: less_mult_imp_div_less)

lemma fresh_bytes:
  assumes "fresh d ch b n" and "e \<in> entries ch" and "in_entry e a"
  shows "a < 32 * b \<or> 32 * (b + n) \<le> a"
proof (rule ccontr)
  assume "\<not> ?thesis"
  then have "b \<le> a div 32" "a div 32 < b + n" using blob_byte[of b a n] by auto
  moreover have "a div 32 \<in> blobs e" using blob_byte assms(3) by (auto simp: blobs_def in_entry_def)
  ultimately show False using assms(1,2) by (auto simp: fresh_def)
qed

lemma fresh_start: "fresh d ch b n \<Longrightarrow> e \<in> entries ch \<Longrightarrow> fst e \<noteq> b"
proof
  assume "fresh d ch b n" "e \<in> entries ch" "fst e = b"
  moreover have "fst e \<in> blobs e" by (simp add: blobs_def)
  moreover have "0 < n" using calculation(1) by (simp add: fresh_def room_def)
  ultimately show False by (auto simp: fresh_def)
qed

lemma insert_ok:
  assumes "rep d ch" and "fresh d ch b (afs_dir_NameBlobs n)" and "i = afs_dir_DirHash n" and "n \<notin> set (map (fst \<circ> snd) (ch i))"
    and "entry_at m' b n f" and "get16 m' (next_at b) = get16 (dmem d) (hashTable_at i)" and "get16 m' (hashTable_at i) = b"
    and "\<And>a. a < 32 * b \<or> 32 * (b + afs_dir_NameBlobs n) \<le> a \<Longrightarrow> a \<noteq> 160 + 2 * i \<Longrightarrow> a \<noteq> 161 + 2 * i \<Longrightarrow> m' a = dmem d a"
  shows "rep (d\<lparr>dmem := m'\<rparr>) (ch(i := (b, n, f) # ch i))"
proof -
  let ?ch = "ch(i := (b, n, f) # ch i)" and ?e = "(b, n, f)"
  have i: "i < 128" using assms(3) by simp
  have rm: "room b (afs_dir_NameBlobs n)" and bp: "b div 64 < npages (dmem d)"
    and al: "b \<le> x \<Longrightarrow> x < b + afs_dir_NameBlobs n \<Longrightarrow> alloc (dmem d) x" for x using assms(2) by (auto simp: fresh_def)
  have hdr: "m' a = dmem d a" if "a < 160 \<or> 416 \<le> a \<and> a mod 2048 < 32" for a
    using that i room_addr[OF rm, of a] rm by (intro assms(8)) (auto simp: room_def not_less[symmetric])
  note H = pages_ok_cong[of m' d, OF hdr]
  have ent: "m' a = dmem d a" if "e \<in> entries ch" "in_entry e a" for e a
  proof -
    have "room (fst e) (afs_dir_NameBlobs (fst (snd e)))" using assms(1) that(1) by (rule entry_room)
    then have "416 \<le> a" using room_addr that(2) by (auto simp: in_entry_def)
    then show ?thesis using i fresh_bytes[OF assms(2) that] by (intro assms(8)) auto
  qed
  have ch_old: "chain m' x (ch k)" if "k < 128" "chain (dmem d) x (ch k)" for k x
    using that(2) by (rule chain_cong) (use repD(5)[OF assms(1) that(1)] ent in blast)
  have eo: "entry_ok m' k e" if "k < 128" "e \<in> set (ch k)" for k e
    using repD(4)[OF assms(1) that] H by (simp add: entry_ok_def)
  have "bucket_ok m' k (?ch k)" if k: "k < 128" for k
  proof (cases "k = i")
    case True
    have "b \<noteq> fst e" if "e \<in> set (ch i)" for e
      using fresh_start[OF assms(2) repD(5)[OF assms(1) i that]] by simp
    then have "b \<notin> fst ` set (ch i)" by auto
    moreover have "entry_ok m' i ?e" using assms(3) rm bp al H by (simp add: entry_ok_def blobs_def)
    moreover have "b \<noteq> 0" using rm by (simp add: room_def)
    ultimately show ?thesis using True assms(4-7) ch_old[OF i] repD[OF assms(1) i] eo[OF i] by (auto simp: bucket_ok_def)
  next
    case False
    have "get16 m' (hashTable_at k) = get16 (dmem d) (hashTable_at k)"
      using False k rm by (intro get16_cong assms(8)) (auto simp: room_def)
    then show ?thesis using False ch_old[OF k] repD[OF assms(1) k] eo[OF k] by (simp add: bucket_ok_def)
  qed
  moreover have E: "entries ?ch = insert ?e (entries ch)" using i by (auto simp: entries_def split: if_splits)
  moreover have "blobs ?e \<inter> blobs e = {}" if "e \<in> entries ch" for e
  proof -
    have "x \<notin> blobs e" if "b \<le> x" "x < b + afs_dir_NameBlobs n" for x using assms(2) \<open>e \<in> entries ch\<close> that by (simp add: fresh_def)
    then show ?thesis by (auto simp: blobs_def[of ?e])
  qed
  ultimately show ?thesis using assms(1) H(1) by (auto simp: rep_def Int_commute)
qed

lemma mwrite_entry:
  assumes "n \<noteq> []" and "0 \<notin> set n"
  shows "entry_at (mwrite (mwrite (mwrite (mwrite m (flag_at b) [1]) (vnode_at b) (bytes32 (fst f))) (vunique_at b) (bytes32 (snd f)))
    (name_at b) (n @ [0])) b n f"
proof -
  let ?m = "mwrite (mwrite (mwrite (mwrite m (flag_at b) [1]) (vnode_at b) (bytes32 (fst f))) (vunique_at b) (bytes32 (snd f))) (name_at b) (n @ [0])"
  have "get32 ?m (vnode_at b) = get32 (mwrite (mwrite m (flag_at b) [1]) (vnode_at b) (bytes32 (fst f))) (vnode_at b)"
    by (rule get32_cong) simp
  moreover have "get32 ?m (vunique_at b) = get32 (mwrite (mwrite (mwrite m (flag_at b) [1]) (vnode_at b) (bytes32 (fst f))) (vunique_at b) (bytes32 (snd f))) (vunique_at b)"
    by (rule get32_cong) simp
  ultimately show ?thesis using assms by (auto simp: entry_at_def mwrite_in nth_append)
qed

lemma entry_at_cong:
  assumes "entry_at m b n f" and "\<And>a. vnode_at b \<le> a \<Longrightarrow> a < 32 * (b + afs_dir_NameBlobs n) \<Longrightarrow> m' a = m a"
  shows "entry_at m' b n f"
proof -
  have l: "12 + length n < 32 * afs_dir_NameBlobs n" by (rule NameBlobs_fits)
  have "get32 m' (vnode_at b) = get32 m (vnode_at b)" "get32 m' (vunique_at b) = get32 m (vunique_at b)"
    using l by (intro get32_cong assms(2); simp)+
  moreover have "m' (name_at b + k) = m (name_at b + k)" if "k \<le> length n" for k using l that by (intro assms(2)) simp_all
  ultimately show ?thesis using assms(1) by (auto simp: entry_at_def)
qed

text \<open>The memory that \<^verbatim>\<open>afs_dir_Create\<close> leaves when it succeeds.\<close>

definition linked :: "(nat \<Rightarrow> byte) \<Rightarrow> nat \<Rightarrow> byte list \<Rightarrow> mkfid \<Rightarrow> nat \<Rightarrow> byte" where
  "linked m b n f =
     (let m1 = mwrite (mwrite (mwrite (mwrite m (flag_at b) [1]) (vnode_at b) (bytes32 (fst f))) (vunique_at b) (bytes32 (snd f)))
                 (name_at b) (n @ [0]);
          i = afs_dir_DirHash n;
          m2 = mwrite m1 (next_at b) (bytes16 (get16 m1 (hashTable_at i)))
      in mwrite m2 (hashTable_at i) (bytes16 b))"

lemma linked_ok:
  assumes "rep d ch" and "fresh d ch b (afs_dir_NameBlobs n)" and "n \<notin> set (map (fst \<circ> snd) (ch (afs_dir_DirHash n)))" and "n \<noteq> []" and "0 \<notin> set n"
  shows "rep (d\<lparr>dmem := linked (dmem d) b n f\<rparr>) (ch(afs_dir_DirHash n := (b, n, f) # ch (afs_dir_DirHash n)))"
proof (rule insert_ok[OF assms(1,2) refl assms(3)])
  let ?i = "afs_dir_DirHash n"
  let ?m1 = "mwrite (mwrite (mwrite (mwrite (dmem d) (flag_at b) [1]) (vnode_at b) (bytes32 (fst f))) (vunique_at b) (bytes32 (snd f))) (name_at b) (n @ [0])"
  let ?m2 = "mwrite ?m1 (next_at b) (bytes16 (get16 ?m1 (hashTable_at ?i)))"
  have e: "linked (dmem d) b n f = mwrite ?m2 (hashTable_at ?i) (bytes16 b)" by (simp add: linked_def Let_def)
  have i: "?i < 128" by simp
  have b: "13 \<le> b" "b div 64 < 1023" using assms(2) rep_pages[OF assms(1)] by (auto simp: fresh_def room_def pages_ok_def)
  have l: "12 + length n < 32 * afs_dir_NameBlobs n" by (rule NameBlobs_fits)
  have hb: "162 + 2 * ?i \<le> 32 * b" using i b(1) by linarith
  show "entry_at (linked (dmem d) b n f) b n f"
    using hb unfolding e by (intro entry_at_cong[OF mwrite_entry[OF assms(4,5), of "dmem d" b f]]) simp
  have "get16 ?m1 (hashTable_at ?i) = get16 (dmem d) (hashTable_at ?i)" using hb by (intro get16_cong) simp_all
  moreover have "get16 (linked (dmem d) b n f) (next_at b) = get16 ?m2 (next_at b)" unfolding e using hb by (intro get16_cong) simp_all
  ultimately show "get16 (linked (dmem d) b n f) (next_at b) = get16 (dmem d) (hashTable_at ?i)" using get16_bound by simp
  show "get16 (linked (dmem d) b n f) (hashTable_at ?i) = b" unfolding e using b(2) by simp
  show "linked (dmem d) b n f a = dmem d a"
    if "a < 32 * b \<or> 32 * (b + afs_dir_NameBlobs n) \<le> a" "a \<noteq> 160 + 2 * ?i" "a \<noteq> 161 + 2 * ?i" for a
  proof -
    have "a < 160 + 2 * ?i \<or> 160 + 2 * ?i + 2 \<le> a" using that(2,3) by linarith
    then show ?thesis unfolding e using that(1) l by auto
  qed
qed

end
