(* ===== verification/Dir_Ops.thy ===== *)
theory Dir_Ops
  imports Dir_Rep
begin

text \<open>
  The operations of \<^verbatim>\<open>dir/dir.c\<close> on the chains: a creation puts an entry in front of its chain, a
  deletion takes one out and frees its blobs, and a creation finds blobs as long as pages can be
  added.
\<close>

section \<open>The directory as a map\<close>

text \<open>What a name leads to, as a reader sees it when no read fails.\<close>

definition dir_map :: "dirfile \<Rightarrow> byte list \<Rightarrow> mkfid option" where
  "dir_map d n = (let (code, f, _) = afs_dir_Lookup (d\<lparr>dreads := []\<rparr>) n in if code = Ok then Some f else None)"

definition dir_ok :: "dirfile \<Rightarrow> bool" where
  "dir_ok d \<longleftrightarrow> (\<exists>ch. rep d ch)"

definition amap :: "(nat \<Rightarrow> dentry list) \<Rightarrow> byte list \<Rightarrow> mkfid option" where
  "amap ch n = map_of (map snd (ch (afs_dir_DirHash n))) n"

lemma amap_None: "amap ch n = None \<longleftrightarrow> n \<notin> set (map (fst \<circ> snd) (ch (afs_dir_DirHash n)))"
  by (simp add: amap_def map_of_eq_None_iff image_comp)

lemma found_amap:
  assumes "rep d ch" and "found (ch (afs_dir_DirHash n)) n a prev b"
  shows "amap ch n = Some (get32 (dmem d) (vnode_at b), get32 (dmem d) (vunique_at b))"
proof -
  let ?i = "afs_dir_DirHash n"
  obtain es1 f es2 where f: "ch ?i = es1 @ (b, n, f) # es2" "n \<notin> set (map (fst \<circ> snd) es1)" using assms(2) by (auto simp: found_def)
  have "entry_at (dmem d) b n f" using chain_entry[OF repD(1)[OF assms(1) DirHash_bound[of n]], of b n f] f(1) by simp
  then have "f = (get32 (dmem d) (vnode_at b), get32 (dmem d) (vunique_at b))" by (simp add: entry_at_def prod_eq_iff)
  moreover have "map_of (map snd es1) n = None" using f(2) by (simp add: map_of_eq_None_iff image_comp)
  ultimately show ?thesis using f(1) by (simp add: amap_def map_add_def)
qed

lemma Lookup_rep:
  assumes "rep d ch" and "dreads d = []"
  shows "afs_dir_Lookup d n = (case amap ch n of None \<Rightarrow> (Enoent, (0, 0), d) | Some f \<Rightarrow> (Ok, f, d))"
proof -
  obtain code prev b d' where F: "FindItem d n = (code, prev, b, d')" by (metis prod.collapse)
  note S = FindItem_spec[OF assms(1) F]
  have d': "d' = d" and c: "code \<noteq> Eio" using S assms(2) by auto
  show ?thesis
  proof (cases "code = Ok")
    case True
    then have "found (ch (afs_dir_DirHash n)) n (hashTable_at (afs_dir_DirHash n)) prev b" using S by auto
    then show ?thesis using True F d' found_amap[OF assms(1)] by (simp add: afs_dir_Lookup_def)
  next
    case False
    then have "code = Enoent" "amap ch n = None" using S c by (auto simp: amap_None)
    then show ?thesis using F d' by (simp add: afs_dir_Lookup_def)
  qed
qed

lemma dir_map_rep: "rep d ch \<Longrightarrow> dir_map d = amap ch"
  by (rule ext) (simp add: dir_map_def Lookup_rep split: option.splits)

lemma amap_link:
  assumes "i = afs_dir_DirHash n"
  shows "amap (ch(i := (b, n, f) # ch i)) = (amap ch)(n \<mapsto> f)"
  using assms by (auto simp: amap_def fun_eq_iff)

lemma write_fresh:
  assumes "rep d ch" and "fresh d ch b n" and "\<And>a. a < 32 * b \<or> 32 * (b + n) \<le> a \<Longrightarrow> m' a = dmem d a"
  shows "rep (d\<lparr>dmem := m'\<rparr>) ch"
proof -
  have rm: "room b n" using assms(2) by (simp add: fresh_def)
  have hdr: "m' a = dmem d a" if "a < 416 \<or> a mod 2048 < 32" for a using that room_addr[OF rm, of a] by (intro assms(3)) linarith
  have "m' a = dmem d a" if "a < 160 \<or> 416 \<le> a \<and> a mod 2048 < 32" for a using that by (intro hdr) auto
  note H = pages_ok_cong[of m' d, OF this]
  show ?thesis
  proof (rule rep_frame[OF assms(1)])
    show "pages_ok (d\<lparr>dmem := m'\<rparr>)" using H(1) rep_pages[OF assms(1)] by auto
    show "npages (dmem d) \<le> npages (dmem (d\<lparr>dmem := m'\<rparr>))" using H(2) by auto
    show "alloc (dmem (d\<lparr>dmem := m'\<rparr>)) x" if "e \<in> entries ch" "x \<in> blobs e" for e x using entry_blob(1)[OF assms(1) that] H(3) by auto
    show "dmem (d\<lparr>dmem := m'\<rparr>) a = dmem d a" if "e \<in> entries ch" "in_entry e a" for e a
      using fresh_bytes[OF assms(2) that] assms(3) by simp
    show "dmem (d\<lparr>dmem := m'\<rparr>) a = dmem d a" if "160 \<le> a" "a < 416" for a using that hdr by simp
  qed
qed

lemma fresh_reads [simp]: "fresh (d\<lparr>dreads := r\<rparr>) ch b n = fresh d ch b n"
  by (simp add: fresh_def)

text \<open>Names the callers allow.\<close>

definition valid_name :: "byte list \<Rightarrow> bool" where
  "valid_name n \<longleftrightarrow> n \<noteq> [] \<and> 0 \<notin> set n \<and> length n \<le> 255"

lemma NameBlobs_valid: "valid_name n \<Longrightarrow> afs_dir_NameBlobs n \<le> 63"
  using div_le_mono[of "16 + length n" 271 32] by (simp add: valid_name_def afs_dir_NameBlobs_def)

lemma Create_rep:
  assumes "rep d ch" and "valid_name n" and "afs_dir_Create d n f = (code, d')"
  shows "(code = Ok \<and> amap ch n = None \<and> (\<exists>b. rep d' (ch(afs_dir_DirHash n := (b, n, f) # ch (afs_dir_DirHash n))))) \<or>
    (code \<noteq> Ok \<and> rep d' ch \<and> (code = Eexist \<longrightarrow> amap ch n \<noteq> None))"
proof -
  have n: "n \<noteq> []" "0 \<notin> set n" "afs_dir_NameBlobs n \<le> 63" using assms(2) NameBlobs_valid by (auto simp: valid_name_def)
  obtain c prev b0 d1 where F: "FindItem d n = (c, prev, b0, d1)" by (metis prod.collapse)
  note S = FindItem_spec[OF assms(1) F]
  have r1: "rep d1 ch" using S assms(1) by auto
  show ?thesis
  proof (cases "c = Enoent")
    case False
    then have "code = (if c = Ok then Eexist else c)" "d' = d1" using assms(3) F n(1) by (auto simp: afs_dir_Create_def split: if_splits)
    then show ?thesis using S r1 found_amap[OF assms(1)] False by auto
  next
    case True
    have none: "amap ch n = None" "n \<notin> set (map (fst \<circ> snd) (ch (afs_dir_DirHash n)))" using S True by (auto simp: amap_None)
    obtain r d2 where B: "FindBlobs d1 (afs_dir_NameBlobs n) = (r, d2)" by (metis prod.collapse)
    note Q = FindBlobs_ok[OF r1 B NameBlobs_pos n(3)]
    show ?thesis
    proof (cases r)
      case None
      then have "code = Efbig" "d' = d2" using assms(3) F B n(1) True by (simp_all add: afs_dir_Create_def)
      then show ?thesis using Q(1) by simp
    next
      case (Some b)
      let ?m = "\<lambda>m. mwrite (mwrite (mwrite (mwrite m (flag_at b) [1]) (vnode_at b) (bytes32 (fst f))) (vunique_at b) (bytes32 (snd f))) (name_at b) (n @ [0])"
      obtain c3 d3 where G: "afs_dir_GetBlob d2 b = (c3, d3)" by (metis prod.collapse)
      obtain s3 where s3: "d3 = d2\<lparr>dreads := s3\<rparr>" using DRead_cases G unfolding afs_dir_GetBlob_def by metis
      have r3: "rep d3 ch" "fresh d3 ch b (afs_dir_NameBlobs n)" using Q(1) Q(2)[OF Some] s3 by simp_all
      let ?d4 = "wr (wr (wr (wr d3 (flag_at b) [1]) (vnode_at b) (bytes32 (fst f))) (vunique_at b) (bytes32 (snd f))) (name_at b) (n @ [0])"
      obtain c5 d5 where D: "dir_DRead ?d4 0 = (c5, d5)" by (metis prod.collapse)
      obtain s5 where s5: "d5 = ?d4\<lparr>dreads := s5\<rparr>" using DRead_cases[OF D] by metis
      have d4: "?d4 = d3\<lparr>dmem := ?m (dmem d3)\<rparr>" by (simp add: wr_def)
      have r4: "rep ?d4 ch" unfolding d4
      proof (rule write_fresh[OF r3])
        show "?m (dmem d3) a = dmem d3 a" if "a < 32 * b \<or> 32 * (b + afs_dir_NameBlobs n) \<le> a" for a
          using that NameBlobs_fits[of n] by auto
      qed
      consider "c3 \<noteq> Ok" | "c3 = Ok" "c5 \<noteq> Ok" | "c3 = Ok" "c5 = Ok" by blast
      then show ?thesis
      proof cases
        case 1
        then have "code = Eio" "d' = d3" using assms(3) F B G n(1) True Some by (simp_all add: afs_dir_Create_def)
        then show ?thesis using r3 by simp
      next
        case 2
        then have "code = Eio" "d' = d5" using assms(3) F B G D n(1) True Some by (simp_all add: afs_dir_Create_def)
        then show ?thesis using r4 s5 by simp
      next
        case 3
        then have "code = Ok" "d' = d3\<lparr>dreads := s5, dmem := linked (dmem d3) b n f\<rparr>"
          using assms(3) F B G D n(1) True Some s5 by (simp_all add: afs_dir_Create_def linked_def Let_def wr_def)
        then show ?thesis using linked_ok[of "d3\<lparr>dreads := s5\<rparr>" ch b n f] r3 none n by auto
      qed
    qed
  qed
qed

section \<open>Unlinking an entry\<close>

lemma in_entry_disjoint:
  assumes "rep d ch" and "e \<in> entries ch" and "e' \<in> entries ch" and "e \<noteq> e'" and "in_entry e a"
  shows "\<not> in_entry e' a"
proof
  assume "in_entry e' a"
  then have "a div 32 \<in> blobs e'" using blob_byte by (auto simp: in_entry_def blobs_def)
  moreover have "a div 32 \<in> blobs e" using blob_byte assms(5) by (auto simp: in_entry_def blobs_def)
  moreover have "blobs e \<inter> blobs e' = {}" using assms(1-4) by (simp add: rep_def)
  ultimately show False by blast
qed

lemma chain_relink:
  assumes "chain m x (es1 @ (b, n, f) # es2)" and "es1 \<noteq> []" and "distinct (map fst (es1 @ es2))"
    and "get16 m' (next_at (fst (last es1))) = get16 m (next_at b)"
    and "\<And>e a. e \<in> set (es1 @ es2) \<Longrightarrow> in_entry e a \<Longrightarrow> fst e \<noteq> fst (last es1) \<or> vnode_at (fst (last es1)) \<le> a \<Longrightarrow> m' a = m a"
  shows "chain m' x (es1 @ es2)"
  using assms
proof (induction es1 arbitrary: x)
  case (Cons e1 es1)
  obtain b1 n1 f1 where e1: "e1 = (b1, n1, f1)" by (cases e1)
  have c: "x = b1" "b1 \<noteq> 0" "entry_at m b1 n1 f1" "chain m (get16 m (next_at b1)) (es1 @ (b, n, f) # es2)" using Cons.prems(1) e1 by simp_all
  have e': "entry_at m' b1 n1 f1"
    using c(3) by (rule entry_at_cong) (use Cons.prems(5)[of e1] e1 in \<open>auto simp: in_entry_def\<close>)
  show ?case
  proof (cases "es1 = []")
    case True
    then have "chain m (get16 m (next_at b)) es2" using c(4) by simp
    then have "chain m' (get16 m (next_at b)) es2"
    proof (rule chain_cong)
      fix e a
      assume "e \<in> set es2" "in_entry e a"
      moreover have "fst e1 \<notin> fst ` set es2" using Cons.prems(3) True by simp
      moreover have "fst e \<noteq> fst e1" using calculation by (metis imageI)
      ultimately show "m' a = m a" using Cons.prems(5)[of e a] True by simp
    qed
    then show ?thesis using True e1 e' c(1,2) Cons.prems(4) by simp
  next
    case False
    have ne: "b1 \<noteq> fst (last es1)" using Cons.prems(3) False e1 by (auto dest: last_in_set)
    have l: "12 + length n1 < 32 * afs_dir_NameBlobs n1" by (rule NameBlobs_fits)
    have "get16 m' (next_at b1) = get16 m (next_at b1)"
      using Cons.prems(5)[of e1] False ne e1 l by (intro get16_cong) (auto simp: in_entry_def)
    moreover have "chain m' (get16 m (next_at b1)) (es1 @ es2)"
      using c(4) False
    proof (rule Cons.IH)
      show "distinct (map fst (es1 @ es2))" using Cons.prems(3) by simp
      show "get16 m' (next_at (fst (last es1))) = get16 m (next_at b)" using Cons.prems(4) False by simp
      show "m' a = m a" if "e \<in> set (es1 @ es2)" "in_entry e a" "fst e \<noteq> fst (last es1) \<or> vnode_at (fst (last es1)) \<le> a" for e a
        using Cons.prems(5)[of e a] that False by auto
    qed
    ultimately show ?thesis using e1 e' c(1,2) by simp
  qed
qed simp

lemma chain_suffix: "chain m x (es1 @ es2) \<Longrightarrow> \<exists>y. chain m y es2"
  by (induction es1 arbitrary: x) auto

lemma chain_hash:
  assumes "rep d ch" and "i < 128" and "k < 128" and "e \<in> set (ch i)" and "e \<in> set (ch k)"
  shows "i = k"
  using repD(4)[OF assms(1,2,4)] repD(4)[OF assms(1,3,5)] by (simp add: entry_ok_def)

text \<open>Memory in which the link to an entry leads to the next one; the entry's own bytes may be anything.\<close>

definition unlinked :: "dirfile \<Rightarrow> (nat \<Rightarrow> dentry list) \<Rightarrow> nat \<Rightarrow> dentry list \<Rightarrow> dentry \<Rightarrow> dentry list \<Rightarrow> nat \<Rightarrow> (nat \<Rightarrow> byte) \<Rightarrow> bool" where
  "unlinked d ch i es1 e es2 prev m' \<longleftrightarrow> rep d ch \<and> i < NHASHENT \<and> ch i = es1 @ e # es2 \<and>
     prev = (if es1 = [] then hashTable_at i else next_at (fst (last es1))) \<and> get16 m' prev = get16 (dmem d) (next_at (fst e)) \<and>
     (\<forall>a. \<not> in_entry e a \<longrightarrow> a \<noteq> prev \<longrightarrow> a \<noteq> prev + 1 \<longrightarrow> m' a = dmem d a)"

lemma in_entry_addr: "rep d ch \<Longrightarrow> e \<in> entries ch \<Longrightarrow> in_entry e a \<Longrightarrow> 416 \<le> a \<and> 32 \<le> a mod 2048"
  using room_addr[OF entry_room, of d ch e a] by (auto simp: in_entry_def)

lemma unlinkedD:
  assumes "unlinked d ch i es1 e es2 prev m'"
  shows "rep d ch" "i < NHASHENT" "ch i = es1 @ e # es2" "e \<in> entries ch" "\<And>e. e \<in> set (es1 @ es2) \<Longrightarrow> e \<in> entries ch"
    "es1 \<noteq> [] \<Longrightarrow> last es1 \<in> entries ch" "es1 \<noteq> [] \<Longrightarrow> in_entry (last es1) prev \<and> in_entry (last es1) (prev + 1)"
    "es1 = [] \<Longrightarrow> prev = hashTable_at i"
proof -
  show r: "rep d ch" "i < NHASHENT" "ch i = es1 @ e # es2" using assms by (simp_all add: unlinked_def)
  show "e \<in> entries ch" "\<And>e. e \<in> set (es1 @ es2) \<Longrightarrow> e \<in> entries ch" "es1 \<noteq> [] \<Longrightarrow> last es1 \<in> entries ch"
    using repD(5)[OF r(1,2)] r(3) by auto
  show "es1 \<noteq> [] \<Longrightarrow> in_entry (last es1) prev \<and> in_entry (last es1) (prev + 1)" "es1 = [] \<Longrightarrow> prev = hashTable_at i"
    using assms NameBlobs_fits[of "fst (snd (last es1))"] by (auto simp: unlinked_def in_entry_def)
qed

lemma unlinked_addr:
  assumes "unlinked d ch i es1 e es2 prev m'" and "es1 \<noteq> []"
  shows "416 \<le> prev" "32 \<le> prev mod 2048" "32 \<le> (prev + 1) mod 2048"
  using unlinkedD(1,6,7)[OF assms(1)] assms(2) in_entry_addr[of d ch "last es1"] by blast+

lemma unlinked_same:
  assumes "unlinked d ch i es1 e es2 prev m'" and "\<not> in_entry e a" and "a \<noteq> prev \<and> a \<noteq> prev + 1"
  shows "m' a = dmem d a"
  using assms by (simp add: unlinked_def)

lemma unlinked_hdr:
  assumes "unlinked d ch i es1 e es2 prev m'" and "a < 160 \<or> 416 \<le> a \<and> a mod 2048 < 32"
  shows "m' a = dmem d a"
proof (rule unlinked_same[OF assms(1)])
  show "\<not> in_entry e a" using in_entry_addr[OF unlinkedD(1,4)[OF assms(1)], of a] assms(2) by auto
  show "a \<noteq> prev \<and> a \<noteq> prev + 1"
    using unlinkedD(2,8)[OF assms(1)] unlinked_addr[OF assms(1)] assms(2) by (cases "es1 = []") auto
qed

lemma unlinked_entry:
  assumes "unlinked d ch i es1 e es2 prev m'" and "e' \<in> entries ch" and "e' \<noteq> e" and "in_entry e' a"
    and "es1 = [] \<or> e' \<noteq> last es1 \<or> vnode_at (fst e') \<le> a"
  shows "m' a = dmem d a"
proof (rule unlinked_same[OF assms(1)])
  note U = unlinkedD[OF assms(1)]
  show "\<not> in_entry e a" using in_entry_disjoint[OF U(1) assms(2) U(4) assms(3,4)] .
  show "a \<noteq> prev \<and> a \<noteq> prev + 1"
  proof (cases "es1 = []")
    case True
    then show ?thesis using in_entry_addr[OF U(1) assms(2,4)] U(2,8) by auto
  next
    case False
    have "\<not> in_entry (last es1) a" if "e' \<noteq> last es1" using in_entry_disjoint[OF U(1) assms(2) U(6)[OF False] that assms(4)] .
    moreover have "prev = next_at (fst (last es1))" using assms(1) False by (simp add: unlinked_def)
    ultimately show ?thesis using assms(5) U(7)[OF False] False by (cases "e' = last es1") auto
  qed
qed

lemma unlinked_head:
  assumes "unlinked d ch i es1 e es2 prev m'" and "k < NHASHENT" and "k \<noteq> i \<or> es1 \<noteq> []"
  shows "get16 m' (hashTable_at k) = get16 (dmem d) (hashTable_at k)"
proof -
  have "m' a = dmem d a" if a: "160 + 2 * k \<le> a" "a \<le> 160 + 2 * k + 1" for a
  proof (rule unlinked_same[OF assms(1)])
    show "\<not> in_entry e a" using in_entry_addr[OF unlinkedD(1,4)[OF assms(1)], of a] a assms(2) by auto
    show "a \<noteq> prev \<and> a \<noteq> prev + 1"
      using unlinkedD(8)[OF assms(1)] unlinked_addr(1)[OF assms(1)] a assms(2,3) by (cases "es1 = []") auto
  qed
  then show ?thesis by (intro get16_cong) simp_all
qed

lemma unlinked_chain:
  assumes "unlinked d ch i es1 e es2 prev m'"
  shows "chain m' (get16 m' (hashTable_at i)) (es1 @ es2)"
proof -
  note U = unlinkedD[OF assms]
  obtain b n f where e: "e = (b, n, f)" by (cases e)
  have d: "distinct (map fst (es1 @ e # es2))" using repD(2)[OF U(1,2)] U(3) by simp
  then have "distinct (es1 @ e # es2)" unfolding distinct_map by blast
  then have ent: "m' a = dmem d a" if "e' \<in> set (es1 @ es2)" "in_entry e' a" "es1 = [] \<or> e' \<noteq> last es1 \<or> vnode_at (fst e') \<le> a" for e' a
    using unlinked_entry[OF assms U(5)[OF that(1)] _ that(2,3)] that(1) by auto
  have c: "chain (dmem d) (get16 (dmem d) (hashTable_at i)) (es1 @ (b, n, f) # es2)" using repD(1)[OF U(1,2)] U(3) e by simp
  show ?thesis
  proof (cases "es1 = []")
    case True
    have "chain (dmem d) (get16 (dmem d) (next_at b)) es2" using c True by simp
    then have "chain m' (get16 (dmem d) (next_at b)) es2" by (rule chain_cong) (use ent True in simp)
    then show ?thesis using True assms e by (auto simp: unlinked_def)
  next
    case False
    have "chain m' (get16 (dmem d) (hashTable_at i)) (es1 @ es2)" using c False
    proof (rule chain_relink)
      show "distinct (map fst (es1 @ es2))" using d by simp
      show "get16 m' (next_at (fst (last es1))) = get16 (dmem d) (next_at b)" using assms False e by (auto simp: unlinked_def)
      show "m' a = dmem d a" if "e' \<in> set (es1 @ es2)" "in_entry e' a" "fst e' \<noteq> fst (last es1) \<or> vnode_at (fst (last es1)) \<le> a" for e' a
        using ent[of e' a] that by auto
    qed
    then show ?thesis using unlinked_head[OF assms U(2)] False by simp
  qed
qed

lemma unlink_ok:
  assumes "unlinked d ch i es1 e es2 prev m'"
  shows "rep (d\<lparr>dmem := m'\<rparr>) (ch(i := es1 @ es2))"
proof -
  note U = unlinkedD[OF assms] and H = pages_ok_cong[of m' d, OF unlinked_hdr[OF assms]]
  let ?ch = "ch(i := es1 @ es2)"
  note R = repD[OF U(1)]
  have eo: "entry_ok m' k e'" if "k < NHASHENT" "e' \<in> set (ch k)" for k e' using R(4)[OF that] H by (simp add: entry_ok_def)
  have "bucket_ok m' k (?ch k)" if k: "k < NHASHENT" for k
  proof (cases "k = i")
    case True
    then show ?thesis using unlinked_chain[OF assms] R(2,3)[OF U(2)] U(3) eo[OF U(2)] by (simp add: bucket_ok_def)
  next
    case False
    have ne: "e' \<noteq> e" "es1 = [] \<or> e' \<noteq> last es1" if "e' \<in> set (ch k)" for e'
      using chain_hash[OF U(1,2) k, of e'] False that U(3) by auto
    have "chain m' (get16 (dmem d) (hashTable_at k)) (ch k)"
      using R(1)[OF k] by (rule chain_cong) (use unlinked_entry[OF assms R(5)[OF k]] ne in blast)
    then show ?thesis using False R[OF k] eo[OF k] unlinked_head[OF assms k] by (simp add: bucket_ok_def)
  qed
  moreover have "entries ?ch \<subseteq> entries ch" using U(2,3) by (auto simp: entries_def split: if_splits)
  ultimately show ?thesis using U(1) H(1) unfolding rep_def by (simp, blast)
qed

lemma unlink_disjoint:
  assumes "unlinked d ch i es1 e es2 prev m'" and "e' \<in> entries (ch(i := es1 @ es2))"
  shows "blobs e \<inter> blobs e' = {}"
proof -
  note U = unlinkedD[OF assms(1)]
  obtain k where k: "k < NHASHENT" "e' \<in> set ((ch(i := es1 @ es2)) k)" using assms(2) by (rule entriesE)
  have "distinct (es1 @ e # es2)" using repD(2)[OF U(1,2)] U(3) unfolding distinct_map by simp
  then have "e' \<noteq> e \<and> e' \<in> entries ch"
    using k U(2,3,5) chain_hash[OF U(1,2) k(1), of e'] repD(5)[OF U(1) k(1), of e'] by (cases "k = i") auto
  then show ?thesis using U(1,4) by (auto simp: rep_def)
qed

lemma FreeBlobs_mark:
  assumes "pages_ok d" and "dreads d = []" and "b div 64 < npages (dmem d)" and "b mod 64 + n \<le> 64"
    and "\<And>x. b \<le> x \<Longrightarrow> x < b + n \<Longrightarrow> alloc (dmem d) x"
  shows "FreeBlobs d b n = mark d (b div 64) False (b mod 64) n"
proof -
  let ?p = "b div 64" and ?j = "b mod 64"
  have j: "b - 64 * ?p = ?j" by (rule minus_mult_div_eq_mod)
  have "blob_bit (dmem d) ?p x" if "?j \<le> x" "x < ?j + n" for x
  proof -
    have "(64 * ?p + x) div 64 = ?p" "(64 * ?p + x) mod 64 = x" "64 * ?p + x < b + n" "b \<le> 64 * ?p + x"
      using that assms(4) by (rule_tac blobE[of b]; simp)+
    then show ?thesis using assms(5)[of "64 * ?p + x"] by (simp add: alloc_def)
  qed
  then have "nfree (set_blobs ?p False ?j n (dmem d)) ?p = nfree (dmem d) ?p + n" by (intro nfree_free[OF assms(4)])
  moreover have "dmem d (32 + ?p) = of_nat (nfree (dmem d) ?p)" if "?p < 128" using assms(1,3) that by (simp add: pages_ok_def)
  moreover have "dpages d 0" "dpages d ?p" using assms(1,3) by (auto simp: pages_ok_def)
  ultimately show ?thesis using assms(2) by (auto simp: FreeBlobs_def mark_def j Let_def wr_def)
qed

lemma amap_unlink:
  assumes "rep d ch" and "ch (afs_dir_DirHash n) = es1 @ (b, n, f) # es2"
  shows "amap (ch(afs_dir_DirHash n := es1 @ es2)) = (amap ch)(n := None)"
proof (rule ext)
  fix n'
  have d: "distinct (map (fst \<circ> snd) (es1 @ (b, n, f) # es2))" using repD(3)[OF assms(1) DirHash_bound[of n]] assms(2) by simp
  then have "map_of (map snd (es1 @ es2)) n = None" by (auto simp: map_of_eq_None_iff image_comp)
  then show "amap (ch(afs_dir_DirHash n := es1 @ es2)) n' = ((amap ch)(n := None)) n'"
    using assms(2) by (auto simp: amap_def map_add_def split: option.split)
qed

text \<open>An entry that is found is unlinked and cleared.\<close>

lemma delete_unlinked:
  assumes "rep d ch" and "i < NHASHENT" and "ch i = es1 @ (b, n, f) # es2"
    and "prev = (if es1 = [] then hashTable_at i else next_at (fst (last es1)))" and "k \<le> 32 * afs_dir_NameBlobs n"
  shows "unlinked d ch i es1 (b, n, f) es2 prev (mwrite (mwrite (dmem d) prev (bytes16 (get16 (dmem d) (next_at b)))) (flag_at b) (replicate k 0))"
    "entry_name (mwrite (dmem d) prev (bytes16 (get16 (dmem d) (next_at b)))) b = n"
proof -
  let ?e = "(b, n, f)" and ?w = "bytes16 (get16 (dmem d) (next_at b))"
  note R = repD[OF assms(1,2)]
  have ee: "?e \<in> entries ch" using R(5)[of ?e] assms(3) by simp
  have out: "\<not> in_entry ?e prev \<and> \<not> in_entry ?e (prev + 1)"
  proof (cases "es1 = []")
    case True
    then show ?thesis using in_entry_addr[OF assms(1) ee] assms(2,4) by fastforce
  next
    case False
    have l: "last es1 \<in> set es1" "last es1 \<in> entries ch" using False R(5)[of "last es1"] assms(3) by simp_all
    have "distinct (ch i)" using R(2) unfolding distinct_map by blast
    then have "last es1 \<noteq> ?e" using l(1) assms(3) by auto
    moreover have "in_entry (last es1) prev" "in_entry (last es1) (prev + 1)"
      using False assms(4) NameBlobs_fits[of "fst (snd (last es1))"] by (auto simp: in_entry_def)
    ultimately show ?thesis using in_entry_disjoint[OF assms(1) l(2) ee] by blast
  qed
  have w: "mwrite (dmem d) prev ?w a = dmem d a" if "in_entry ?e a" for a
    using out that by (intro mwrite16_other) auto
  have "entry_at (dmem d) b n f" using chain_entry[OF R(1), of b n f] assms(3) by simp
  then have "entry_at (mwrite (dmem d) prev ?w) b n f" by (rule entry_at_cong) (rule w, simp add: in_entry_def)
  then show "entry_name (mwrite (dmem d) prev ?w) b = n" using entry_name_at entry_room[OF assms(1) ee] by simp
  let ?m = "mwrite (mwrite (dmem d) prev ?w) (flag_at b) (replicate k 0)"
  have c: "?m a = mwrite (dmem d) prev ?w a" if "\<not> in_entry ?e a" for a
    using that assms(5) by (auto simp: in_entry_def mwrite_def)
  have "get16 ?m prev = get16 (mwrite (dmem d) prev ?w) prev" using c out by (intro get16_cong) simp_all
  then have "get16 ?m prev = get16 (dmem d) (next_at b)" using get16_bound by simp
  moreover have "?m a = dmem d a" if "\<not> in_entry ?e a" "a \<noteq> prev" "a \<noteq> prev + 1" for a
    using c[OF that(1)] mwrite16_other[OF that(2,3)] by simp
  ultimately show "unlinked d ch i es1 ?e es2 prev ?m" using assms by (simp add: unlinked_def)
qed

lemma Delete_rep:
  assumes "rep d ch" and "dreads d = []" and "afs_dir_Delete d n = (code, d')"
  shows "dreads d' = [] \<and> (code = Enoent \<and> amap ch n = None \<and> d' = d \<or>
    code = Ok \<and> amap ch n \<noteq> None \<and> (\<exists>ch'. rep d' ch' \<and> amap ch' = (amap ch)(n := None)))"
proof -
  let ?i = "afs_dir_DirHash n"
  obtain c prev b d1 where F: "FindItem d n = (c, prev, b, d1)" by (metis prod.collapse)
  note S = FindItem_spec[OF assms(1) F]
  have d1: "d1 = d" "c \<noteq> Eio" using S assms(2) by auto
  show ?thesis
  proof (cases "c = Ok")
    case False
    then have "c = Enoent" "n \<notin> set (map (fst \<circ> snd) (ch ?i))" using S d1(2) by auto
    then show ?thesis using assms(2,3) F d1(1) by (auto simp: afs_dir_Delete_def amap_None)
  next
    case True
    then have fd: "found (ch ?i) n (hashTable_at ?i) prev b" using S by auto
    then obtain es1 f es2 where es: "ch ?i = es1 @ (b, n, f) # es2"
      and prev: "prev = (if es1 = [] then hashTable_at ?i else next_at (fst (last es1)))" by (auto simp: found_def)
    let ?e = "(b, n, f)" and ?nb = "afs_dir_NameBlobs n" and ?ch = "ch(?i := es1 @ es2)"
    let ?m2 = "mwrite (dmem d) prev (bytes16 (get16 (dmem d) (next_at b)))"
    let ?m3 = "mwrite ?m2 (flag_at b) (replicate (?nb * sizeof_DirEntry) 0)"
    have "?nb * sizeof_DirEntry \<le> 32 * ?nb" by simp
    note D = delete_unlinked[OF assms(1) DirHash_bound es prev this]
    let ?d3 = "d\<lparr>dmem := ?m3\<rparr>"
    have r3: "rep ?d3 ?ch" using unlink_ok[OF D(1)] .
    have ee: "?e \<in> entries ch" "afs_dir_NameBlobs n = ?nb" using unlinkedD(4)[OF D(1)] by simp_all
    have np: "npages ?m3 = npages (dmem d)" "alloc ?m3 x = alloc (dmem d) x" for x
      using pages_ok_cong(2,3)[of ?m3 d, OF unlinked_hdr[OF D(1)]] by auto
    have rm: "room b ?nb" using entry_room[OF assms(1) ee(1)] by simp
    have eb: "x \<in> blobs ?e" if "b \<le> x" "x < b + ?nb" for x using that by (simp add: blobs_def)
    have bp: "b div 64 < npages ?m3" "b mod 64 + ?nb \<le> 64" using entry_blob(2)[OF assms(1) ee(1) eb, of b] np(1) rm by (simp_all add: room_def)
    have "FreeBlobs ?d3 b ?nb = mark ?d3 (b div 64) False (b mod 64) ?nb"
      using rep_pages[OF r3] assms(2) bp entry_blob(1)[OF assms(1) ee(1) eb] np(2) by (intro FreeBlobs_mark) simp_all
    then have d': "code = Ok" "d' = mark ?d3 (b div 64) False (b mod 64) ?nb"
      using assms(3) F d1(1) True D(2) by (simp_all add: afs_dir_Delete_def wr_def Let_def)
    have "64 * (b div 64) + b mod 64 = b" by simp
    moreover have "x \<notin> blobs e" if "e \<in> entries ?ch" "b \<le> x" "x < b + ?nb" for e x
      using unlink_disjoint[OF D(1) that(1)] eb[OF that(2,3)] by blast
    ultimately have "rep d' ?ch" unfolding d' using r3 bp rm by (intro mark_ok(1)) (simp_all add: room_def)
    then show ?thesis using d' assms(2) found_amap[OF assms(1) fd] amap_unlink[OF assms(1) es] by auto
  qed
qed

section \<open>There is room while pages can be added\<close>

lemma free_run_hit:
  assumes "j \<in> set js" and "run_free m p n j"
  shows "\<not> fst (free_run m p n failed js)"
  using assms by (induction js arbitrary: failed) auto

lemma take_blobs_count: "j + n \<le> 64 \<Longrightarrow> npages (dmem (take_blobs d i n j)) = npages (dmem d)"
  by (rule get16_cong) (auto simp: take_blobs_def Let_def wr_def set_blobs_other)

lemma page_ready_reads [simp]: "dreads (page_ready d i) = dreads d"
  by (simp add: page_ready_def AddPage_def dir_DNew_def wr_def Let_def)

lemma take_blobs_reads [simp]: "dreads (take_blobs d i n j) = dreads d"
  by (simp add: take_blobs_def wr_def Let_def)

lemma find_pages_reads: "dreads d = [] \<Longrightarrow> dreads (snd (find_pages d n failed is)) = []"
  by (induction "is" arbitrary: d failed) (auto simp: dir_DRead_def split_beta Let_def)

text \<open>A search that is given the next page to add needs no page after it.\<close>

definition settled :: "dirfile \<Rightarrow> nat option \<times> dirfile \<Rightarrow> bool" where
  "settled d r \<longleftrightarrow> fst r \<noteq> None \<and> npages (dmem (snd r)) \<le> npages (dmem d) + 1"

lemma find_page_settled:
  assumes "dir_DRead (page_ready d k) k = (Ok, d1)" and "npages (dmem d1) \<le> npages (dmem d) + 1" and "0 < n" and "n \<le> 63"
    and "\<not> fst (free_run (dmem d1) k n failed [0..<Suc 64 - n]) \<or> settled d (find_pages d1 n True is)"
    and "128 \<le> k \<or> int n \<le> sint (dmem d (32 + k)) \<or> settled d (find_pages d n failed is)"
  shows "settled d (find_pages d n failed (k # is))"
proof -
  obtain f j where F: "free_run (dmem d1) k n failed [0..<Suc 64 - n] = (f, j)" by (metis prod.collapse)
  have "j + n \<le> 64" if "\<not> f" using free_run_found[of "dmem d1" k n failed "[0..<Suc 64 - n]" j] F that assms(3,4) by auto
  then have "\<not> f \<Longrightarrow> settled d (Some (j + k * 64), take_blobs d1 k n j)" using assms(2) by (simp add: settled_def take_blobs_count)
  then show ?thesis using assms(1,5,6) F by (cases f) auto
qed

lemma find_pages_new:
  assumes "rep d ch" and "0 < n" and "n \<le> 63" and "k = npages (dmem d)" and "k < BIGMAXPAGES" and "dreads d = []"
  shows "settled d (find_pages d n failed [k..<BIGMAXPAGES])"
proof -
  let ?d = "page_ready d k"
  note N = page_ready_new[OF assms(1,4,5)]
  have P: "pages_ok d" using assms(1) by (rule rep_pages)
  have "dmem d (32 + k) = of_nat 64" if "k < 128" using P that assms(4) by (simp add: pages_ok_def)
  then have k: "128 \<le> k \<or> int n \<le> sint (dmem d (32 + k))" using sint_small[of 64] assms(3) by (cases "k < 128") auto
  have "dpages ?d k" using rep_pages[OF N(1)] N(2) by (simp add: pages_ok_def)
  then have r: "dir_DRead ?d k = (Ok, ?d)" using N(3) assms(6) by simp
  have "run_free (dmem ?d) k n 1" using N(4) assms(3) by (auto simp: run_free_def list_all_iff)
  then have "\<not> fst (free_run (dmem ?d) k n failed [0..<Suc 64 - n])" using assms(3) by (intro free_run_hit[of 1]) auto
  then have "settled d (find_pages d n failed (k # [Suc k..<1023]))"
    using k N(2) assms(2-4) by (intro find_page_settled[OF r]) auto
  then show ?thesis using assms(5) by (simp only: upt_conv_Cons)
qed

lemma find_pages_settled:
  assumes "rep d ch" and "0 < n" and "n \<le> 63" and "k \<le> npages (dmem d)" and "npages (dmem d) < BIGMAXPAGES" and "dreads d = []"
  shows "settled d (find_pages d n failed [k..<BIGMAXPAGES])"
  using assms(4)
proof (induction "npages (dmem d) - k" arbitrary: k failed)
  case 0
  then show ?case using find_pages_new[OF assms(1-3) _ _ assms(6)] assms(5) by simp
next
  case (Suc x)
  then have k: "k < npages (dmem d)" "[k..<1023] = k # [Suc k..<1023]" using assms(5) by (simp_all add: upt_conv_Cons)
  have P: "pages_ok d" using assms(1) by (rule rep_pages)
  have r: "dir_DRead (page_ready d k) k = (Ok, d)" using page_ready_same[OF P k(1)] k(1) P assms(6) by (simp add: pages_ok_def)
  have "settled d (find_pages d n f [Suc k..<1023])" for f using Suc k(1) by simp
  then have "settled d (find_pages d n failed (k # [Suc k..<1023]))" using assms(2,3) by (intro find_page_settled[OF r]) auto
  then show ?case by (simp only: k(2))
qed

lemma FindBlobs_quiet:
  assumes "rep d ch" and "dreads d = []" and "0 < n" and "n \<le> 63"
  shows "dreads (snd (FindBlobs d n)) = []" "npages (dmem d) < BIGMAXPAGES \<Longrightarrow> settled d (FindBlobs d n)"
proof -
  have "dir_DRead d 0 = (Ok, d)" using rep_pages[OF assms(1)] assms(2) by (simp add: pages_ok_def)
  then have "FindBlobs d n = find_pages d n False [0..<BIGMAXPAGES]" by (simp add: FindBlobs_def)
  then show "dreads (snd (FindBlobs d n)) = []" "npages (dmem d) < BIGMAXPAGES \<Longrightarrow> settled d (FindBlobs d n)"
    using find_pages_reads[OF assms(2)] find_pages_settled[OF assms(1,3,4) _ _ assms(2)] by simp_all
qed

lemma linked_count: "13 \<le> b \<Longrightarrow> npages (linked m b n f) = npages m"
  by (rule get16_cong) (simp_all add: linked_def Let_def)

text \<open>With reads that work the outcome of a creation is known.\<close>

lemma Create_quiet:
  assumes "rep d ch" and "dreads d = []" and "valid_name n" and "afs_dir_Create d n f = (code, d')"
  shows "dreads d' = [] \<and> (code = Eexist \<and> amap ch n \<noteq> None \<and> d' = d \<or> amap ch n = None \<and>
    (code = Efbig \<and> npages (dmem d) = BIGMAXPAGES \<or> code = Ok \<and> (npages (dmem d) < BIGMAXPAGES \<longrightarrow> npages (dmem d') \<le> npages (dmem d) + 1)))"
proof -
  have n: "n \<noteq> []" "afs_dir_NameBlobs n \<le> 63" using assms(3) NameBlobs_valid by (auto simp: valid_name_def)
  obtain c prev b0 d1 where F: "FindItem d n = (c, prev, b0, d1)" by (metis prod.collapse)
  note S = FindItem_spec[OF assms(1) F]
  have d1: "d1 = d" "c = Ok \<or> c = Enoent" using S assms(2) by auto
  show ?thesis
  proof (cases "c = Enoent")
    case False
    then have "code = Eexist" "d' = d" using assms(4) F n(1) d1 by (auto simp: afs_dir_Create_def)
    then show ?thesis using S d1 False found_amap[OF assms(1)] assms(2) by auto
  next
    case True
    have none: "amap ch n = None" using S True by (auto simp: amap_None)
    obtain r d2 where B: "FindBlobs d (afs_dir_NameBlobs n) = (r, d2)" by (metis prod.collapse)
    note Q = FindBlobs_ok[OF assms(1) B NameBlobs_pos n(2)]
    note K = FindBlobs_quiet[OF assms(1,2) NameBlobs_pos n(2)]
    have d2: "dreads d2 = []" using K(1) B by simp
    have np: "npages (dmem d) \<le> 1023" "pages_ok d2" using rep_pages[OF assms(1)] rep_pages[OF Q(1)] by (simp_all add: pages_ok_def)
    show ?thesis
    proof (cases r)
      case None
      then have "code = Efbig" "d' = d2" using assms(4) F B n(1) True d1(1) by (simp_all add: afs_dir_Create_def)
      then show ?thesis using K(2) B None np(1) d2 none by (force simp: settled_def)
    next
      case (Some b)
      have fr: "13 \<le> b" "dpages d2 (b div 64)" "dpages d2 0" using Q(2)[OF Some] np(2) by (auto simp: fresh_def room_def pages_ok_def)
      then have "code = Ok" "d' = d2\<lparr>dmem := linked (dmem d2) b n f\<rparr>"
        using assms(4) F B n(1) True Some d1(1) d2 by (simp_all add: afs_dir_Create_def afs_dir_GetBlob_def linked_def Let_def wr_def)
      then show ?thesis using none d2 linked_count[OF fr(1)] K(2) B by (simp add: settled_def)
    qed
  qed
qed

section \<open>New directories\<close>

lemma blank_bits: "m 5 = 0xff \<Longrightarrow> m 6 = 0x1f \<Longrightarrow> (\<And>a. 7 \<le> a \<Longrightarrow> a < 13 \<Longrightarrow> m a = 0) \<Longrightarrow> x < 64 \<Longrightarrow> blob_bit m 0 x = (x < 13)"
proof -
  assume m: "m 5 = 0xff" "m 6 = 0x1f" "\<And>a. 7 \<le> a \<Longrightarrow> a < 13 \<Longrightarrow> m a = 0" "x < 64"
  consider "x < 8" | "8 \<le> x" "x < 16" | "16 \<le> x" by linarith
  then show ?thesis
  proof cases
    case 1
    then have "x \<in> {0, 1, 2, 3, 4, 5, 6, 7}" by auto
    moreover have "x div 8 = 0" using 1 by simp
    ultimately show ?thesis using m(1) by (auto simp: blob_bit_def bit_simps)
  next
    case 2
    then have "x \<in> {8, 9, 10, 11, 12, 13, 14, 15}" by auto
    then show ?thesis using m(2) by (auto simp: blob_bit_def bit_simps)
  next
    case 3
    then have "2 \<le> x div 8" "x div 8 < 8" using m(4) by auto
    then show ?thesis using m(3)[of "5 + x div 8"] 3 by (simp add: blob_bit_def)
  qed
qed

lemma blank_ok:
  assumes "get16 (dmem d) 0 = 1" and "\<And>p. dpages d p \<longleftrightarrow> p = 0" and "\<And>x. x < 64 \<Longrightarrow> blob_bit (dmem d) 0 x = (x < 13)"
    and "dmem d 32 = 51" and "\<And>a. 33 \<le> a \<Longrightarrow> a < 160 \<Longrightarrow> dmem d a = 64" and "\<And>a. 160 \<le> a \<Longrightarrow> a < 416 \<Longrightarrow> dmem d a = 0"
  shows "rep d (\<lambda>_. [])"
proof -
  have "{x. x < 64 \<and> \<not> blob_bit (dmem d) 0 x} = {13..<64}" using assms(3) by auto
  then have "nfree (dmem d) 0 = 51" by (simp add: nfree_def)
  moreover have "alloc (dmem d) b" if "b < 13" for b using that assms(3)[of b] by (simp add: alloc_def)
  moreover have "dmem d (32 + p) = (if p = 0 then 51 else 64)" if "p < 128" for p using that assms(4,5) by simp
  ultimately have "pages_ok d" using assms(1-3) by (simp add: pages_ok_def)
  moreover have "get16 (dmem d) (160 + 2 * i) = 0" if "i < 128" for i using that assms(6) by (simp add: get16_def)
  ultimately show ?thesis by (simp add: rep_def bucket_ok_def entries_def)
qed

text \<open>The page \<^verbatim>\<open>afs_dir_MakeDir\<close> lays out before the two entries are made.\<close>

definition blank :: "dirfile \<Rightarrow> dirfile" where
  "blank d = wr (wr (wr (wr (wr (wr (dir_DNew d 0) pgcount_at (bytes16 1)) (tag_at 0) (bytes16 1234))
     (freecount_at 0) [of_nat (EPP - DHE - 1)]) (freebitmap_at 0) (0xff # 0x1f # replicate (EPP div 8 - 2) 0))
     (alloMap_at 0) (of_nat (EPP - DHE - 1) # replicate (MAXPAGES - 1) (of_nat EPP)))
     (hashTable_at 0) (concat (replicate NHASHENT (bytes16 0)))"

lemma MakeDir_blank: "afs_dir_MakeDir d me parent = snd (afs_dir_Create (snd (afs_dir_Create (blank d) [46] me)) [46, 46] parent)"
  by (simp add: afs_dir_MakeDir_def blank_def Let_def)

lemma zeros: "concat (replicate n (bytes16 0)) = replicate (2 * n) 0"
  by (induction n) (simp_all add: bytes16_def)

lemma blank_rep:
  assumes "\<And>p. dpages d p \<Longrightarrow> p = 0"
  shows "rep (blank d) (\<lambda>_. [])" "dreads (blank d) = dreads d" "npages (dmem (blank d)) = 1"
proof -
  show np: "npages (dmem (blank d)) = 1"
    by (subst get16_cong[where m' = "mwrite (dmem (dir_DNew d 0)) 0 (bytes16 1)"]) (simp_all add: blank_def wr_def)
  show "dreads (blank d) = dreads d" by (simp add: blank_def wr_def dir_DNew_def)
  show "rep (blank d) (\<lambda>_. [])"
  proof (rule blank_ok[OF np])
    show "dpages (blank d) p \<longleftrightarrow> p = 0" for p using assms by (auto simp: blank_def wr_def dir_DNew_def)
    show "blob_bit (dmem (blank d)) 0 x = (x < 13)" if "x < 64" for x
      using that by (intro blank_bits) (simp_all add: blank_def wr_def mwrite_in nth_Cons split: nat.split)
    show "dmem (blank d) 32 = 51" by (simp add: blank_def wr_def mwrite_in zeros)
    show "dmem (blank d) a = 64" if "33 \<le> a" "a < 160" for a using that by (simp add: blank_def wr_def mwrite_in zeros nth_Cons split: nat.split)
    show "dmem (blank d) a = 0" if "160 \<le> a" "a < 416" for a using that by (simp add: blank_def wr_def mwrite_in zeros)
  qed
qed

lemma valid_dots: "valid_name [46]" "valid_name [46, 46]"
  by (simp_all add: valid_name_def)

lemma Create_keeps: "dir_ok d \<Longrightarrow> valid_name n \<Longrightarrow> dir_ok (snd (afs_dir_Create d n f))"
  using Create_rep[of d _ n f "fst (afs_dir_Create d n f)" "snd (afs_dir_Create d n f)"] by (fastforce simp: dir_ok_def)

lemma MakeDir_keeps: "(\<And>p. dpages d p \<Longrightarrow> p = 0) \<Longrightarrow> dir_ok (afs_dir_MakeDir d me parent)"
  unfolding MakeDir_blank using blank_rep(1)[of d] by (intro Create_keeps valid_dots) (auto simp: dir_ok_def)

end
