(* ===== verification/Dir_Walk.thy ===== *)
theory Dir_Walk
  imports Dir_Ops
begin

text \<open>
  The operations that change an identifier and those that walk all chains: the listing, the test for an
  empty directory and the search for an identifier.
\<close>

section \<open>Changing an identifier\<close>

definition upd :: "byte list \<Rightarrow> mkfid \<Rightarrow> dentry \<Rightarrow> dentry" where
  "upd n g e = (fst e, fst (snd e), if fst (snd e) = n then g else snd (snd e))"

lemma upd_sel [simp]: "fst (upd n g e) = fst e" "fst (snd (upd n g e)) = fst (snd e)" "blobs (upd n g e) = blobs e"
    "entry_ok m i (upd n g e) = entry_ok m i e" "in_entry (upd n g e) = in_entry e"
  by (simp_all add: upd_def blobs_def entry_ok_def in_entry_def fun_eq_iff)

lemma upd_maps [simp]: "map fst (map (upd n g) es) = map fst es" "map (fst \<circ> snd) (map (upd n g) es) = map (fst \<circ> snd) es"
  by simp_all

lemma same_name:
  assumes "rep d ch" and "e \<in> entries ch" and "e' \<in> entries ch" and "fst (snd e) = fst (snd e')"
  shows "e = e'"
proof -
  obtain i k where i: "i < 128" "e \<in> set (ch i)" and k: "k < 128" "e' \<in> set (ch k)" using assms(2,3) by (auto simp: entries_def)
  have "i = k" using repD(4)[OF assms(1) i] repD(4)[OF assms(1) k] assms(4) by (simp add: entry_ok_def)
  then show ?thesis using repD(3)[OF assms(1) i(1)] i k assms(4) unfolding distinct_map by (simp add: inj_on_def)
qed

lemma amap_upd: "n \<in> set (map (fst \<circ> snd) (ch (afs_dir_DirHash n))) \<Longrightarrow> amap (\<lambda>i. map (upd n g) (ch i)) = (amap ch)(n \<mapsto> g)"
proof (rule ext)
  fix n'
  assume n: "n \<in> set (map (fst \<circ> snd) (ch (afs_dir_DirHash n)))"
  have "map_of (map (snd \<circ> upd n g) es) n' = (if n' = n \<and> n \<in> set (map (fst \<circ> snd) es) then Some g else map_of (map snd es) n')" for es
    by (induction es; cases "n' = n") (simp_all add: upd_def)
  then show "amap (\<lambda>i. map (upd n g) (ch i)) n' = ((amap ch)(n \<mapsto> g)) n'" using n by (auto simp: amap_def)
qed

lemma chain_upd:
  assumes "chain m x es" and "\<And>e a. e \<in> set es \<Longrightarrow> fst (snd e) \<noteq> n \<Longrightarrow> in_entry e a \<Longrightarrow> m' a = m a"
    and "\<And>e a. e \<in> set es \<Longrightarrow> fst (snd e) = n \<Longrightarrow> in_entry e a \<Longrightarrow> a < vnode_at (fst e) \<or> name_at (fst e) \<le> a \<Longrightarrow> m' a = m a"
    and "\<And>e. e \<in> set es \<Longrightarrow> fst (snd e) = n \<Longrightarrow> get32 m' (vnode_at (fst e)) = fst g \<and> get32 m' (vunique_at (fst e)) = snd g"
  shows "chain m' x (map (upd n g) es)"
  using assms
proof (induction es arbitrary: x)
  case (Cons e es)
  obtain b n0 f where e: "e = (b, n0, f)" by (cases e)
  have l: "12 + length n0 < 32 * afs_dir_NameBlobs n0" by (rule NameBlobs_fits)
  have c: "x = b" "b \<noteq> 0" "entry_at m b n0 f" "chain m (get16 m (next_at b)) es" using Cons.prems(1) e by simp_all
  have k: "m' a = m a" if "in_entry e a" "a < vnode_at b \<or> name_at b \<le> a" for a using Cons.prems(2,3)[of e a] that e by auto
  have "get16 m' (next_at b) = get16 m (next_at b)" using k l e by (intro get16_cong) (auto simp: in_entry_def)
  moreover have "chain m' (get16 m (next_at b)) (map (upd n g) es)" 
    using c(4) by (rule Cons.IH) (rule Cons.prems(2-4); simp)+
  moreover have "entry_at m' b n0 (if n0 = n then g else f)"
  proof (cases "n0 = n")
    case True
    then show ?thesis using c(3) k l Cons.prems(4)[of e] e by (auto simp: entry_at_def in_entry_def)
  next
    case False
    then show ?thesis using c(3) Cons.prems(2)[of e] e by (auto simp: in_entry_def intro: entry_at_cong)
  qed
  moreover have "upd n g e = (b, n0, if n0 = n then g else f)" using e by (simp add: upd_def)
  ultimately show ?case using c by simp
qed simp

lemma upd_ok:
  assumes "rep d ch" and "(b, n, f) \<in> entries ch" and "get32 m' (vnode_at b) = fst g" and "get32 m' (vunique_at b) = snd g"
    and "\<And>a. a < vnode_at b \<or> name_at b \<le> a \<Longrightarrow> m' a = dmem d a"
  shows "rep (d\<lparr>dmem := m'\<rparr>) (\<lambda>i. map (upd n g) (ch i))"
proof -
  let ?e = "(b, n, f)"
  have l: "12 + length n < 32 * afs_dir_NameBlobs n" by (rule NameBlobs_fits)
  have out: "m' a = dmem d a" if "\<not> in_entry ?e a" for a using that l by (intro assms(5)) (auto simp: in_entry_def)
  have eq: "e = ?e" if "e \<in> entries ch" "fst (snd e) = n" for e using same_name[OF assms(1) that(1) assms(2)] that(2) by simp
  have hdr: "m' a = dmem d a" if "a < 416 \<or> a mod 2048 < 32" for a
    using that in_entry_addr[OF assms(1,2), of a] by (intro out) linarith
  have "m' a = dmem d a" if "a < 160 \<or> 416 \<le> a \<and> a mod 2048 < 32" for a using that by (intro hdr) auto
  note H = pages_ok_cong[of m' d, OF this]
  have ch: "bucket_ok m' i (map (upd n g) (ch i))" if i: "i < 128" for i
  proof -
    have ent: "e \<in> entries ch" if "e \<in> set (ch i)" for e using repD(5)[OF assms(1) i that] .
    have "get16 m' (160 + 2 * i) = get16 (dmem d) (160 + 2 * i)" using i by (intro get16_cong hdr) auto
    moreover have "chain m' (get16 (dmem d) (160 + 2 * i)) (map (upd n g) (ch i))"
      using repD(1)[OF assms(1) i]
    proof (rule chain_upd)
      show "m' a = dmem d a" if "e \<in> set (ch i)" "fst (snd e) \<noteq> n" "in_entry e a" for e a
        using in_entry_disjoint[OF assms(1) ent[OF that(1)] assms(2) _ that(3)] that(2) by (intro out) (metis fst_conv snd_conv)
      show "m' a = dmem d a" if "e \<in> set (ch i)" "fst (snd e) = n" "in_entry e a" "a < vnode_at (fst e) \<or> name_at (fst e) \<le> a" for e a
        using eq[OF ent[OF that(1)] that(2)] that(4) by (intro assms(5)) auto
      show "get32 m' (vnode_at (fst e)) = fst g \<and> get32 m' (vunique_at (fst e)) = snd g" if "e \<in> set (ch i)" "fst (snd e) = n" for e
        using eq[OF ent[OF that(1)] that(2)] assms(3,4) by auto
    qed
    moreover have "entry_ok m' i e = entry_ok (dmem d) i e" for e using H(2,3) by (simp add: entry_ok_def)
    ultimately show ?thesis using repD(2-4)[OF assms(1) i] unfolding bucket_ok_def by (simp only: upd_maps) auto
  qed
  have ent: "\<exists>e' \<in> entries ch. e = upd n g e'" if "e \<in> entries (\<lambda>i. map (upd n g) (ch i))" for e using that by (auto simp: entries_def)
  have "blobs e1 \<inter> blobs e2 = {}"
    if e: "e1 \<in> entries (\<lambda>i. map (upd n g) (ch i))" "e2 \<in> entries (\<lambda>i. map (upd n g) (ch i))" "e1 \<noteq> e2" for e1 e2
  proof -
    obtain a1 a2 where a: "a1 \<in> entries ch" "e1 = upd n g a1" "a2 \<in> entries ch" "e2 = upd n g a2" using ent[OF e(1)] ent[OF e(2)] by blast
    then have "a1 \<noteq> a2" using e(3) by blast
    then show ?thesis using assms(1) a by (simp add: rep_def)
  qed
  moreover have "pages_ok (d\<lparr>dmem := m'\<rparr>)" using H(1) rep_pages[OF assms(1)] by simp
  ultimately show ?thesis using ch unfolding rep_def by simp
qed

lemma ChangeFid_rep:
  assumes "rep d ch" and "dreads d = []" and "afs_dir_ChangeFid d n old g = (code, d')"
  shows "dreads d' = [] \<and> (amap ch n = None \<and> code = Enoent \<and> d' = d \<or>
    code = Ok \<and> amap ch n \<noteq> None \<and> (if old = None \<or> old = amap ch n then \<exists>ch'. rep d' ch' \<and> amap ch' = (amap ch)(n \<mapsto> g) else d' = d))"
proof -
  let ?i = "afs_dir_DirHash n"
  obtain c prev b d1 where F: "FindItem d n = (c, prev, b, d1)" by (metis prod.collapse)
  note S = FindItem_spec[OF assms(1) F]
  have d1: "d1 = d" "c \<noteq> Eio" using S assms(2) by auto
  show ?thesis
  proof (cases "c = Ok")
    case False
    then have "c = Enoent" "n \<notin> set (map (fst \<circ> snd) (ch ?i))" using S d1(2) by auto
    then show ?thesis using assms(2,3) F d1(1) by (auto simp: afs_dir_ChangeFid_def amap_None)
  next
    case True
    then have fd: "found (ch ?i) n (hashTable_at ?i) prev b" using S by auto
    then obtain f where e: "(b, n, f) \<in> set (ch ?i)" unfolding found_def by (metis in_set_conv_decomp)
    note A = found_amap[OF assms(1) fd]
    let ?m = "mwrite (mwrite (dmem d) (vnode_at b) (bytes32 (fst g))) (vunique_at b) (bytes32 (snd g))"
    have "get32 ?m (vnode_at b) = get32 (mwrite (dmem d) (vnode_at b) (bytes32 (fst g))) (vnode_at b)" by (rule get32_cong) simp
    then have "rep (d\<lparr>dmem := ?m\<rparr>) (\<lambda>i. map (upd n g) (ch i))"
      using repD(5)[OF assms(1) DirHash_bound e] by (intro upd_ok[OF assms(1)]) auto
    moreover have "amap (\<lambda>i. map (upd n g) (ch i)) = (amap ch)(n \<mapsto> g)" using e by (intro amap_upd) force
    ultimately show ?thesis using A assms(2,3) F d1(1) True by (auto simp: afs_dir_ChangeFid_def wr_def split: if_splits)
  qed
qed

section \<open>Walking the chains\<close>

definition readable :: "dirfile \<Rightarrow> dentry \<Rightarrow> bool" where
  "readable d e \<longleftrightarrow> afs_dir_GetVerifiedBlob d (fst e) = (Ok, d) \<and> entry_name (dmem d) (fst e) = fst (snd e) \<and>
     (get32 (dmem d) (vnode_at (fst e)), get32 (dmem d) (vunique_at (fst e))) = snd (snd e)"

lemma rep_readable:
  assumes "rep d ch" and "dreads d = []" and "i < NHASHENT" and "e \<in> set (ch i)"
  shows "readable d e"
proof -
  obtain b n f where e: "e = (b, n, f)" by (cases e)
  have a: "entry_at (dmem d) b n f" using chain_entry[OF repD(1)[OF assms(1,3)]] assms(4) e by simp
  note R = rep_entry[OF assms(1,3,4)]
  obtain c d1 where "afs_dir_GetVerifiedBlob d b = (c, d1)" by (metis prod.collapse)
  then have "afs_dir_GetVerifiedBlob d b = (Ok, d)" using verified_entry[OF a] R e assms(2) by (metis fst_conv snd_conv)
  then show ?thesis using entry_name_at[OF a] R(1) a e by (simp add: readable_def entry_at_def prod_eq_iff)
qed

text \<open>The hook that keeps what it is shown.\<close>

definition collect :: "(byte list \<times> mkfid) list hook" where
  "collect h n v u = (0, h @ [(n, v, u)])"

lemma enum_chain_collect:
  "chain (dmem d) x es \<Longrightarrow> \<forall>e \<in> set es. readable d e \<Longrightarrow> length es \<le> k \<Longrightarrow>
   enum_chain collect k x h d = (False, h @ map snd es, d)"
proof (induction es arbitrary: k x h)
  case Nil
  then show ?case by (cases k) simp_all
next
  case (Cons e es)
  obtain b n f where e: "e = (b, n, f)" by (cases e)
  obtain k' where "k = Suc k'" using Cons.prems(3) by (cases k) auto
  moreover have "enum_chain collect k' (get16 (dmem d) (next_at b)) (h @ [(n, f)]) d = (False, (h @ [(n, f)]) @ map snd es, d)"
    using Cons.prems e calculation by (intro Cons.IH) auto
  moreover have "collect h n (fst f) (snd f) = (0, h @ [(n, f)])" by (simp add: collect_def)
  ultimately show ?case using Cons.prems e by (auto simp: readable_def)
qed

lemma other_chain_spec:
  "chain (dmem d) x es \<Longrightarrow> \<forall>e \<in> set es. readable d e \<Longrightarrow> length es \<le> k \<Longrightarrow>
   other_chain k x d = (\<exists>e \<in> set es. fst (snd e) \<noteq> [46, 46] \<and> fst (snd e) \<noteq> [46], d)"
proof (induction es arbitrary: k x)
  case Nil
  then show ?case by (cases k) simp_all
next
  case (Cons e es)
  obtain b n f where e: "e = (b, n, f)" by (cases e)
  obtain k' where "k = Suc k'" using Cons.prems(3) by (cases k) auto
  moreover have "other_chain k' (get16 (dmem d) (next_at b)) d = (\<exists>e \<in> set es. fst (snd e) \<noteq> [46, 46] \<and> fst (snd e) \<noteq> [46], d)"
    using Cons.prems e calculation by (intro Cons.IH) auto
  ultimately show ?case using Cons.prems e by (auto simp: readable_def)
qed

lemma fid_chain_spec:
  "chain (dmem d) x es \<Longrightarrow> es \<noteq> [] \<Longrightarrow> \<forall>e \<in> set es. readable d e \<Longrightarrow> length es \<le> k \<Longrightarrow>
   fid_chain k d f x = (Ok, map_option fst (find (\<lambda>e. snd (snd e) = f) es), d)"
proof (induction es arbitrary: k x)
  case (Cons e es)
  obtain b n g where e: "e = (b, n, g)" by (cases e)
  obtain k' where k: "k = Suc k'" using Cons.prems(4) by (cases k) auto
  have g: "x = b" "b \<noteq> 0" "get32 (dmem d) (vnode_at b) = fst g" "get32 (dmem d) (vunique_at b) = snd g" "chain (dmem d) (get16 (dmem d) (next_at b)) es"
    using Cons.prems(1,3) e by (auto simp: readable_def)
  show ?case
  proof (cases es)
    case Nil
    then show ?thesis using g e k by (auto simp: prod_eq_iff)
  next
    case (Cons e1 es1)
    then have nx: "get16 (dmem d) (next_at b) = fst e1" "fst e1 \<noteq> 0" using g(5) by (cases e1; simp)+
    then have "fid_chain k' d f (fst e1) = (Ok, map_option fst (find (\<lambda>e. snd (snd e) = f) es), d)"
      using Cons.IH[of "fst e1" k'] g(5) Cons Cons.prems k by auto
    moreover have "afs_dir_GetVerifiedBlob d (fst e1) = (Ok, d)" using Cons.prems(3) Cons by (simp add: readable_def)
    moreover have "fst f = fst g \<and> snd f = snd g \<longleftrightarrow> g = f" by (auto simp: prod_eq_iff)
    ultimately show ?thesis using g(1-4) e k nx by simp
  qed
qed simp

text \<open>The three walks over the whole table.\<close>

lemma enum_table_collect:
  assumes "rep d ch" and "dreads d = []" and "\<forall>i \<in> set is. i < NHASHENT"
  shows "enum_table collect is h d = (h @ concat (map (\<lambda>i. map snd (ch i)) is), d)"
  using assms(3)
proof (induction "is" arbitrary: h)
  case (Cons i "is")
  have "enum_chain collect (BIGMAXPAGES * EPP) (get16 (dmem d) (hashTable_at i)) h d = (False, h @ map snd (ch i), d)"
    using repD(1)[OF assms(1)] rep_readable[OF assms(1,2)] chain_length[OF assms(1)] Cons.prems by (intro enum_chain_collect) auto
  then show ?case using Cons by simp
qed simp

lemma other_table_spec:
  assumes "rep d ch" and "dreads d = []" and "\<forall>i \<in> set is. i < NHASHENT"
  shows "other_table is d = (\<exists>i \<in> set is. \<exists>e \<in> set (ch i). fst (snd e) \<noteq> [46, 46] \<and> fst (snd e) \<noteq> [46], d)"
  using assms(3)
proof (induction "is")
  case (Cons i "is")
  have "other_chain (BIGMAXPAGES * EPP) (get16 (dmem d) (hashTable_at i)) d = (\<exists>e \<in> set (ch i). fst (snd e) \<noteq> [46, 46] \<and> fst (snd e) \<noteq> [46], d)"
    using repD(1)[OF assms(1)] rep_readable[OF assms(1,2)] chain_length[OF assms(1)] Cons.prems by (intro other_chain_spec) auto
  then show ?case using Cons by (simp, blast)
qed simp

lemma fid_table_spec:
  assumes "rep d ch" and "dreads d = []" and "\<forall>i \<in> set is. i < NHASHENT"
  shows "fid_table is d f = (case find (\<lambda>e. snd (snd e) = f) (concat (map ch is)) of None \<Rightarrow> (Enoent, 0, d) | Some e \<Rightarrow> (Ok, fst e, d))"
  using assms(3)
proof (induction "is")
  case (Cons i "is")
  note C = repD(1)[OF assms(1), of i]
  show ?case
  proof (cases "ch i")
    case Nil
    then show ?thesis using Cons C by simp
  next
    case (Cons e es)
    have i: "i < 128" using Cons.prems by simp
    have b: "get16 (dmem d) (hashTable_at i) = fst e" "fst e \<noteq> 0" using C[OF i] Cons by (cases e; simp)+
    have "fid_chain (BIGMAXPAGES * EPP) d f (get16 (dmem d) (hashTable_at i)) = (Ok, map_option fst (find (\<lambda>e. snd (snd e) = f) (ch i)), d)"
      using C[OF i] rep_readable[OF assms(1,2) i] chain_length[OF assms(1) i] Cons by (intro fid_chain_spec) auto
    moreover have "afs_dir_GetVerifiedBlob d (fst e) = (Ok, d)" using rep_readable[OF assms(1,2) i, of e] Cons by (simp add: readable_def)
    moreover have "fid_table is d f = (case find (\<lambda>e. snd (snd e) = f) (concat (map ch is)) of None \<Rightarrow> (Enoent, 0, d) | Some e \<Rightarrow> (Ok, fst e, d))"
      using Cons.IH Cons.prems by simp
    moreover have "find P (xs @ ys) = (case find P xs of None \<Rightarrow> find P ys | Some x \<Rightarrow> Some x)" for P :: "dentry \<Rightarrow> bool" and xs ys
      by (induction xs) auto
    ultimately show ?thesis using b by (simp split: option.splits)
  qed
qed simp

text \<open>What the table holds, read off its chains.\<close>

lemma amap_Some: "rep d ch \<Longrightarrow> amap ch n = Some f \<longleftrightarrow> (\<exists>b. (b, n, f) \<in> entries ch)"
proof
  assume r: "rep d ch"
  show "\<exists>b. (b, n, f) \<in> entries ch" if "amap ch n = Some f"
  proof -
    have "(n, f) \<in> set (map snd (ch (afs_dir_DirHash n)))" using that unfolding amap_def by (rule map_of_SomeD)
    then obtain b where "(b, n, f) \<in> set (ch (afs_dir_DirHash n))" by auto
    then show ?thesis using repD(5)[OF r DirHash_bound] by blast
  qed
  show "amap ch n = Some f" if ex: "\<exists>b. (b, n, f) \<in> entries ch"
  proof -
    obtain b i where i: "i < 128" "(b, n, f) \<in> set (ch i)" using ex by (auto simp: entries_def)
    then have "i = afs_dir_DirHash n" using repD(4)[OF r i] by (simp add: entry_ok_def)
    moreover have "distinct (map fst (map snd (ch i)))" using repD(3)[OF r i(1)] by (simp add: comp_def)
    moreover have "(n, f) \<in> set (map snd (ch i))" using i(2) by force
    ultimately show ?thesis unfolding amap_def by (metis map_of_is_SomeI)
  qed
qed

lemma listing_distinct:
  assumes "rep d ch" and "distinct is" and "\<forall>i \<in> set is. i < NHASHENT"
  shows "distinct (map fst (concat (map (\<lambda>i. map snd (ch i)) is)))"
  using assms(2,3)
proof (induction "is")
  case (Cons i "is")
  have h: "afs_dir_DirHash n = k" if "k \<in> set (i # is)" "n \<in> fst ` snd ` set (ch k)" for n k
    using repD(4)[OF assms(1)] Cons.prems(2) that by (auto simp: entry_ok_def)
  have "fst ` snd ` set (ch i) \<inter> fst ` snd ` set (ch k) = {}" if "k \<in> set is" for k
    using h[of i] h[of k] Cons.prems(1) that by (metis disjoint_iff distinct.simps(2) list.set_intros)
  moreover have "distinct (map fst (map snd (ch i)))" using repD(3)[OF assms(1), of i] Cons.prems by (simp add: comp_def)
  ultimately show ?case using Cons by (auto simp: image_iff)
qed simp

end
