(* ===== verification/Dir_Map.thy ===== *)
theory Dir_Map
  imports Dir_Walk
begin

text \<open>
  A directory as a map from names to file identifiers: what each operation of \<^verbatim>\<open>dir/dir.c\<close> does to the map,
  that every directory the operations lead to is well-formed, and the renaming of an entry by a
  client that knows only the contract.
\<close>

lemma dir_map_reads [simp]: "dir_map (d\<lparr>dreads := r\<rparr>) = dir_map d"
  by (simp add: dir_map_def fun_eq_iff)

lemma Create_dir:
  assumes "dir_ok d" and "dreads d = []" and "valid_name n" and "afs_dir_Create d n f = (code, d')"
  shows "dreads d' = [] \<and> (dir_map d n \<noteq> None \<and> code = Eexist \<and> d' = d \<or> dir_map d n = None \<and> dir_ok d' \<and>
    (code = Ok \<and> dir_map d' = (dir_map d)(n \<mapsto> f) \<and> (npages (dmem d) < BIGMAXPAGES \<longrightarrow> npages (dmem d') \<le> npages (dmem d) + 1) \<or>
     code = Efbig \<and> dir_map d' = dir_map d \<and> npages (dmem d) = BIGMAXPAGES))"
proof -
  obtain ch where r: "rep d ch" using assms(1) by (auto simp: dir_ok_def)
  note Q = Create_quiet[OF r assms(2-4)]
  have e: "dir_map d = amap ch" using dir_map_rep[OF r] .
  consider "code = Ok" "\<exists>b. rep d' (ch(afs_dir_DirHash n := (b, n, f) # ch (afs_dir_DirHash n)))" | "code \<noteq> Ok" "rep d' ch"
    using Create_rep[OF r assms(3,4)] by blast
  then show ?thesis
  proof cases
    case 1
    then obtain b where b: "rep d' (ch(afs_dir_DirHash n := (b, n, f) # ch (afs_dir_DirHash n)))" by blast
    have "dir_map d' = (dir_map d)(n \<mapsto> f)" using dir_map_rep[OF b] amap_link e by simp
    moreover have "dir_ok d'" using b by (auto simp: dir_ok_def)
    ultimately show ?thesis using Q 1(1) e by auto
  next
    case 2
    have "dir_map d' = dir_map d" "dir_ok d'" using dir_map_rep[OF 2(2)] e 2(2) by (auto simp: dir_ok_def)
    then show ?thesis using Q 2(1) e by auto
  qed
qed

lemma Delete_dir:
  assumes "dir_ok d" and "dreads d = []" and "afs_dir_Delete d n = (code, d')"
  shows "dreads d' = [] \<and> dir_ok d' \<and> (dir_map d n = None \<and> code = Enoent \<and> d' = d \<or>
    dir_map d n \<noteq> None \<and> code = Ok \<and> dir_map d' = (dir_map d)(n := None))"
proof -
  obtain ch where r: "rep d ch" using assms(1) by (auto simp: dir_ok_def)
  show ?thesis using Delete_rep[OF r assms(2,3)] dir_map_rep[OF r] dir_map_rep assms(1) by (auto simp: dir_ok_def)
qed

lemma ChangeFid_dir:
  assumes "dir_ok d" and "dreads d = []" and "afs_dir_ChangeFid d n old g = (code, d')"
  shows "dreads d' = [] \<and> dir_ok d' \<and> (dir_map d n = None \<and> code = Enoent \<and> d' = d \<or>
    dir_map d n \<noteq> None \<and> code = Ok \<and> dir_map d' = (if old = None \<or> old = dir_map d n then (dir_map d)(n \<mapsto> g) else dir_map d))"
proof -
  obtain ch where r: "rep d ch" using assms(1) by (auto simp: dir_ok_def)
  show ?thesis using ChangeFid_rep[OF r assms(2,3)] dir_map_rep[OF r] dir_map_rep assms(1) by (auto simp: dir_ok_def split: if_splits)
qed

lemma MakeDir_dir:
  assumes "\<And>p. dpages d p \<Longrightarrow> p = 0" and "dreads d = []"
  shows "dir_ok (afs_dir_MakeDir d me parent)" "dreads (afs_dir_MakeDir d me parent) = []"
    "dir_map (afs_dir_MakeDir d me parent) = [[46] \<mapsto> me, [46, 46] \<mapsto> parent]"
    "npages (dmem (afs_dir_MakeDir d me parent)) \<le> 3"
proof -
  let ?d1 = "snd (afs_dir_Create (blank d) [46] me)"
  note B = blank_rep[of d, OF assms(1)]
  have m0: "dir_map (blank d) = Map.empty" using dir_map_rep[OF B(1)] by (simp add: amap_def fun_eq_iff)
  have "dir_ok (blank d)" using B(1) by (auto simp: dir_ok_def)
  then have 1: "dreads ?d1 = []" "dir_ok ?d1" "dir_map ?d1 = [[46] \<mapsto> me]" "npages (dmem ?d1) \<le> 2"
    using Create_dir[OF _ _ valid_dots(1), of "blank d" me "fst (afs_dir_Create (blank d) [46] me)" ?d1] B(2,3) assms(2) m0 by auto
  note C = Create_dir[OF 1(2,1) valid_dots(2), of parent "fst (afs_dir_Create ?d1 [46, 46] parent)" "snd (afs_dir_Create ?d1 [46, 46] parent)"]
  then show "dir_ok (afs_dir_MakeDir d me parent)" "dreads (afs_dir_MakeDir d me parent) = []"
    "dir_map (afs_dir_MakeDir d me parent) = [[46] \<mapsto> me, [46, 46] \<mapsto> parent]"
    "npages (dmem (afs_dir_MakeDir d me parent)) \<le> 3"
    unfolding MakeDir_blank using 1 by auto
qed

lemma Lookup_dir:
  assumes "dir_ok d" and "dreads d = []"
  shows "afs_dir_Lookup d n = (case dir_map d n of None \<Rightarrow> (Enoent, (0, 0), d) | Some f \<Rightarrow> (Ok, f, d))"
  using Lookup_rep[OF _ assms(2)] dir_map_rep assms(1) by (auto simp: dir_ok_def)

lemma dir_page0: "dir_ok d \<Longrightarrow> dpages d 0"
  using rep_pages by (auto simp: dir_ok_def pages_ok_def)

text \<open>The contract of a directory and what a client that renames an entry gets from it.\<close>

locale directory =
  fixes ok :: "'d \<Rightarrow> bool" and names :: "'d \<Rightarrow> 'n \<Rightarrow> 'f option" and valid :: "'n \<Rightarrow> bool"
    and create :: "'d \<Rightarrow> 'n \<Rightarrow> 'f \<Rightarrow> derr \<times> 'd" and delete :: "'d \<Rightarrow> 'n \<Rightarrow> derr \<times> 'd"
  assumes create_new: "ok d \<Longrightarrow> valid n \<Longrightarrow> create d n f = (Ok, d') \<Longrightarrow> ok d' \<and> names d n = None \<and> names d' = (names d)(n \<mapsto> f)"
    and create_failed: "ok d \<Longrightarrow> valid n \<Longrightarrow> create d n f = (code, d') \<Longrightarrow> code \<noteq> Ok \<Longrightarrow> ok d' \<and> names d' = names d"
    and delete_there: "ok d \<Longrightarrow> names d n \<noteq> None \<Longrightarrow> delete d n = (code, d') \<Longrightarrow> code = Ok \<and> ok d' \<and> names d' = (names d)(n := None)"
begin

lemma rename_entry:
  assumes "ok d" and "valid new" and "names d old = Some f" and "new \<noteq> old"
    and "d1 = (if names d new = None then d else snd (delete d new))" and "create d1 new f = (code, d2)"
  shows "if code = Ok then (\<exists>d3. delete d2 old = (Ok, d3) \<and> ok d3 \<and> names d3 = (names d)(new \<mapsto> f, old := None))
    else ok d2 \<and> names d2 = (names d)(new := None)"
proof -
  have d1: "ok d1" "names d1 = (names d)(new := None)"
    using delete_there[OF assms(1), of new "fst (delete d new)" "snd (delete d new)"] assms(1,5) by (auto simp: fun_upd_idem)
  show ?thesis
  proof (cases "code = Ok")
    case True
    then have d2: "ok d2" "names d2 = (names d)(new \<mapsto> f)" using create_new[OF d1(1) assms(2)] assms(6) d1(2) by auto
    have "names d2 old \<noteq> None" using d2(2) assms(3,4) by simp
    then have "fst (delete d2 old) = Ok" "ok (snd (delete d2 old))" "names (snd (delete d2 old)) = (names d2)(old := None)"
      using delete_there[OF d2(1), of old "fst (delete d2 old)" "snd (delete d2 old)"] by simp_all
    then show ?thesis using True d2(2) by (auto intro!: exI[of _ "snd (delete d2 old)"] simp: prod_eq_iff)
  next
    case False
    then show ?thesis using create_failed[OF d1(1) assms(2,6)] d1(2) by simp
  qed
qed

end

interpretation afs_dirs: directory "\<lambda>d. dir_ok d \<and> dreads d = []" dir_map valid_name afs_dir_Create afs_dir_Delete
proof unfold_locales
  fix d d' :: dirfile and n f code
  assume d: "dir_ok d \<and> dreads d = []" "valid_name n"
  show "(dir_ok d' \<and> dreads d' = []) \<and> dir_map d n = None \<and> dir_map d' = (dir_map d)(n \<mapsto> f)" if "afs_dir_Create d n f = (Ok, d')"
    using Create_dir[OF _ _ d(2) that] d(1) by simp
  show "(dir_ok d' \<and> dreads d' = []) \<and> dir_map d' = dir_map d" if "afs_dir_Create d n f = (code, d')" "code \<noteq> Ok"
    using Create_dir[OF _ _ d(2) that(1)] that(2) d(1) by auto
next
  fix d d' :: dirfile and n code
  assume d: "dir_ok d \<and> dreads d = []" "dir_map d n \<noteq> None" "afs_dir_Delete d n = (code, d')"
  show "code = Ok \<and> (dir_ok d' \<and> dreads d' = []) \<and> dir_map d' = (dir_map d)(n := None)"
    using Delete_dir[OF _ _ d(3)] d(1,2) by simp
qed

section \<open>Listings\<close>

definition table :: "nat list" where
  "table = [0..<NHASHENT]"

lemma table: "distinct table" "set table = {..<NHASHENT}" "\<forall>i \<in> set table. i < NHASHENT"
  unfolding table_def by (simp_all only: distinct_upt set_upt atLeast0LessThan lessThan_iff ball_simps simp_thms) auto

lemma table_entries: "set (concat (map ch table)) = entries ch"
  by (simp add: entries_def table(2))

lemma Enumerate_dir:
  assumes "dir_ok d" and "dreads d = []"
  shows "\<exists>l. afs_dir_EnumerateDir d collect [] = (Ok, l, d) \<and> distinct (map fst l) \<and> map_of l = dir_map d"
proof -
  obtain ch where r: "rep d ch" using assms(1) by (auto simp: dir_ok_def)
  let ?l = "concat (map (\<lambda>i. map snd (ch i)) table)"
  have l: "distinct (map fst ?l)" using listing_distinct[OF r table(1,3)] .
  have "set ?l = snd ` entries ch" by (auto simp: entries_def table(2))
  then have "(n, f) \<in> set ?l \<longleftrightarrow> (\<exists>b. (b, n, f) \<in> entries ch)" for n f by force
  then have "map_of ?l n = Some f \<longleftrightarrow> amap ch n = Some f" for n f using amap_Some[OF r] map_of_eq_Some_iff[OF l] by simp
  then have "map_of ?l n = amap ch n" for n by (cases "amap ch n"; cases "map_of ?l n") (metis not_None_eq option.inject)+
  then have "map_of ?l = dir_map d" unfolding dir_map_rep[OF r] by (rule ext)
  moreover have "afs_dir_EnumerateDir d collect [] = (Ok, ?l, d)"
    unfolding afs_dir_EnumerateDir_def table_def[symmetric] using enum_table_collect[OF r assms(2) table(3)] dir_page0[OF assms(1)] assms(2) by simp
  ultimately show ?thesis using l by blast
qed

lemma IsEmpty_dir:
  assumes "dir_ok d" and "dreads d = []"
  shows "afs_dir_IsEmpty d = (\<exists>n. dir_map d n \<noteq> None \<and> n \<noteq> [46] \<and> n \<noteq> [46, 46], d)"
proof -
  obtain ch where r: "rep d ch" using assms(1) by (auto simp: dir_ok_def)
  have m: "dir_map d n = Some f \<longleftrightarrow> (\<exists>b. (b, n, f) \<in> entries ch)" for n f using amap_Some[OF r] dir_map_rep[OF r] by simp
  have t: "(\<exists>i \<in> set table. \<exists>e \<in> set (ch i). P (fst (snd e))) \<longleftrightarrow> (\<exists>e \<in> entries ch. P (fst (snd e)))" for P
    unfolding table_entries[of ch, symmetric] by simp
  have e: "(\<exists>e \<in> entries ch. P (fst (snd e))) \<longleftrightarrow> (\<exists>n. dir_map d n \<noteq> None \<and> P n)" for P
    using m by (metis not_None_eq prod.collapse fst_conv snd_conv)
  have "(\<exists>i \<in> set table. \<exists>e \<in> set (ch i). fst (snd e) \<noteq> [46, 46] \<and> fst (snd e) \<noteq> [46]) \<longleftrightarrow> (\<exists>n. dir_map d n \<noteq> None \<and> n \<noteq> [46] \<and> n \<noteq> [46, 46])"
    using t[of "\<lambda>n. n \<noteq> [46, 46] \<and> n \<noteq> [46]"] e[of "\<lambda>n. n \<noteq> [46, 46] \<and> n \<noteq> [46]"] by blast
  then show ?thesis unfolding afs_dir_IsEmpty_def table_def[symmetric]
    using other_table_spec[OF r assms(2) table(3)] dir_page0[OF assms(1)] assms(2) by simp
qed

lemma InverseLookup_dir:
  assumes "dir_ok d" and "dreads d = []"
  shows "(\<forall>n. dir_map d n \<noteq> Some f) \<and> afs_dir_InverseLookup d f len = (Enoent, [], d) \<or>
    (\<exists>n. dir_map d n = Some f \<and> afs_dir_InverseLookup d f len = (if len \<le> length n then (E2big, [], d) else (Ok, n, d)))"
proof -
  obtain ch where r: "rep d ch" using assms(1) by (auto simp: dir_ok_def)
  have m: "dir_map d n = Some f \<longleftrightarrow> (\<exists>b. (b, n, f) \<in> entries ch)" for n using amap_Some[OF r] dir_map_rep[OF r] by simp
  have T: "FindFid d f = (case find (\<lambda>e. snd (snd e) = f) (concat (map ch table)) of None \<Rightarrow> (Enoent, 0, d) | Some e \<Rightarrow> (Ok, fst e, d))"
    unfolding FindFid_def table_def[symmetric] using fid_table_spec[OF r assms(2) table(3)] dir_page0[OF assms(1)] assms(2) by simp
  note ent = table_entries[of ch]
  show ?thesis
  proof (cases "find (\<lambda>e. snd (snd e) = f) (concat (map ch table))")
    case None
    then have "\<not> (\<exists>e. e \<in> entries ch \<and> snd (snd e) = f)" using ent unfolding find_None_iff by blast
    then have "dir_map d n \<noteq> Some f" for n using m by fastforce
    then show ?thesis using T None by (simp add: afs_dir_InverseLookup_def)
  next
    case (Some e)
    then have e: "e \<in> entries ch" "snd (snd e) = f" using ent unfolding find_Some_iff by (metis nth_mem)+
    obtain i where i: "i < 128" "e \<in> set (ch i)" using e(1) by (auto simp: entries_def)
    have "dir_map d (fst (snd e)) = Some f" using e m by (metis prod.collapse)
    moreover have "entry_name (dmem d) (fst e) = fst (snd e)" using rep_readable[OF r assms(2) i] by (simp add: readable_def)
    ultimately show ?thesis using T Some by (auto simp: afs_dir_InverseLookup_def intro!: exI[of _ "fst (snd e)"])
  qed
qed

section \<open>Directories the operations lead to\<close>

inductive dir_reachable :: "dirfile \<Rightarrow> bool" where
  made: "\<forall>p. dpages d p \<longrightarrow> p = 0 \<Longrightarrow> dir_reachable (afs_dir_MakeDir d me parent)"
| reads_to_come: "dir_reachable d \<Longrightarrow> dir_reachable (d\<lparr>dreads := r\<rparr>)"
| created: "dir_reachable d \<Longrightarrow> valid_name n \<Longrightarrow> dir_reachable (snd (afs_dir_Create d n f))"
| deleted: "dir_reachable d \<Longrightarrow> dreads d = [] \<Longrightarrow> dir_reachable (snd (afs_dir_Delete d n))"
| changed: "dir_reachable d \<Longrightarrow> dreads d = [] \<Longrightarrow> dir_reachable (snd (afs_dir_ChangeFid d n old g))"

lemma dir_reachable_ok: "dir_reachable d \<Longrightarrow> dir_ok d"
proof (induction rule: dir_reachable.induct)
  case (made d me parent)
  then show ?case by (intro MakeDir_keeps) simp
next
  case (reads_to_come d r)
  then show ?case by (simp add: dir_ok_def)
next
  case (created d n f)
  then show ?case by (simp add: Create_keeps)
next
  case (deleted d n)
  then show ?case using Delete_dir[OF _ _ prod.collapse[symmetric], of d n] by blast
next
  case (changed d n old g)
  then show ?case using ChangeFid_dir[OF _ _ prod.collapse[symmetric], of d n old g] by blast
qed

text \<open>A new directory.\<close>

definition no_dir :: dirfile where
  "no_dir = \<lparr>dmem = \<lambda>_. 0, dpages = \<lambda>_. False, dreads = []\<rparr>"

abbreviation (input) "home \<equiv> afs_dir_MakeDir no_dir (1, 1) (3, 2)"

lemma home: "dir_ok home" "dreads home = []" "dir_map home = [[46] \<mapsto> (1, 1), [46, 46] \<mapsto> (3, 2)]" "npages (dmem home) \<le> 3"
  using MakeDir_dir[of no_dir "(1, 1)" "(3, 2)"] by (simp_all add: no_dir_def)

section \<open>Properties\<close>

text \<open>C10: In a well-formed directory, with reads that work, \<^verbatim>\<open>afs_dir_Create\<close> refuses a name that is there and
  changes nothing; otherwise the names afterwards are those before and the new one with the identifier given.  The
  only other outcome is \<^verbatim>\<open>EFBIG\<close>, with all 1023 pages in use and the names as they were.\<close>

theorem dir_create_adds:
  assumes "dir_ok d" and "dreads d = []" and "valid_name n" and "afs_dir_Create d n f = (code, d')"
  shows "dir_map d n \<noteq> None \<and> code = Eexist \<and> d' = d \<or>
    dir_map d n = None \<and> code = Ok \<and> dir_ok d' \<and> dir_map d' = (dir_map d)(n \<mapsto> f) \<or>
    dir_map d n = None \<and> code = Efbig \<and> dir_ok d' \<and> dir_map d' = dir_map d \<and> get16 (dmem d) pgcount_at = BIGMAXPAGES"
  using Create_dir[OF assms] by auto

theorem dir_create_adds_witness:
  "afs_dir_Create home [97] (7, 7) = (Ok, snd (afs_dir_Create home [97] (7, 7))) \<and>
   dir_map (snd (afs_dir_Create home [97] (7, 7))) = [[46] \<mapsto> (1, 1), [46, 46] \<mapsto> (3, 2), [97] \<mapsto> (7, 7)]"
proof -
  have "valid_name [97]" by (simp add: valid_name_def)
  from dir_create_adds[OF home(1,2) this, of "(7, 7)" "fst (afs_dir_Create home [97] (7, 7))" "snd (afs_dir_Create home [97] (7, 7))"]
  show ?thesis using home(3,4) by (auto simp: prod_eq_iff)
qed

text \<open>C11: In a well-formed directory, with reads that work, \<^verbatim>\<open>afs_dir_Delete\<close> takes exactly the given name out,
  frees its blobs and leaves the directory well-formed; a name that is not there is answered \<^verbatim>\<open>ENOENT\<close> and nothing changes.\<close>

theorem dir_delete_removes:
  assumes "dir_ok d" and "dreads d = []" and "afs_dir_Delete d n = (code, d')"
  shows "dir_ok d' \<and> (dir_map d n = None \<and> code = Enoent \<and> d' = d \<or>
    dir_map d n \<noteq> None \<and> code = Ok \<and> dir_map d' = (dir_map d)(n := None))"
  using Delete_dir[OF assms] by blast

theorem dir_delete_removes_witness:
  "fst (afs_dir_Delete home [46, 46]) = Ok \<and> dir_map (snd (afs_dir_Delete home [46, 46])) = [[46] \<mapsto> (1, 1)]"
  using dir_delete_removes[OF home(1,2), of "[46, 46]" "fst (afs_dir_Delete home [46, 46])" "snd (afs_dir_Delete home [46, 46])"] home(3) by auto

text \<open>C9: Every directory that is made by \<^verbatim>\<open>afs_dir_MakeDir\<close> and changed by the operations is well-formed, also when
  reads of a creation or of the first entries fail: its chains end, its entries do not overlap, its bitmaps and counts agree.
  So, when no read fails, a lookup answers 0 or \<^verbatim>\<open>ENOENT\<close> and never \<^verbatim>\<open>EIO\<close>.\<close>

theorem dir_well_formed:
  assumes "dir_reachable d"
  shows "dir_ok d \<and> (\<forall>n. fst (afs_dir_Lookup (d\<lparr>dreads := []\<rparr>) n) \<in> {Ok, Enoent})"
proof -
  have ok: "dir_ok d" using assms by (rule dir_reachable_ok)
  then have "dir_ok (d\<lparr>dreads := []\<rparr>)" by (simp add: dir_ok_def)
  then show ?thesis using ok by (simp add: Lookup_dir split: option.split)
qed

theorem dir_well_formed_witness:
  "dir_ok (snd (afs_dir_Create (home\<lparr>dreads := [False, True]\<rparr>) [97] (7, 7)))"
proof -
  have "dir_reachable home" by (rule made) (simp add: no_dir_def)
  then have "dir_reachable (snd (afs_dir_Create (home\<lparr>dreads := [False, True]\<rparr>) [97] (7, 7)))"
    by (intro created reads_to_come) (simp_all add: valid_name_def)
  from dir_well_formed[OF this] show ?thesis by blast
qed

text \<open>C17: \<^verbatim>\<open>afs_dir_MakeDir\<close> makes a well-formed directory with the two names \<^verbatim>\<open>.\<close> and \<^verbatim>\<open>..\<close>, whatever the first page held.\<close>

theorem dir_made:
  assumes "\<And>p. dpages d p \<Longrightarrow> p = 0" and "dreads d = []"
  shows "dir_ok (afs_dir_MakeDir d me parent) \<and> dir_map (afs_dir_MakeDir d me parent) = [[46] \<mapsto> me, [46, 46] \<mapsto> parent]"
  using MakeDir_dir(1,3)[OF assms] by blast

theorem dir_made_witness: "dir_map (afs_dir_MakeDir no_dir (5, 5) (1, 1)) [46] = Some (5, 5)"
  using dir_made[of no_dir "(5, 5)" "(1, 1)"] by (simp add: no_dir_def)

text \<open>C15: With reads that work, \<^verbatim>\<open>afs_dir_EnumerateDir\<close> shows its hook every name once, with its identifier, and no other.\<close>

theorem dir_enumerates_all:
  assumes "dir_ok d" and "dreads d = []"
  shows "\<exists>l. afs_dir_EnumerateDir d collect [] = (Ok, l, d) \<and> distinct (map fst l) \<and> map_of l = dir_map d"
  using assms by (rule Enumerate_dir)

theorem dir_enumerates_all_witness:
  "\<exists>l. afs_dir_EnumerateDir home collect [] = (Ok, l, home) \<and> map_of l = [[46] \<mapsto> (1, 1), [46, 46] \<mapsto> (3, 2)]"
  using dir_enumerates_all[OF home(1,2)] home(3) by metis

text \<open>C19: With reads that work, \<^verbatim>\<open>afs_dir_IsEmpty\<close> answers 1 exactly when there is a name besides \<^verbatim>\<open>.\<close> and \<^verbatim>\<open>..\<close>.  When
  the first page cannot be read it answers 0, the answer for an empty directory, whatever the directory holds.\<close>

theorem dir_isempty_answer:
  assumes "dir_ok d" and "dreads d = []"
  shows "(fst (afs_dir_IsEmpty d) \<longleftrightarrow> (\<exists>n. dir_map d n \<noteq> None \<and> n \<noteq> [46] \<and> n \<noteq> [46, 46])) \<and>
    \<not> fst (afs_dir_IsEmpty (d\<lparr>dreads := True # r\<rparr>))"
  using IsEmpty_dir[OF assms] by (simp add: afs_dir_IsEmpty_def dir_DRead_def)

theorem dir_isempty_answer_witness: "\<not> fst (afs_dir_IsEmpty home)"
  using dir_isempty_answer[OF home(1,2)] home(3) by (auto split: if_splits)

text \<open>C16: With reads that work, \<^verbatim>\<open>afs_dir_InverseLookup\<close> answers \<^verbatim>\<open>ENOENT\<close> exactly when no name has the identifier;
  otherwise it gives a name that has it, or \<^verbatim>\<open>E2BIG\<close> where the buffer is too short for that name and its NUL.\<close>

theorem dir_inverse_lookup:
  assumes "dir_ok d" and "dreads d = []"
  shows "(\<forall>n. dir_map d n \<noteq> Some f) \<and> afs_dir_InverseLookup d f len = (Enoent, [], d) \<or>
    (\<exists>n. dir_map d n = Some f \<and> afs_dir_InverseLookup d f len = (if len \<le> length n then (E2big, [], d) else (Ok, n, d)))"
  using assms by (rule InverseLookup_dir)

theorem dir_inverse_lookup_witness: "afs_dir_InverseLookup home (3, 2) 3 = (Ok, [46, 46], home)"
  using dir_inverse_lookup[OF home(1,2), of "(3, 2)" 3] home(3) by (auto split: if_splits)

text \<open>C18: With reads that work, \<^verbatim>\<open>afs_dir_ChangeFid\<close> gives an existing name the new identifier when no old identifier
  is passed or the one passed is the one stored; with another one it changes nothing and still answers 0.\<close>

theorem dir_changefid:
  assumes "dir_ok d" and "dreads d = []" and "afs_dir_ChangeFid d n old g = (code, d')"
  shows "dir_ok d' \<and> (dir_map d n = None \<and> code = Enoent \<and> d' = d \<or>
    dir_map d n \<noteq> None \<and> code = Ok \<and> dir_map d' = (if old = None \<or> old = dir_map d n then (dir_map d)(n \<mapsto> g) else dir_map d))"
  using ChangeFid_dir[OF assms] by blast

theorem dir_changefid_witness:
  "fst (afs_dir_ChangeFid home [46, 46] (Some (9, 9)) (4, 4)) = Ok \<and>
   dir_map (snd (afs_dir_ChangeFid home [46, 46] (Some (9, 9)) (4, 4))) [46, 46] = Some (3, 2)"
  using dir_changefid[OF home(1,2) prod.collapse[symmetric], of "[46, 46]" "Some (9, 9)" "(4, 4)"] home(3) by simp



end
