(* ===== verification/Spec2Isabelle.thy ===== *)
theory Spec2Isabelle
  imports Ubik_Recovery_Proofs Rxkad_Fcrypt Dir_Map
begin

text \<open>
  A verification library for OpenAFS.
\<close>

end
